(* ===== verification/Prelude.thy ===== *)
theory Prelude
  imports Main "HOL-Library.Word"
begin

text \<open>
  What every component of the development shares: the names of Go's integer types, Go
  errors as values, results as sums, the buffered channel of the Go runtime with its
  interface locale, and the collections of rewrite rules the component proofs use.
\<close>

named_theorems go_defs \<open>definitions that unfold to plain HOL and are used by every component\<close>
named_theorems inv_intros \<open>every operation keeps its component's invariant\<close>

section \<open>Integers\<close>

text \<open>
  Go's \<open>int64\<close>, \<open>int\<close> (on the 64-bit targets), \<open>uint64\<close>, \<open>uint16\<close> and \<open>byte\<close>. Arithmetic
  on a word wraps as Go's does; a signed comparison reads the word with \<open>sint\<close>.
\<close>

type_synonym i64 = "64 word"
type_synonym goint = "64 word"
type_synonym u64 = "64 word"
type_synonym u16 = "16 word"
type_synonym byte = "8 word"
type_synonym bytes = "byte list"

section \<open>Errors and results\<close>

text \<open>
  An \<open>error\<close> value: \<open>errors.New\<close> or a \<open>fmt.Errorf\<close> without \<open>%w\<close>; \<open>fmt.Errorf("p: %w", e)\<close>;
  the two errors of package \<open>context\<close>; and an error made by code outside the repository or
  by the operating system, known by its text only.
\<close>

datatype goerr =
    ErrNew string
  | ErrWrap string goerr
  | ErrCanceled
  | ErrDeadline
  | ErrExt string

type_synonym 'a result = "goerr + 'a"

text \<open>The method \<open>Error()\<close>.\<close>

fun error_text :: "goerr \<Rightarrow> string" where
  "error_text (ErrNew s) = s"
| "error_text (ErrWrap p e) = p @ '': '' @ error_text e"
| "error_text ErrCanceled = ''context canceled''"
| "error_text ErrDeadline = ''context deadline exceeded''"
| "error_text (ErrExt s) = s"

text \<open>
  \<open>errors.Is(e, t)\<close>: some error in the chain of wrapped errors equals the target.
\<close>

fun errors_Is :: "goerr \<Rightarrow> goerr \<Rightarrow> bool" where
  "errors_Is (ErrWrap p e) t = (ErrWrap p e = t \<or> errors_Is e t)"
| "errors_Is e t = (e = t)"

lemma errors_Is_self [simp]: "errors_Is e e"
  by (cases e) auto

definition is_ok :: "'a result \<Rightarrow> bool" where
  [go_defs]: "is_ok r = (case r of Inl _ \<Rightarrow> False | Inr _ \<Rightarrow> True)"

lemma is_ok_simps [simp]: "is_ok (Inr x)" "\<not> is_ok (Inl e)"
  by (simp_all add: is_ok_def)

section \<open>Buffered channels\<close>

text \<open>
  A buffered channel of the Go runtime: its capacity, the values in the buffer (oldest
  first) and whether it was closed. A send on a closed channel and a second close panic;
  both are errors of the model.
\<close>

datatype chan_panic = SendOnClosed | CloseOfClosed

record 'a chan =
  ch_cap :: nat
  ch_buf :: "'a list"
  ch_closed :: bool

definition make_chan :: "nat \<Rightarrow> 'a chan" where
  "make_chan n = \<lparr>ch_cap = n, ch_buf = [], ch_closed = False\<rparr>"

text \<open>
  \<open>select { case ch <- v: true; default: false }\<close>: never blocks; the value is dropped when
  the buffer is full.
\<close>

definition chan_try_send :: "'a chan \<Rightarrow> 'a \<Rightarrow> chan_panic + (bool \<times> 'a chan)" where
  "chan_try_send c v =
     (if ch_closed c then Inl SendOnClosed
      else if length (ch_buf c) < ch_cap c then Inr (True, c\<lparr>ch_buf := ch_buf c @ [v]\<rparr>)
      else Inr (False, c))"

text \<open>
  A receive: \<open>None\<close> while it blocks (empty and open), \<open>Some (None, _)\<close> for the zero value of
  a closed and drained channel, \<open>Some (Some v, _)\<close> for a value.
\<close>

definition chan_recv :: "'a chan \<Rightarrow> ('a option \<times> 'a chan) option" where
  "chan_recv c =
     (case ch_buf c of
        v # vs \<Rightarrow> Some (Some v, c\<lparr>ch_buf := vs\<rparr>)
      | [] \<Rightarrow> if ch_closed c then Some (None, c) else None)"

definition chan_close :: "'a chan \<Rightarrow> chan_panic + 'a chan" where
  "chan_close c = (if ch_closed c then Inl CloseOfClosed else Inr (c\<lparr>ch_closed := True\<rparr>))"

definition chan_ok :: "'a chan \<Rightarrow> bool" where
  "chan_ok c \<longleftrightarrow> length (ch_buf c) \<le> ch_cap c"

subsection \<open>The interface the components rely on\<close>

text \<open>
  What the bridge uses of a channel: a bounded first-in first-out queue whose non-blocking
  send appends when there is room and otherwise drops the value.
\<close>

locale bounded_queue =
  fixes send :: "'q \<Rightarrow> 'a \<Rightarrow> chan_panic + (bool \<times> 'q)"
    and recv :: "'q \<Rightarrow> ('a option \<times> 'q) option"
    and queued :: "'q \<Rightarrow> 'a list"
    and capacity :: "'q \<Rightarrow> nat"
    and open_q :: "'q \<Rightarrow> bool"
  assumes send_open: "open_q q \<Longrightarrow>
      (\<exists>q'. send q v = Inr (length (queued q) < capacity q, q')
          \<and> queued q' = (if length (queued q) < capacity q then queued q @ [v] else queued q)
          \<and> capacity q' = capacity q \<and> open_q q')"
    and send_closed: "\<not> open_q q \<Longrightarrow> send q v = Inl SendOnClosed"
    and recv_cons: "queued q = v # vs \<Longrightarrow>
      (\<exists>q'. recv q = Some (Some v, q') \<and> queued q' = vs
          \<and> capacity q' = capacity q \<and> open_q q' = open_q q)"
    and recv_open_empty: "open_q q \<Longrightarrow> queued q = [] \<Longrightarrow> recv q = None"
begin

lemma send_bounded:
  assumes "length (queued q) \<le> capacity q" and "send q v = Inr (b, q')"
  shows "length (queued q') \<le> capacity q'"
proof (cases "open_q q")
  case True
  then show ?thesis using send_open [of q v] assms by auto
next
  case False
  then show ?thesis using send_closed [of q v] assms by auto
qed

lemma send_accepts_iff:
  assumes "send q v = Inr (b, q')"
  shows "b \<longleftrightarrow> length (queued q) < capacity q"
proof (cases "open_q q")
  case True
  then show ?thesis using send_open [of q v] assms by auto
next
  case False
  then show ?thesis using send_closed [of q v] assms by auto
qed

lemma send_queued:
  assumes "send q v = Inr (b, q')"
  shows "queued q' = (if b then queued q @ [v] else queued q)"
proof (cases "open_q q")
  case True
  then show ?thesis using send_open [of q v] assms by auto
next
  case False
  then show ?thesis using send_closed [of q v] assms by auto
qed

lemma send_then_recv:
  assumes "open_q q" and "queued q = []" and "0 < capacity q"
  shows "\<exists>q1 q2. send q v = Inr (True, q1) \<and> recv q1 = Some (Some v, q2) \<and> queued q2 = []"
proof -
  from send_open [OF assms(1), of v] assms(2,3) obtain q1 where
    q1: "send q v = Inr (True, q1)" "queued q1 = [v]"
    by auto
  from recv_cons [OF q1(2)] obtain q2 where "recv q1 = Some (Some v, q2)" "queued q2 = []"
    by auto
  with q1(1) show ?thesis by blast
qed

end

interpretation gochan: bounded_queue chan_try_send chan_recv ch_buf ch_cap "\<lambda>c. \<not> ch_closed c"
  by unfold_locales
    (auto simp: chan_try_send_def chan_recv_def split: list.splits)

lemmas chan_defs = make_chan_def chan_try_send_def chan_recv_def chan_close_def

lemma chan_try_send_ok: "chan_ok c \<Longrightarrow> chan_try_send c v = Inr (b, c') \<Longrightarrow> chan_ok c'"
  unfolding chan_ok_def by (rule gochan.send_bounded)

lemma chan_recv_ok: "chan_ok c \<Longrightarrow> chan_recv c = Some (r, c') \<Longrightarrow> chan_ok c'"
  by (auto simp: chan_ok_def chan_recv_def split: list.splits if_splits)

lemma chan_close_ok: "chan_ok c \<Longrightarrow> chan_close c = Inr c' \<Longrightarrow> chan_ok c'"
  by (auto simp: chan_ok_def chan_close_def split: if_splits)

lemma make_chan_ok [simp]: "chan_ok (make_chan n)"
  by (simp add: chan_ok_def make_chan_def)

section \<open>Lists used as finite collections\<close>

text \<open>The loops of the source that scan a slice for an equal element.\<close>

fun slice_contains :: "'a list \<Rightarrow> 'a \<Rightarrow> bool" where
  "slice_contains [] x = False"
| "slice_contains (y # ys) x = (if y = x then True else slice_contains ys x)"

lemma slice_contains_iff [simp]: "slice_contains ys x \<longleftrightarrow> x \<in> set ys"
  by (induction ys) auto

lemma sum_list_filter_neq:
  fixes f :: "'a \<Rightarrow> 'b::ab_group_add"
  assumes "distinct xs" and "x \<in> set xs"
  shows "sum_list (map f (filter (\<lambda>y. y \<noteq> x) xs)) = sum_list (map f xs) - f x"
  using assms
proof (induction xs)
  case Nil
  then show ?case by simp
next
  case (Cons y ys)
  show ?case
  proof (cases "y = x")
    case True
    with Cons.prems have "filter (\<lambda>y. y \<noteq> x) ys = ys" by (auto simp: filter_id_conv)
    with True show ?thesis by simp
  next
    case False
    with Cons show ?thesis by (auto simp: algebra_simps)
  qed
qed

end
