(* ===== verification/Go_Strings.thy ===== *)
theory Go_Strings
  imports Prelude
begin

text \<open>
  The functions of Go's standard library on strings that the bridge uses: packages
  \<open>strings\<close>, \<open>strconv\<close> and \<open>path/filepath\<close>. A Go string is a sequence of bytes, so it is a
  \<open>string\<close> of HOL (a list of 8-bit characters) and its length counts bytes.
\<close>

section \<open>Bytes and strings\<close>

definition byte_of_char :: "char \<Rightarrow> byte" where
  "byte_of_char c = word_of_nat (of_char c)"

definition char_of_byte :: "byte \<Rightarrow> char" where
  "char_of_byte b = char_of (unat b)"

lemma of_char_less_256 [simp]: "(of_char c :: nat) < 256"
proof -
  have "char_of (of_char c :: nat) = c" by simp
  then show ?thesis by (metis of_char_of mod_less_divisor zero_less_numeral)
qed

lemma char_of_byte_of_char [simp]: "char_of_byte (byte_of_char c) = c"
  by (simp add: char_of_byte_def byte_of_char_def unat_of_nat)

lemma byte_of_char_of_byte [simp]: "byte_of_char (char_of_byte b) = b"
proof -
  have "unat b < 256" using unsigned_less [of b, where 'a = nat] by simp
  then show ?thesis by (simp add: char_of_byte_def byte_of_char_def)
qed

text \<open>The conversions \<open>[]byte(s)\<close> and \<open>string(b)\<close>.\<close>

definition bytes_of_string :: "string \<Rightarrow> bytes" where
  [go_defs]: "bytes_of_string s = map byte_of_char s"

definition string_of_bytes :: "bytes \<Rightarrow> string" where
  [go_defs]: "string_of_bytes b = map char_of_byte b"

lemma string_of_bytes_of_string [simp]: "string_of_bytes (bytes_of_string s) = s"
  by (simp add: go_defs comp_def)

lemma bytes_of_string_of_bytes [simp]: "bytes_of_string (string_of_bytes b) = b"
  by (simp add: go_defs comp_def)

lemma length_bytes_of_string [simp]: "length (bytes_of_string s) = length s"
  by (simp add: go_defs)

lemma length_string_of_bytes [simp]: "length (string_of_bytes b) = length b"
  by (simp add: go_defs)

section \<open>Package strings\<close>

definition strings_HasPrefix :: "string \<Rightarrow> string \<Rightarrow> bool" where
  "strings_HasPrefix s p \<longleftrightarrow> take (length p) s = p"

definition strings_HasSuffix :: "string \<Rightarrow> string \<Rightarrow> bool" where
  "strings_HasSuffix s p \<longleftrightarrow> length p \<le> length s \<and> drop (length s - length p) s = p"

definition strings_TrimSuffix :: "string \<Rightarrow> string \<Rightarrow> string" where
  "strings_TrimSuffix s p = (if strings_HasSuffix s p then take (length s - length p) s else s)"

lemma HasPrefix_append [simp]: "strings_HasPrefix (p @ s) p"
  by (simp add: strings_HasPrefix_def)

lemma HasSuffix_append [simp]: "strings_HasSuffix (s @ p) p"
  by (simp add: strings_HasSuffix_def)

lemma TrimSuffix_append [simp]: "strings_TrimSuffix (s @ p) p = s"
  by (simp add: strings_TrimSuffix_def)

text \<open>\<open>strings.ReplaceAll(s, "\n", " ")\<close>.\<close>

definition replace_newlines :: "string \<Rightarrow> string" where
  "replace_newlines s = map (\<lambda>c. if c = CHR 0x0A then CHR '' '' else c) s"

lemma length_replace_newlines [simp]: "length (replace_newlines s) = length s"
  by (simp add: replace_newlines_def)

text \<open>
  \<open>strings.TrimSpace\<close> removes the Unicode white space at both ends. The encodings of the
  runes \<open>unicode.IsSpace\<close> accepts: six ASCII characters, U+0085, U+00A0, U+1680, U+2000 to
  U+200A, U+2028, U+2029, U+202F, U+205F and U+3000. Each encoding starts with a byte that
  starts a rune, so matching it at the end of the string is what decoding the last rune does.
\<close>

definition space_runes :: "string list" where
  "space_runes =
     [[CHR 0x09], [CHR 0x0A], [CHR 0x0B], [CHR 0x0C], [CHR 0x0D], [CHR 0x20],
      [CHR 0xC2, CHR 0x85], [CHR 0xC2, CHR 0xA0], [CHR 0xE1, CHR 0x9A, CHR 0x80],
      [CHR 0xE2, CHR 0x80, CHR 0x80], [CHR 0xE2, CHR 0x80, CHR 0x81],
      [CHR 0xE2, CHR 0x80, CHR 0x82], [CHR 0xE2, CHR 0x80, CHR 0x83],
      [CHR 0xE2, CHR 0x80, CHR 0x84], [CHR 0xE2, CHR 0x80, CHR 0x85],
      [CHR 0xE2, CHR 0x80, CHR 0x86], [CHR 0xE2, CHR 0x80, CHR 0x87],
      [CHR 0xE2, CHR 0x80, CHR 0x88], [CHR 0xE2, CHR 0x80, CHR 0x89],
      [CHR 0xE2, CHR 0x80, CHR 0x8A], [CHR 0xE2, CHR 0x80, CHR 0xA8],
      [CHR 0xE2, CHR 0x80, CHR 0xA9], [CHR 0xE2, CHR 0x80, CHR 0xAF],
      [CHR 0xE2, CHR 0x81, CHR 0x9F], [CHR 0xE3, CHR 0x80, CHR 0x80]]"

fun first_prefix :: "string list \<Rightarrow> string \<Rightarrow> string option" where
  "first_prefix [] s = None"
| "first_prefix (p # ps) s = (if take (length p) s = p then Some p else first_prefix ps s)"

lemma first_prefix_Some: "first_prefix ps s = Some p \<Longrightarrow> p \<in> set ps \<and> take (length p) s = p"
  by (induction ps) (auto split: if_splits)

text \<open>
  Strip any number of the given prefixes; the number of characters bounds the number of
  rounds, since no encoding is empty.
\<close>

fun strip_runes :: "nat \<Rightarrow> string list \<Rightarrow> string \<Rightarrow> string" where
  "strip_runes 0 ps s = s"
| "strip_runes (Suc n) ps s =
     (case first_prefix ps s of None \<Rightarrow> s | Some p \<Rightarrow> strip_runes n ps (drop (length p) s))"

definition trim_left :: "string \<Rightarrow> string" where
  "trim_left s = strip_runes (length s) space_runes s"

definition trim_right :: "string \<Rightarrow> string" where
  "trim_right s = rev (strip_runes (length s) (map rev space_runes) (rev s))"

definition strings_TrimSpace :: "string \<Rightarrow> string" where
  "strings_TrimSpace s = trim_right (trim_left s)"

lemma first_prefix_Nil_None: "[] \<notin> set ps \<Longrightarrow> first_prefix ps [] = None"
  by (induction ps) auto

text \<open>The rounds suffice: what is left starts with none of the prefixes.\<close>

lemma strip_runes_done:
  assumes "[] \<notin> set ps"
  shows "length s \<le> n \<Longrightarrow> first_prefix ps (strip_runes n ps s) = None"
proof (induction n arbitrary: s)
  case 0
  with assms show ?case by (simp add: first_prefix_Nil_None)
next
  case (Suc n)
  show ?case
  proof (cases "first_prefix ps s")
    case None
    then show ?thesis by simp
  next
    case (Some p)
    with assms have "p \<noteq> []" by (metis first_prefix_Some)
    with Suc.prems have "length (drop (length p) s) \<le> n" by (cases p) auto
    then show ?thesis using Some Suc.IH by simp
  qed
qed

lemma strip_runes_noop: "first_prefix ps s = None \<Longrightarrow> strip_runes n ps s = s"
  by (cases n) auto

lemma strip_runes_length: "length (strip_runes n ps s) \<le> length s"
proof (induction n arbitrary: s)
  case 0
  then show ?case by simp
next
  case (Suc n)
  have "length (strip_runes n ps (drop k s)) \<le> length s" for k
    using Suc.IH [of "drop k s"] by simp
  then show ?case by (auto split: option.splits)
qed

lemma TrimSpace_length: "length (strings_TrimSpace s) \<le> length s"
  unfolding strings_TrimSpace_def trim_right_def trim_left_def
  by (metis strip_runes_length length_rev order_trans)

text \<open>
  \<open>strings.ToLower\<close>, as far as a comparison with an ASCII string can see it: the ASCII
  capitals and the two non-ASCII runes whose lower case is ASCII (U+0130, dotted capital I,
  and U+212A, the Kelvin sign). Any other rune stays outside ASCII, so it is left as it is.
\<close>

definition lower_char :: "char \<Rightarrow> char" where
  "lower_char c = (let n = (of_char c :: nat) in
     if 65 \<le> n \<and> n \<le> 90 then char_of (n + 32) else c)"

fun strings_ToLower :: "string \<Rightarrow> string" where
  "strings_ToLower [] = []"
| "strings_ToLower (c # cs) =
     (if c = CHR 0xC4 \<and> take 1 cs = [CHR 0xB0] then CHR ''i'' # strings_ToLower (drop 1 cs)
      else if c = CHR 0xE2 \<and> take 2 cs = [CHR 0x84, CHR 0xAA] then CHR ''k'' # strings_ToLower (drop 2 cs)
      else lower_char c # strings_ToLower cs)"

section \<open>Package filepath\<close>

text \<open>
  \<open>filepath.Ext\<close>: from the last dot on, if it comes after the last slash; else empty. The
  loop runs from the end of the name, so it is written on the reversed name.
\<close>

fun ext_rev :: "string \<Rightarrow> string \<Rightarrow> string" where
  "ext_rev [] acc = []"
| "ext_rev (c # cs) acc =
     (if c = CHR ''/'' then [] else if c = CHR ''.'' then c # acc else ext_rev cs (c # acc))"

definition filepath_Ext :: "string \<Rightarrow> string" where
  "filepath_Ext name = ext_rev (rev name) []"

lemma ext_rev_plain:
  "CHR ''.'' \<notin> set e \<Longrightarrow> CHR ''/'' \<notin> set e \<Longrightarrow>
   ext_rev (rev e @ CHR ''.'' # rest) acc = CHR ''.'' # e @ acc"
  by (induction e arbitrary: acc rest rule: rev_induct) auto

lemma filepath_Ext_append:
  "CHR ''.'' \<notin> set e \<Longrightarrow> CHR ''/'' \<notin> set e \<Longrightarrow>
   filepath_Ext (k @ CHR ''.'' # e) = CHR ''.'' # e"
  by (simp add: filepath_Ext_def ext_rev_plain)

section \<open>Package strconv and the verb \<open>%d\<close>\<close>

definition digit_char :: "nat \<Rightarrow> char" where
  "digit_char d = char_of (48 + d)"

fun print_nat :: "nat \<Rightarrow> string" where
  "print_nat n = (if n < 10 then [digit_char n] else print_nat (n div 10) @ [digit_char (n mod 10)])"

declare print_nat.simps [simp del]

text \<open>\<open>fmt.Sprintf("%d", w)\<close> for a signed 64-bit value.\<close>

definition print_i64 :: "i64 \<Rightarrow> string" where
  "print_i64 w = (if sint w < 0 then CHR ''-'' # print_nat (nat (- sint w)) else print_nat (nat (sint w)))"

datatype num_err = ErrSyntax | ErrRange

definition digit_val :: "char \<Rightarrow> nat option" where
  "digit_val c = (let n = (of_char c :: nat) in if 48 \<le> n \<and> n \<le> 57 then Some (n - 48) else None)"

text \<open>
  The loop of \<open>strconv.ParseUint(s, 10, 64)\<close>: a bad character and an overflow are reported
  where the loop meets them, so whichever comes first wins.
\<close>

fun parse_uint_loop :: "nat \<Rightarrow> string \<Rightarrow> num_err + nat" where
  "parse_uint_loop n [] = Inr n"
| "parse_uint_loop n (c # cs) =
     (case digit_val c of
        None \<Rightarrow> Inl ErrSyntax
      | Some d \<Rightarrow>
          if 2 ^ 64 - 1 < n * 10 + d then Inl ErrRange
          else parse_uint_loop (n * 10 + d) cs)"

definition parse_uint :: "string \<Rightarrow> num_err + nat" where
  "parse_uint s = (if s = [] then Inl ErrSyntax else parse_uint_loop 0 s)"

text \<open>
  \<open>strconv.ParseInt(s, 10, 64)\<close>: the value it returns beside the error, since the callers
  that drop the error use it (0 for a syntax error, the bound for a range error).
\<close>

definition parse_int :: "string \<Rightarrow> i64 \<times> num_err option" where
  "parse_int s =
     (let neg = (take 1 s = ''-'');
          body = (if neg \<or> take 1 s = ''+'' then drop 1 s else s)
      in if s = [] then (0, Some ErrSyntax)
         else case parse_uint body of
           Inl ErrSyntax \<Rightarrow> (0, Some ErrSyntax)
         | Inl ErrRange \<Rightarrow>
             (if neg then (word_of_int (- (2 ^ 63)), Some ErrRange)
              else (word_of_int (2 ^ 63 - 1), Some ErrRange))
         | Inr un \<Rightarrow>
             if \<not> neg \<and> 2 ^ 63 \<le> un then (word_of_int (2 ^ 63 - 1), Some ErrRange)
             else if neg \<and> 2 ^ 63 < un then (word_of_int (- (2 ^ 63)), Some ErrRange)
             else (if neg then word_of_int (- int un) else word_of_int (int un), None))"

text \<open>\<open>strconv.Atoi\<close> on a 64-bit target, with its error dropped as the handlers do.\<close>

definition atoi_value :: "string \<Rightarrow> goint" where
  "atoi_value s = fst (parse_int s)"

subsection \<open>Decimal printing and parsing\<close>

lemma of_char_digit_char [simp]: "d < 10 \<Longrightarrow> (of_char (digit_char d) :: nat) = 48 + d"
  by (simp add: digit_char_def)

lemma digit_val_digit_char [simp]: "d < 10 \<Longrightarrow> digit_val (digit_char d) = Some d"
  by (simp add: digit_val_def)

lemma print_nat_nonempty [simp]: "print_nat n \<noteq> []"
  by (subst print_nat.simps) simp

lemma print_nat_digits: "c \<in> set (print_nat n) \<Longrightarrow> \<exists>d < 10. c = digit_char d"
proof (induction n rule: print_nat.induct)
  case (1 n)
  show ?case
  proof (cases "n < 10")
    case True
    with "1.prems" show ?thesis by (subst (asm) print_nat.simps) auto
  next
    case False
    with "1.prems" have "c \<in> set (print_nat (n div 10)) \<or> c = digit_char (n mod 10)"
      by (subst (asm) print_nat.simps) auto
    moreover have "n mod 10 < 10" by simp
    ultimately show ?thesis using "1.IH" [OF False] by blast
  qed
qed

lemma print_nat_char_range: "c \<in> set (print_nat n) \<Longrightarrow> 48 \<le> (of_char c :: nat) \<and> (of_char c :: nat) < 58"
  by (auto dest!: print_nat_digits)

lemma print_nat_no_sign:
  "CHR ''-'' \<notin> set (print_nat n)" "CHR ''+'' \<notin> set (print_nat n)" "CHR '':'' \<notin> set (print_nat n)"
  using print_nat_char_range [of _ n] by fastforce+

lemma print_nat_take_1:
  "take (Suc 0) (print_nat n) \<noteq> ''-''" "take (Suc 0) (print_nat n) \<noteq> ''+''"
  using print_nat_no_sign [of n] print_nat_nonempty [of n] by (cases "print_nat n"; auto)+

text \<open>The parser's loop reads back what the printer wrote, up to the width of \<open>uint64\<close>.\<close>

lemma parse_uint_loop_print_nat:
  "n \<le> 2 ^ 64 - 1 \<Longrightarrow> parse_uint_loop 0 (print_nat n @ rest) = parse_uint_loop n rest"
proof (induction n arbitrary: rest rule: print_nat.induct)
  case (1 n)
  show ?case
  proof (cases "n < 10")
    case True
    then show ?thesis by (subst print_nat.simps) simp
  next
    case False
    have "n div 10 \<le> 2 ^ 64 - 1" using "1.prems" by simp
    then have ih: "parse_uint_loop 0 (print_nat (n div 10) @ digit_char (n mod 10) # rest)
        = parse_uint_loop (n div 10) (digit_char (n mod 10) # rest)"
      using "1.IH" [OF False] by blast
    have split: "print_nat n = print_nat (n div 10) @ [digit_char (n mod 10)]"
      using False by (subst print_nat.simps) simp
    have val: "n div 10 * 10 + n mod 10 = n" by presburger
    have "parse_uint_loop (n div 10) (digit_char (n mod 10) # rest) = parse_uint_loop n rest"
      using "1.prems" by (simp add: val)
    then show ?thesis by (simp only: split append_assoc append.simps ih)
  qed
qed

lemma parse_uint_print_nat: "n \<le> 2 ^ 64 - 1 \<Longrightarrow> parse_uint (print_nat n) = Inr n"
  using parse_uint_loop_print_nat [of n "[]"] by (simp add: parse_uint_def)

lemma sint_i64_bounds: "- (2 ^ 63) \<le> sint (w :: i64)" "sint (w :: i64) < 2 ^ 63"
  using sint_greater_eq [of w] sint_less [of w] by simp_all

lemma parse_int_print_i64: "parse_int (print_i64 w) = (w, None)"
proof (cases "sint w < 0")
  case True
  let ?n = "nat (- sint w)"
  have n: "?n \<le> 2 ^ 63" using sint_i64_bounds(1) [of w] by simp
  then have "parse_uint (print_nat ?n) = Inr ?n" by (intro parse_uint_print_nat) simp
  with True n show ?thesis by (simp add: print_i64_def parse_int_def Let_def)
next
  case False
  let ?n = "nat (sint w)"
  have n: "?n < 2 ^ 63" using sint_i64_bounds(2) [of w] False by (simp add: nat_less_iff)
  then have p: "parse_uint (print_nat ?n) = Inr ?n" by (intro parse_uint_print_nat) simp
  from False n p show ?thesis
    by (simp add: print_i64_def parse_int_def Let_def print_nat_take_1)
qed

lemma print_i64_inject [simp]: "print_i64 v = print_i64 w \<longleftrightarrow> v = w"
  by (metis parse_int_print_i64 fst_conv)

lemma atoi_value_print [simp]: "atoi_value (print_i64 w) = w"
  by (simp add: atoi_value_def parse_int_print_i64)

lemma print_i64_no_colon: "CHR '':'' \<notin> set (print_i64 w)"
  by (simp add: print_i64_def print_nat_no_sign)

end
