(* ===== verification/Crypto.thy ===== *)
theory Crypto
  imports Go_Strings
begin

text \<open>
  The parts of Go's standard library the media identifiers rest on, written out in full:
  \<open>encoding/binary\<close> (big-endian integers), \<open>encoding/base64\<close> (the raw URL encoding and its
  lenient decoder), \<open>encoding/hex\<close>, \<open>crypto/sha256\<close> and \<open>crypto/hmac\<close>. Only functional
  facts are proved of the hash (the size of its result); nothing is assumed about it.
\<close>

unbundle bit_operations_syntax

section \<open>Big-endian integers\<close>

definition put_uint16 :: "u16 \<Rightarrow> bytes" where
  "put_uint16 v = [ucast (drop_bit 8 v), ucast v]"

definition put_uint32 :: "32 word \<Rightarrow> bytes" where
  "put_uint32 v = [ucast (drop_bit 24 v), ucast (drop_bit 16 v), ucast (drop_bit 8 v), ucast v]"

definition put_uint64 :: "u64 \<Rightarrow> bytes" where
  "put_uint64 v =
     [ucast (drop_bit 56 v), ucast (drop_bit 48 v), ucast (drop_bit 40 v), ucast (drop_bit 32 v),
      ucast (drop_bit 24 v), ucast (drop_bit 16 v), ucast (drop_bit 8 v), ucast v]"

text \<open>
  Reading the first two, four or eight bytes of a slice; a shorter slice panics in Go, so the
  callers check the length first and the model returns \<open>None\<close>.
\<close>

fun uint16_be :: "bytes \<Rightarrow> u16 option" where
  "uint16_be (a # b # _) = Some (push_bit 8 (ucast a) OR ucast b)"
| "uint16_be _ = None"

fun uint32_be :: "bytes \<Rightarrow> 32 word option" where
  "uint32_be (a # b # c # d # _) =
     Some (push_bit 24 (ucast a) OR push_bit 16 (ucast b) OR push_bit 8 (ucast c) OR ucast d)"
| "uint32_be _ = None"

fun uint64_be :: "bytes \<Rightarrow> u64 option" where
  "uint64_be (a # b # c # d # e # f # g # h # _) =
     Some (push_bit 56 (ucast a) OR push_bit 48 (ucast b) OR push_bit 40 (ucast c)
           OR push_bit 32 (ucast d) OR push_bit 24 (ucast e) OR push_bit 16 (ucast f)
           OR push_bit 8 (ucast g) OR ucast h)"
| "uint64_be _ = None"

lemma length_put_uint [simp]:
  "length (put_uint16 v) = 2" "length (put_uint32 w) = 4" "length (put_uint64 x) = 8"
  by (simp_all add: put_uint16_def put_uint32_def put_uint64_def)

lemma nat_byte_cases:
  fixes n :: nat
  assumes "n < 64"
  obtains "n < 8" | "8 \<le> n" "n < 16" "n - 8 < 8" | "16 \<le> n" "n < 24" "n - 16 < 8"
    | "24 \<le> n" "n < 32" "n - 24 < 8" | "32 \<le> n" "n < 40" "n - 32 < 8"
    | "40 \<le> n" "n < 48" "n - 40 < 8" | "48 \<le> n" "n < 56" "n - 48 < 8"
    | "56 \<le> n" "n < 64" "n - 56 < 8"
proof -
  consider "n < 8" | "8 \<le> n" "n < 16" | "16 \<le> n" "n < 24" | "24 \<le> n" "n < 32"
    | "32 \<le> n" "n < 40" | "40 \<le> n" "n < 48" | "48 \<le> n" "n < 56" | "56 \<le> n" "n < 64"
    using assms by linarith
  then show ?thesis using that by cases simp_all
qed

lemma uint16_put [simp]: "uint16_be (put_uint16 v @ rest) = Some v"
proof -
  have "push_bit 8 (ucast (ucast (drop_bit 8 v) :: byte)) OR ucast (ucast v :: byte) = v" (is "?x = v")
  proof (rule bit_word_eqI)
    fix n assume "n < LENGTH(16)"
    then have "n < 16" by simp
    then show "bit ?x n = bit v n"
      by (cases "n < 8") (auto simp: bit_simps)
  qed
  then show ?thesis by (simp add: put_uint16_def)
qed

lemma uint64_put [simp]: "uint64_be (put_uint64 v @ rest) = Some v"
proof -
  let ?c = "\<lambda>k. (ucast (ucast (drop_bit k v) :: byte) :: u64)"
  have "push_bit 56 (?c 56) OR push_bit 48 (?c 48) OR push_bit 40 (?c 40) OR push_bit 32 (?c 32)
      OR push_bit 24 (?c 24) OR push_bit 16 (?c 16) OR push_bit 8 (?c 8)
      OR ucast (ucast v :: byte) = v" (is "?x = v")
  proof (rule bit_word_eqI)
    fix n assume "n < LENGTH(64)"
    then have "n < 64" by simp
    then show "bit ?x n = bit v n"
      by (cases n rule: nat_byte_cases; cases "bit v n"; simp add: bit_simps)
  qed
  then show ?thesis by (simp add: put_uint64_def)
qed

lemma put_uint16_inverse:
  assumes "uint16_be bs = Some v"
  shows "bs = put_uint16 v @ drop 2 bs"
proof -
  from assms obtain a b r where bs: "bs = a # b # r" "v = push_bit 8 (ucast a) OR ucast b"
    by (cases bs rule: uint16_be.cases) auto
  have "ucast (drop_bit 8 v) = a"
    unfolding bs by (rule bit_word_eqI) (auto simp: bit_simps dest: bit_imp_le_length)
  moreover have "ucast v = b"
    unfolding bs by (rule bit_word_eqI) (auto simp: bit_simps)
  ultimately show ?thesis by (simp add: bs(1) put_uint16_def)
qed

lemma put_uint64_inverse:
  assumes "uint64_be bs = Some v"
  shows "bs = put_uint64 v @ drop 8 bs"
proof -
  from assms obtain a b c d e f g h r where bs: "bs = a # b # c # d # e # f # g # h # r"
    and v: "v = push_bit 56 (ucast a) OR push_bit 48 (ucast b) OR push_bit 40 (ucast c)
           OR push_bit 32 (ucast d) OR push_bit 24 (ucast e) OR push_bit 16 (ucast f)
           OR push_bit 8 (ucast g) OR ucast h"
    by (cases bs rule: uint64_be.cases) auto
  have "ucast (drop_bit 56 v) = a" "ucast (drop_bit 48 v) = b" "ucast (drop_bit 40 v) = c"
    "ucast (drop_bit 32 v) = d" "ucast (drop_bit 24 v) = e" "ucast (drop_bit 16 v) = f"
    "ucast (drop_bit 8 v) = g" "ucast v = h"
    unfolding v by (rule bit_word_eqI, auto simp: bit_simps dest: bit_imp_le_length)+
  then show ?thesis by (simp add: bs put_uint64_def)
qed

subsection \<open>Fixed-width fields as an interface\<close>

text \<open>
  A field of a binary layout: a writer of constant width and a reader of the front of a
  slice that are inverse to each other, both ways.
\<close>

locale fixed_field =
  fixes put :: "'v \<Rightarrow> bytes"
    and get :: "bytes \<Rightarrow> 'v option"
    and width :: nat
  assumes put_width: "length (put v) = width"
    and get_put: "get (put v @ rest) = Some v"
    and put_get: "get bs = Some v \<Longrightarrow> bs = put v @ drop width bs"
    and get_long: "width \<le> length bs \<Longrightarrow> get bs \<noteq> None"
begin

lemma get_take: "get (put v) = Some v"
  using get_put [of v "[]"] by simp

lemma put_inject: "put v @ r = put w @ s \<longleftrightarrow> v = w \<and> r = s"
proof
  assume eq: "put v @ r = put w @ s"
  then have "get (put v @ r) = get (put w @ s)" by simp
  then have "v = w" by (simp add: get_put)
  with eq show "v = w \<and> r = s" by simp
qed simp

lemma get_iff: "get bs = Some v \<longleftrightarrow> width \<le> length bs \<and> take width bs = put v"
proof
  assume g: "get bs = Some v"
  then have *: "bs = put v @ drop width bs" by (rule put_get)
  then have "width \<le> length bs" by (metis put_width length_append le_add1)
  moreover have "take width bs = put v"
    using * put_width [of v] by (metis append_eq_conv_conj)
  ultimately show "width \<le> length bs \<and> take width bs = put v" by simp
next
  assume "width \<le> length bs \<and> take width bs = put v"
  then have "bs = put v @ drop width bs" by (metis append_take_drop_id)
  then show "get bs = Some v" by (metis get_put)
qed

end

lemma uint16_long: "2 \<le> length bs \<Longrightarrow> uint16_be bs \<noteq> None"
  by (cases bs rule: uint16_be.cases) auto

lemma uint64_long: "8 \<le> length bs \<Longrightarrow> uint64_be bs \<noteq> None"
  by (cases bs rule: uint64_be.cases) auto

interpretation be16: fixed_field put_uint16 uint16_be 2
  by unfold_locales (simp_all add: put_uint16_inverse [symmetric] uint16_long)

interpretation be64: fixed_field put_uint64 uint64_be 8
  by unfold_locales (simp_all add: put_uint64_inverse [symmetric] uint64_long)

section \<open>SHA-256 and HMAC\<close>

type_synonym u32 = "32 word"

text \<open>
  The round constants: the first 32 bits of the fractional parts of the cube roots of the
  first 64 primes; the initial state uses the square roots of the first eight.
\<close>

definition sha_k :: "u32 list" where
  "sha_k =
     [1116352408, 1899447441, 3049323471, 3921009573, 961987163, 1508970993,
      2453635748, 2870763221, 3624381080, 310598401, 607225278, 1426881987,
      1925078388, 2162078206, 2614888103, 3248222580, 3835390401, 4022224774,
      264347078, 604807628, 770255983, 1249150122, 1555081692, 1996064986,
      2554220882, 2821834349, 2952996808, 3210313671, 3336571891, 3584528711,
      113926993, 338241895, 666307205, 773529912, 1294757372, 1396182291,
      1695183700, 1986661051, 2177026350, 2456956037, 2730485921, 2820302411,
      3259730800, 3345764771, 3516065817, 3600352804, 4094571909, 275423344,
      430227734, 506948616, 659060556, 883997877, 958139571, 1322822218,
      1537002063, 1747873779, 1955562222, 2024104815, 2227730452, 2361852424,
      2428436474, 2756734187, 3204031479, 3329325298]"

type_synonym sha_state = "u32 \<times> u32 \<times> u32 \<times> u32 \<times> u32 \<times> u32 \<times> u32 \<times> u32"

definition sha_init :: sha_state where
  "sha_init =
     (1779033703, 3144134277, 1013904242, 2773480762,
      1359893119, 2600822924, 528734635, 1541459225)"

definition sha_sigma0 :: "u32 \<Rightarrow> u32" where
  "sha_sigma0 x = word_rotr 7 x XOR word_rotr 18 x XOR drop_bit 3 x"

definition sha_sigma1 :: "u32 \<Rightarrow> u32" where
  "sha_sigma1 x = word_rotr 17 x XOR word_rotr 19 x XOR drop_bit 10 x"

text \<open>The message schedule, newest word first, extended by the given number of words.\<close>

fun sha_extend :: "nat \<Rightarrow> u32 list \<Rightarrow> u32 list" where
  "sha_extend 0 ws = ws"
| "sha_extend (Suc n) ws =
     sha_extend n ((sha_sigma1 (ws ! 1) + ws ! 6 + sha_sigma0 (ws ! 14) + ws ! 15) # ws)"

fun sha_round :: "sha_state \<Rightarrow> u32 \<times> u32 \<Rightarrow> sha_state" where
  "sha_round (a, b, c, d, e, f, g, h) (k, w) =
     (let s1 = word_rotr 6 e XOR word_rotr 11 e XOR word_rotr 25 e;
          ch = (e AND f) XOR (NOT e AND g);
          t1 = h + s1 + ch + k + w;
          s0 = word_rotr 2 a XOR word_rotr 13 a XOR word_rotr 22 a;
          maj = (a AND b) XOR (a AND c) XOR (b AND c);
          t2 = s0 + maj
      in (t1 + t2, a, b, c, d + t1, e, f, g))"

fun sha_add :: "sha_state \<Rightarrow> sha_state \<Rightarrow> sha_state" where
  "sha_add (a, b, c, d, e, f, g, h) (a', b', c', d', e', f', g', h') =
     (a + a', b + b', c + c', d + d', e + e', f + f', g + g', h + h')"

fun words_of_block :: "bytes \<Rightarrow> u32 list" where
  "words_of_block (a # b # c # d # r) =
     (push_bit 24 (ucast a) OR push_bit 16 (ucast b) OR push_bit 8 (ucast c) OR ucast d) # words_of_block r"
| "words_of_block _ = []"

definition sha_block :: "sha_state \<Rightarrow> bytes \<Rightarrow> sha_state" where
  "sha_block st blk =
     sha_add st (foldl sha_round st (zip sha_k (rev (sha_extend 48 (rev (words_of_block blk))))))"

definition sha_pad :: "bytes \<Rightarrow> bytes" where
  "sha_pad m = m @ 0x80 # replicate ((119 - length m mod 64) mod 64) 0
     @ put_uint64 (word_of_nat (8 * length m))"

function sha_blocks :: "sha_state \<Rightarrow> bytes \<Rightarrow> sha_state" where
  "sha_blocks st bs = (if bs = [] then st else sha_blocks (sha_block st (take 64 bs)) (drop 64 bs))"
  by pat_completeness auto
termination
  by (relation "measure (\<lambda>(st, bs). length bs)") auto

declare sha_blocks.simps [simp del]

fun sha_digest :: "sha_state \<Rightarrow> bytes" where
  "sha_digest (a, b, c, d, e, f, g, h) = concat (map put_uint32 [a, b, c, d, e, f, g, h])"

definition sha256 :: "bytes \<Rightarrow> bytes" where
  "sha256 m = sha_digest (sha_blocks sha_init (sha_pad m))"

definition hmac_sha256 :: "bytes \<Rightarrow> bytes \<Rightarrow> bytes" where
  "hmac_sha256 key m =
     (let k0 = (if 64 < length key then sha256 key else key);
          k = k0 @ replicate (64 - length k0) 0
      in sha256 (map ((XOR) 0x5c) k @ sha256 (map ((XOR) 0x36) k @ m)))"

lemma length_sha256 [simp]: "length (sha256 m) = 32"
  by (cases "sha_blocks sha_init (sha_pad m)" rule: sha_digest.cases) (simp add: sha256_def)

lemma length_hmac_sha256 [simp]: "length (hmac_sha256 key m) = 32"
  by (simp add: hmac_sha256_def Let_def)

lemma sha_pad_blocks: "64 dvd length (sha_pad m)"
proof -
  define r q where "r = length m mod 64" and "q = length m div 64"
  have m: "length m = 64 * q + r" and r: "r < 64" by (simp_all add: r_def q_def)
  have "(119 - r) mod 64 = (if r \<le> 55 then 55 - r else 119 - r)"
    using r by (auto simp: mod_if)
  then have "length (sha_pad m) = (if r \<le> 55 then 64 * (q + 1) else 64 * (q + 2))"
    using m r by (simp add: sha_pad_def r_def [symmetric])
  then show ?thesis by (metis dvd_triv_left)
qed

section \<open>Hexadecimal\<close>

definition hex_digit :: "nat \<Rightarrow> char" where
  "hex_digit n = (if n < 10 then char_of (48 + n) else char_of (87 + n))"

definition hex_encode :: "bytes \<Rightarrow> string" where
  "hex_encode bs = concat (map (\<lambda>b. [hex_digit (unat b div 16), hex_digit (unat b mod 16)]) bs)"

lemma length_hex_encode [simp]: "length (hex_encode bs) = 2 * length bs"
  by (induction bs) (simp_all add: hex_encode_def)

lemma hex_digit_range: "n < 16 \<Longrightarrow> CHR ''.'' \<noteq> hex_digit n \<and> CHR ''/'' \<noteq> hex_digit n"
proof -
  assume n: "n < 16"
  have "(of_char (hex_digit n) :: nat) = (if n < 10 then 48 + n else 87 + n)"
    using n by (simp add: hex_digit_def)
  then have "(of_char (hex_digit n) :: nat) \<noteq> of_char (CHR ''.'')"
    "(of_char (hex_digit n) :: nat) \<noteq> of_char (CHR ''/'')"
    by simp_all
  then show ?thesis by metis
qed

lemma hex_encode_plain: "CHR ''.'' \<notin> set (hex_encode bs)" "CHR ''/'' \<notin> set (hex_encode bs)"
proof -
  have "unat b div 16 < 16" for b :: byte
    using unsigned_less [of b, where 'a = nat] by simp
  then show "CHR ''.'' \<notin> set (hex_encode bs)" "CHR ''/'' \<notin> set (hex_encode bs)"
    by (simp_all add: hex_encode_def hex_digit_range)
qed

end
