(* ===== verification/Media_Cache.thy ===== *)
theory Media_Cache
  imports Crypto
begin

text \<open>
  The disk cache of \<open>internal/bridge/mediacache.go\<close>: \<open>mediaCache\<close>, \<open>newMediaCache\<close>, \<open>Get\<close>,
  \<open>Put\<close>, \<open>evictLocked\<close>, \<open>cacheKey\<close>, \<open>mimeFromExt\<close> and \<open>extFromMime\<close>. A \<open>*list.Element\<close> is an
  allocation number with the (never mutated) entry it holds, so two elements with equal
  entries stay distinct. The directory is a map from file names to contents; a path inside it
  is the pair of the directory and the name.
\<close>

section \<open>Names\<close>

definition cacheKey :: "string \<Rightarrow> string" where
  "cacheKey mediaID = hex_encode (take 10 (sha256 (bytes_of_string mediaID)))"

definition mimeFromExt :: "string \<Rightarrow> string" where
  "mimeFromExt ext =
     (let e = strings_ToLower ext in
      if e = ''.jpg'' \<or> e = ''.jpeg'' then ''image/jpeg''
      else if e = ''.png'' then ''image/png''
      else if e = ''.webp'' then ''image/webp''
      else if e = ''.gif'' then ''image/gif''
      else ''application/octet-stream'')"

definition extFromMime :: "string \<Rightarrow> string" where
  "extFromMime mime =
     (if mime = ''image/jpeg'' then ''.jpg''
      else if mime = ''image/png'' then ''.png''
      else if mime = ''image/webp'' then ''.webp''
      else if mime = ''image/gif'' then ''.gif''
      else ''.bin'')"

text \<open>The name of a file without its extension, as \<open>newMediaCache\<close> computes a key.\<close>

definition file_stem :: "string \<Rightarrow> string" where
  "file_stem name = strings_TrimSuffix name (filepath_Ext name)"

section \<open>The disk\<close>

text \<open>
  The files of the cache directory and the names the operating system refuses to remove:
  the bridge ignores the errors of \<open>os.Remove\<close>.
\<close>

record disk =
  files :: "string \<rightharpoonup> bytes"
  stuck :: "string \<Rightarrow> bool"

definition os_Remove :: "string \<Rightarrow> disk \<Rightarrow> disk" where
  "os_Remove f d = (if stuck d f then d else d\<lparr>files := (files d)(f := None)\<rparr>)"

section \<open>State\<close>

record mcEntry =
  mc_key :: string
  mc_filename :: string
  mc_size :: i64
  mc_mime :: string

type_synonym element = "nat \<times> mcEntry"

record mediaCache =
  mc_dir :: string
  mc_maxBytes :: i64
  mc_entries :: "string \<rightharpoonup> element"
  mc_lru :: "element list"
  mc_total :: i64
  mc_fresh :: nat

text \<open>
  \<open>container/list\<close>: \<open>Remove\<close> and \<open>MoveToFront\<close> do nothing for an element that is not in the
  list; \<open>PushFront\<close> allocates a new element.
\<close>

definition list_Remove :: "element \<Rightarrow> element list \<Rightarrow> element list" where
  "list_Remove el l = remove1 el l"

definition list_MoveToFront :: "element \<Rightarrow> element list \<Rightarrow> element list" where
  "list_MoveToFront el l = (if el \<in> set l then el # remove1 el l else l)"

definition cache_PushFront :: "mcEntry \<Rightarrow> mediaCache \<Rightarrow> mediaCache" where
  "cache_PushFront e c =
     (let el = (mc_fresh c, e)
      in c\<lparr>mc_lru := el # mc_lru c, mc_fresh := Suc (mc_fresh c),
           mc_entries := (mc_entries c)(mc_key e \<mapsto> el), mc_total := mc_total c + mc_size e\<rparr>)"

section \<open>Operations\<close>

definition evictLocked :: "mediaCache \<Rightarrow> disk \<Rightarrow> bool \<times> mediaCache \<times> disk" where
  "evictLocked c d =
     (case rev (mc_lru c) of
        [] \<Rightarrow> (False, c, d)
      | el # _ \<Rightarrow>
          (let e = snd el in
           (True,
            c\<lparr>mc_lru := list_Remove el (mc_lru c),
              mc_entries := (mc_entries c)(mc_key e := None),
              mc_total := mc_total c - mc_size e\<rparr>,
            os_Remove (mc_filename e) d)))"

lemma evictLocked_shorter:
  "evictLocked c d = (True, c', d') \<Longrightarrow> length (mc_lru c') < length (mc_lru c)"
proof -
  assume ev: "evictLocked c d = (True, c', d')"
  then obtain el r where el: "rev (mc_lru c) = el # r"
    by (auto simp: evictLocked_def split: list.splits)
  then have "mc_lru c = rev r @ [el]" by (metis rev_rev_ident rev.simps(2))
  then have "el \<in> set (mc_lru c)" by simp
  moreover from ev el have "mc_lru c' = remove1 el (mc_lru c)"
    by (auto simp: evictLocked_def list_Remove_def Let_def)
  ultimately show ?thesis
    using length_pos_if_in_set [of el "mc_lru c"] by (simp add: length_remove1)
qed

lemma evictLocked_True: "mc_lru c \<noteq> [] \<Longrightarrow> fst (evictLocked c d)"
  by (cases "mc_lru c" rule: rev_cases) (simp_all add: evictLocked_def Let_def)

lemma evictLocked_shorter_nonempty:
  "(b, c', d') = evictLocked c d \<Longrightarrow> Suc 0 < length (mc_lru c) \<Longrightarrow> length (mc_lru c') < length (mc_lru c)"
proof -
  assume ev: "(b, c', d') = evictLocked c d" and "Suc 0 < length (mc_lru c)"
  then have "mc_lru c \<noteq> []" by auto
  then have "fst (evictLocked c d)" by (rule evictLocked_True)
  with ev have b by (metis fst_conv)
  with ev have "evictLocked c d = (True, c', d')" by simp
  then show ?thesis by (rule evictLocked_shorter)
qed

text \<open>The loop of \<open>Put\<close>: never evicts the last element.\<close>

function put_evict :: "mediaCache \<Rightarrow> disk \<Rightarrow> mediaCache \<times> disk" where
  "put_evict c d =
     (if sint (mc_maxBytes c) < sint (mc_total c) \<and> 1 < length (mc_lru c)
      then (case evictLocked c d of (_, c', d') \<Rightarrow> put_evict c' d')
      else (c, d))"
  by pat_completeness auto
termination
  by (relation "measure (\<lambda>(c, d). length (mc_lru c))") (auto intro: evictLocked_shorter_nonempty)

text \<open>The loop of \<open>newMediaCache\<close>: stops when there is nothing left to evict.\<close>

function new_evict :: "mediaCache \<Rightarrow> disk \<Rightarrow> mediaCache \<times> disk" where
  "new_evict c d =
     (if sint (mc_maxBytes c) < sint (mc_total c)
      then (case evictLocked c d of
              (ok, c', d') \<Rightarrow> if ok then new_evict c' d' else (c', d'))
      else (c, d))"
  by pat_completeness auto
termination
  by (relation "measure (\<lambda>(c, d). length (mc_lru c))") (auto dest: evictLocked_shorter sym)

declare put_evict.simps [simp del] new_evict.simps [simp del]

text \<open>\<open>Get\<close>: the path and type of the cached file; the entry becomes the most recent.\<close>

definition cache_Get :: "mediaCache \<Rightarrow> string \<Rightarrow> ((string \<times> string) \<times> string) option \<times> mediaCache" where
  "cache_Get c mediaID =
     (case mc_entries c (cacheKey mediaID) of
        None \<Rightarrow> (None, c)
      | Some el \<Rightarrow>
          (Some ((mc_dir c, mc_filename (snd el)), mc_mime (snd el)),
           c\<lparr>mc_lru := list_MoveToFront el (mc_lru c)\<rparr>))"

text \<open>
  What the environment does during one \<open>Put\<close>: the bytes the callback wrote, and the error,
  if any, of each step.
\<close>

record put_io =
  io_open :: "goerr option"
  io_written :: bytes
  io_fn :: "goerr option"
  io_close :: "goerr option"
  io_stat :: "goerr option"
  io_rename :: "goerr option"

text \<open>
  The first half of \<open>Put\<close>, outside the lock: write the temporary file, measure it and
  rename it. The result is the size \<open>Stat\<close> reported.
\<close>

definition put_files :: "put_io \<Rightarrow> string \<Rightarrow> disk \<Rightarrow> i64 result \<times> disk" where
  "put_files io fname d =
     (let tmp = fname @ ''.tmp'' in
      case io_open io of Some e \<Rightarrow> (Inl e, d)
      | None \<Rightarrow>
        (let d1 = d\<lparr>files := (files d)(tmp \<mapsto> io_written io)\<rparr> in
         case io_fn io of Some e \<Rightarrow> (Inl e, os_Remove tmp d1)
         | None \<Rightarrow>
           (case io_close io of Some e \<Rightarrow> (Inl e, os_Remove tmp d1)
            | None \<Rightarrow>
              (case io_stat io of Some e \<Rightarrow> (Inl e, os_Remove tmp d1)
               | None \<Rightarrow>
                 (case io_rename io of Some e \<Rightarrow> (Inl e, os_Remove tmp d1)
                  | None \<Rightarrow>
                    (Inr (word_of_nat (length (io_written io))),
                     d1\<lparr>files := (files d1)(tmp := None, fname \<mapsto> io_written io)\<rparr>))))))"

text \<open>The second half, under the lock: replace the entry of the key and evict.\<close>

definition put_replace :: "mediaCache \<Rightarrow> string \<Rightarrow> string \<Rightarrow> i64 \<Rightarrow> string \<Rightarrow> mediaCache" where
  "put_replace c key fname sz mime =
     (let c1 = (case mc_entries c key of
                  None \<Rightarrow> c
                | Some el \<Rightarrow> c\<lparr>mc_total := mc_total c - mc_size (snd el),
                               mc_lru := list_Remove el (mc_lru c)\<rparr>)
      in cache_PushFront \<lparr>mc_key = key, mc_filename = fname, mc_size = sz, mc_mime = mime\<rparr> c1)"

definition put_install :: "mediaCache \<Rightarrow> disk \<Rightarrow> string \<Rightarrow> string \<Rightarrow> i64 \<Rightarrow> string \<Rightarrow> mediaCache \<times> disk" where
  "put_install c d key fname sz mime = put_evict (put_replace c key fname sz mime) d"

definition cache_Put ::
    "mediaCache \<Rightarrow> disk \<Rightarrow> string \<Rightarrow> string \<Rightarrow> put_io \<Rightarrow> (string \<times> string) result \<times> mediaCache \<times> disk" where
  "cache_Put c d mediaID mime io =
     (let key = cacheKey mediaID; fname = key @ extFromMime mime in
      case put_files io fname d of
        (Inl e, d1) \<Rightarrow> (Inl e, c, d1)
      | (Inr sz, d1) \<Rightarrow>
          (case put_install c d1 key fname sz mime of
             (c2, d2) \<Rightarrow> (Inr (mc_dir c, fname), c2, d2)))"

section \<open>Start-up\<close>

text \<open>What \<open>os.ReadDir\<close> returns for one directory entry; \<open>Info\<close> may fail.\<close>

record dirent =
  de_name :: string
  de_isDir :: bool
  de_info :: "i64 result"

definition empty_cache :: "string \<Rightarrow> i64 \<Rightarrow> mediaCache" where
  "empty_cache dir maxBytes =
     \<lparr>mc_dir = dir, mc_maxBytes = maxBytes, mc_entries = Map.empty, mc_lru = [],
      mc_total = 0, mc_fresh = 0\<rparr>"

fun scan_dir :: "dirent list \<Rightarrow> mediaCache \<Rightarrow> disk \<Rightarrow> mediaCache \<times> disk" where
  "scan_dir [] c d = (c, d)"
| "scan_dir (e # es) c d =
     (let name = de_name e in
      if de_isDir e then scan_dir es c d
      else if strings_HasSuffix name ''.tmp'' then scan_dir es c (os_Remove name d)
      else case de_info e of
        Inl _ \<Rightarrow> scan_dir es c d
      | Inr sz \<Rightarrow>
          scan_dir es
            (cache_PushFront \<lparr>mc_key = file_stem name, mc_filename = name, mc_size = sz,
                              mc_mime = mimeFromExt (filepath_Ext name)\<rparr> c) d)"

definition newMediaCache ::
    "string \<Rightarrow> i64 \<Rightarrow> goerr option \<Rightarrow> dirent list result \<Rightarrow> disk \<Rightarrow> (mediaCache \<times> disk) result" where
  "newMediaCache dir maxBytes mkdir_err listing d =
     (case mkdir_err of Some e \<Rightarrow> Inl e
      | None \<Rightarrow>
        (case listing of Inl e \<Rightarrow> Inl e
         | Inr es \<Rightarrow>
             (case scan_dir es (empty_cache dir maxBytes) d of
                (c, d1) \<Rightarrow> Inr (new_evict c d1))))"

section \<open>The index and the list agree\<close>

definition entry_bytes :: "mcEntry list \<Rightarrow> i64" where
  "entry_bytes es = sum_list (map mc_size es)"

definition cache_list :: "mediaCache \<Rightarrow> mcEntry list" where
  "cache_list c = map snd (mc_lru c)"

text \<open>
  \<open>cache_inv\<close>: elements are distinct, every index entry points to a list element of its key
  and the running total is the sum of the sizes. \<open>cache_indexed\<close>: every list element is the
  one its key points to, so no two elements have the same key.
\<close>

definition cache_inv :: "mediaCache \<Rightarrow> bool" where
  "cache_inv c \<longleftrightarrow>
     distinct (map fst (mc_lru c)) \<and> (\<forall>el \<in> set (mc_lru c). fst el < mc_fresh c)
   \<and> (\<forall>k el. mc_entries c k = Some el \<longrightarrow> el \<in> set (mc_lru c) \<and> mc_key (snd el) = k)
   \<and> mc_total c = entry_bytes (cache_list c)"

definition cache_indexed :: "mediaCache \<Rightarrow> bool" where
  "cache_indexed c \<longleftrightarrow> (\<forall>el \<in> set (mc_lru c). mc_entries c (mc_key (snd el)) = Some el)"

lemma cache_inv_distinct: "cache_inv c \<Longrightarrow> distinct (mc_lru c)"
  by (simp add: cache_inv_def distinct_map)

lemma cache_indexed_keys:
  assumes "cache_inv c" and "cache_indexed c"
  shows "distinct (map mc_key (cache_list c))"
proof -
  have "inj_on (\<lambda>el. mc_key (snd el)) (set (mc_lru c))"
    using assms(2) by (auto simp: cache_indexed_def inj_on_def) (metis option.inject prod.inject snd_conv)+
  with cache_inv_distinct [OF assms(1)] show ?thesis
    by (simp add: cache_list_def distinct_map comp_def)
qed

lemma entry_bytes_simps [simp]:
  "entry_bytes [] = 0" "entry_bytes (e # es) = mc_size e + entry_bytes es"
  "entry_bytes (es @ fs) = entry_bytes es + entry_bytes fs"
  by (simp_all add: entry_bytes_def)

lemma evict_snoc:
  assumes "cache_inv c" and "mc_lru c = ys @ [el]"
  shows "evictLocked c d =
    (True, c\<lparr>mc_lru := ys, mc_entries := (mc_entries c)(mc_key (snd el) := None),
             mc_total := mc_total c - mc_size (snd el)\<rparr>, os_Remove (mc_filename (snd el)) d)"
proof -
  have "el \<notin> set ys" using cache_inv_distinct [OF assms(1)] assms(2) by simp
  then show ?thesis
    by (simp add: evictLocked_def assms(2) list_Remove_def remove1_append Let_def)
qed

lemma evict_inv: "cache_inv c \<Longrightarrow> evictLocked c d = (b, c', d') \<Longrightarrow> cache_inv c'"
proof (cases "mc_lru c" rule: rev_cases)
  case Nil
  then show "cache_inv c \<Longrightarrow> evictLocked c d = (b, c', d') \<Longrightarrow> cache_inv c'"
    by (simp add: evictLocked_def)
next
  case (snoc ys el)
  assume inv: "cache_inv c" and ev: "evictLocked c d = (b, c', d')"
  from inv have ent: "\<And>k x. mc_entries c k = Some x \<Longrightarrow> x \<in> set (ys @ [el]) \<and> mc_key (snd x) = k"
    unfolding cache_inv_def snoc by blast
  from ev evict_snoc [OF inv snoc, of d]
  have c': "c' = c\<lparr>mc_lru := ys, mc_entries := (mc_entries c)(mc_key (snd el) := None),
             mc_total := mc_total c - mc_size (snd el)\<rparr>" by simp
  have "x \<in> set ys \<and> mc_key (snd x) = k" if "mc_entries c' k = Some x" for k x
    using ent [of k x] that by (auto simp: c' split: if_splits)
  moreover have "mc_total c' = entry_bytes (cache_list c')"
    using inv by (simp add: cache_inv_def cache_list_def snoc c')
  moreover have "distinct (map fst (mc_lru c'))" "\<forall>x \<in> set (mc_lru c'). fst x < mc_fresh c'"
    using inv by (simp_all add: cache_inv_def c' snoc)
  moreover have "mc_lru c' = ys" by (simp add: c')
  ultimately show "cache_inv c'" unfolding cache_inv_def by blast
qed

lemma evict_indexed:
  "cache_inv c \<Longrightarrow> cache_indexed c \<Longrightarrow> evictLocked c d = (b, c', d') \<Longrightarrow> cache_indexed c'"
proof (cases "mc_lru c" rule: rev_cases)
  case Nil
  then show "cache_indexed c \<Longrightarrow> evictLocked c d = (b, c', d') \<Longrightarrow> cache_indexed c'"
    by (simp add: evictLocked_def)
next
  case (snoc ys el)
  assume inv: "cache_inv c" and ind: "cache_indexed c" and ev: "evictLocked c d = (b, c', d')"
  have "distinct (map mc_key (cache_list c))" using inv ind by (rule cache_indexed_keys)
  then have "x \<in> set ys \<Longrightarrow> mc_key (snd x) \<noteq> mc_key (snd el)" for x
    by (auto simp: cache_list_def snoc image_iff)
  moreover from ev evict_snoc [OF inv snoc, of d]
  have "c' = c\<lparr>mc_lru := ys, mc_entries := (mc_entries c)(mc_key (snd el) := None),
             mc_total := mc_total c - mc_size (snd el)\<rparr>" by simp
  ultimately show "cache_indexed c'"
    using ind by (simp add: cache_indexed_def snoc)
qed

lemma evict_frame:
  "evictLocked c d = (b, c', d') \<Longrightarrow>
   mc_maxBytes c' = mc_maxBytes c \<and> mc_dir c' = mc_dir c \<and> mc_fresh c' = mc_fresh c
   \<and> (b \<longleftrightarrow> mc_lru c \<noteq> []) \<and> (mc_lru c = [] \<longrightarrow> c' = c \<and> d' = d)"
  by (auto simp: evictLocked_def Let_def split: list.splits)

subsection \<open>The two loops\<close>

lemma put_evict_stop:
  "\<not> (sint (mc_maxBytes c) < sint (mc_total c) \<and> 1 < length (mc_lru c)) \<Longrightarrow> put_evict c d = (c, d)"
  by (subst put_evict.simps) auto

lemma put_evict_step:
  "sint (mc_maxBytes c) < sint (mc_total c) \<and> 1 < length (mc_lru c) \<Longrightarrow>
   evictLocked c d = (b, c1, d1) \<Longrightarrow> put_evict c d = put_evict c1 d1"
  by (subst put_evict.simps) simp

lemma new_evict_stop: "\<not> sint (mc_maxBytes c) < sint (mc_total c) \<Longrightarrow> new_evict c d = (c, d)"
  by (subst new_evict.simps) simp

lemma new_evict_step:
  "sint (mc_maxBytes c) < sint (mc_total c) \<Longrightarrow> evictLocked c d = (b, c1, d1) \<Longrightarrow>
   new_evict c d = (if b then new_evict c1 d1 else (c1, d1))"
  by (subst new_evict.simps) simp

text \<open>What one eviction keeps, the loops keep.\<close>

lemma put_evict_keeps:
  assumes step: "\<And>c d b c' d'. P c d \<Longrightarrow> 1 < length (mc_lru c) \<Longrightarrow> evictLocked c d = (b, c', d') \<Longrightarrow> P c' d'"
  shows "P c d \<Longrightarrow> put_evict c d = (c', d') \<Longrightarrow> P c' d'"
proof (induction c d arbitrary: c' d' rule: put_evict.induct)
  case (1 c d)
  show ?case
  proof (cases "sint (mc_maxBytes c) < sint (mc_total c) \<and> 1 < length (mc_lru c)")
    case True
    obtain b c1 d1 where ev: "evictLocked c d = (b, c1, d1)" by (cases "evictLocked c d") auto
    have "P c1 d1" using "1.prems"(1) True ev step by blast
    moreover have "put_evict c1 d1 = (c', d')"
      using put_evict_step [OF True ev] "1.prems"(2) by simp
    ultimately show ?thesis using "1.IH" [OF True ev [symmetric] refl] by simp
  next
    case False
    with "1.prems" put_evict_stop [OF False] show ?thesis by simp
  qed
qed

lemma new_evict_keeps:
  assumes step: "\<And>c d b c' d'. P c d \<Longrightarrow> evictLocked c d = (b, c', d') \<Longrightarrow> P c' d'"
  shows "P c d \<Longrightarrow> new_evict c d = (c', d') \<Longrightarrow> P c' d'"
proof (induction c d arbitrary: c' d' rule: new_evict.induct)
  case (1 c d)
  show ?case
  proof (cases "sint (mc_maxBytes c) < sint (mc_total c)")
    case True
    obtain b c1 d1 where ev: "evictLocked c d = (b, c1, d1)" by (cases "evictLocked c d") auto
    have "P c1 d1" using "1.prems"(1) ev step by blast
    then show ?thesis
      using "1.IH" [OF True ev [symmetric] refl] new_evict_step [OF True ev] "1.prems"(2)
      by (cases b) simp_all
  next
    case False
    with "1.prems" new_evict_stop [OF False] show ?thesis by simp
  qed
qed

lemma put_evict_inv: "cache_inv c \<Longrightarrow> put_evict c d = (c', d') \<Longrightarrow> cache_inv c'"
  by (rule put_evict_keeps [where P = "\<lambda>c d. cache_inv c"]) (auto intro: evict_inv)

lemma put_evict_indexed:
  "cache_inv c \<and> cache_indexed c \<Longrightarrow> put_evict c d = (c', d') \<Longrightarrow> cache_inv c' \<and> cache_indexed c'"
  by (rule put_evict_keeps [where P = "\<lambda>c d. cache_inv c \<and> cache_indexed c"])
    (auto intro: evict_inv evict_indexed)

lemma new_evict_inv: "cache_inv c \<Longrightarrow> new_evict c d = (c', d') \<Longrightarrow> cache_inv c'"
  by (rule new_evict_keeps [where P = "\<lambda>c d. cache_inv c"]) (auto intro: evict_inv)

lemma new_evict_indexed:
  "cache_inv c \<and> cache_indexed c \<Longrightarrow> new_evict c d = (c', d') \<Longrightarrow> cache_inv c' \<and> cache_indexed c'"
  by (rule new_evict_keeps [where P = "\<lambda>c d. cache_inv c \<and> cache_indexed c"])
    (auto intro: evict_inv evict_indexed)

lemma put_evict_frame:
  assumes "put_evict c d = (c', d')"
  shows "mc_maxBytes c' = mc_maxBytes c \<and> mc_dir c' = mc_dir c \<and> mc_fresh c' = mc_fresh c"
  by (rule put_evict_keeps [where P = "\<lambda>x d. mc_maxBytes x = mc_maxBytes c \<and> mc_dir x = mc_dir c
        \<and> mc_fresh x = mc_fresh c", OF _ _ assms]) (auto dest: evict_frame)

lemma new_evict_frame:
  assumes "new_evict c d = (c', d')"
  shows "mc_maxBytes c' = mc_maxBytes c \<and> mc_dir c' = mc_dir c \<and> mc_fresh c' = mc_fresh c"
  by (rule new_evict_keeps [where P = "\<lambda>x d. mc_maxBytes x = mc_maxBytes c \<and> mc_dir x = mc_dir c
        \<and> mc_fresh x = mc_fresh c", OF _ _ assms]) (auto dest: evict_frame)

text \<open>The state each loop stops in.\<close>

lemma put_evict_bound:
  "put_evict c d = (c', d') \<Longrightarrow>
   sint (mc_total c') \<le> sint (mc_maxBytes c') \<or> length (mc_lru c') \<le> 1"
proof (induction c d arbitrary: c' d' rule: put_evict.induct)
  case (1 c d)
  show ?case
  proof (cases "sint (mc_maxBytes c) < sint (mc_total c) \<and> 1 < length (mc_lru c)")
    case True
    obtain b c1 d1 where ev: "evictLocked c d = (b, c1, d1)" by (cases "evictLocked c d") auto
    have "put_evict c1 d1 = (c', d')" using put_evict_step [OF True ev] "1.prems" by simp
    then show ?thesis by (rule "1.IH" [OF True ev [symmetric] refl])
  next
    case False
    with "1.prems" put_evict_stop [OF False] show ?thesis by auto
  qed
qed

lemma new_evict_bound:
  "new_evict c d = (c', d') \<Longrightarrow>
   sint (mc_total c') \<le> sint (mc_maxBytes c') \<or> mc_lru c' = []"
proof (induction c d arbitrary: c' d' rule: new_evict.induct)
  case (1 c d)
  show ?case
  proof (cases "sint (mc_maxBytes c) < sint (mc_total c)")
    case True
    obtain b c1 d1 where ev: "evictLocked c d = (b, c1, d1)" by (cases "evictLocked c d") auto
    show ?thesis
    proof (cases b)
      case b: True
      then have "new_evict c1 d1 = (c', d')" using new_evict_step [OF True ev] "1.prems" by simp
      then show ?thesis by (rule "1.IH" [OF True ev [symmetric] refl b])
    next
      case False
      then show ?thesis using new_evict_step [OF True ev] "1.prems" evict_frame [OF ev] by simp
    qed
  next
    case False
    with "1.prems" new_evict_stop [OF False] show ?thesis by auto
  qed
qed

subsection \<open>Inserting and touching\<close>

lemma PushFront_inv:
  assumes "distinct (map fst (mc_lru c))" and "\<And>el. el \<in> set (mc_lru c) \<Longrightarrow> fst el < mc_fresh c"
    and "\<And>k el. mc_entries c k = Some el \<Longrightarrow> k \<noteq> mc_key e \<Longrightarrow> el \<in> set (mc_lru c) \<and> mc_key (snd el) = k"
    and "mc_total c = entry_bytes (cache_list c)"
  shows "cache_inv (cache_PushFront e c)"
proof -
  let ?c = "cache_PushFront e c"
  have "mc_fresh c \<notin> fst ` set (mc_lru c)" using assms(2) by (metis imageE less_irrefl)
  then have "distinct (map fst (mc_lru ?c))" using assms(1) by (simp add: cache_PushFront_def Let_def)
  moreover have "\<forall>el \<in> set (mc_lru ?c). fst el < mc_fresh ?c"
    using assms(2) by (auto simp: cache_PushFront_def Let_def less_Suc_eq)
  moreover have "el \<in> set (mc_lru ?c) \<and> mc_key (snd el) = k" if "mc_entries ?c k = Some el" for k el
    using that assms(3) [of k el] by (auto simp: cache_PushFront_def Let_def split: if_splits)
  moreover have "mc_total ?c = entry_bytes (cache_list ?c)"
    using assms(4) by (simp add: cache_PushFront_def Let_def cache_list_def)
  ultimately show ?thesis unfolding cache_inv_def by blast
qed

text \<open>The list without the element the key points to, and with it in front.\<close>

definition without_key :: "mediaCache \<Rightarrow> string \<Rightarrow> element list" where
  "without_key c key = (case mc_entries c key of None \<Rightarrow> mc_lru c | Some el \<Rightarrow> remove1 el (mc_lru c))"

lemma put_replace_fields:
  "mc_lru (put_replace c key fname sz mime) =
     (mc_fresh c, \<lparr>mc_key = key, mc_filename = fname, mc_size = sz, mc_mime = mime\<rparr>) # without_key c key"
  "mc_maxBytes (put_replace c key fname sz mime) = mc_maxBytes c"
  "mc_dir (put_replace c key fname sz mime) = mc_dir c"
  "mc_entries (put_replace c key fname sz mime) = (mc_entries c)(key \<mapsto>
     (mc_fresh c, \<lparr>mc_key = key, mc_filename = fname, mc_size = sz, mc_mime = mime\<rparr>))"
  by (simp_all add: put_replace_def cache_PushFront_def without_key_def list_Remove_def Let_def
      split: option.splits)

lemma remove1_split:
  assumes "distinct l" and "x \<in> set l"
  obtains xs ys where "l = xs @ x # ys" "remove1 x l = xs @ ys" "x \<notin> set xs" "x \<notin> set ys"
proof -
  from split_list [OF assms(2)] obtain xs ys where l: "l = xs @ x # ys" by blast
  with assms(1) have "x \<notin> set xs" "x \<notin> set ys" by auto
  with l show ?thesis using that by (simp add: remove1_append)
qed

lemma put_replace_inv: "cache_inv c \<Longrightarrow> cache_inv (put_replace c key fname sz mime)"
proof (cases "mc_entries c key")
  case None
  assume inv: "cache_inv c"
  then show ?thesis unfolding put_replace_def None Let_def option.case
    by (intro PushFront_inv) (auto simp: cache_inv_def)
next
  case (Some el)
  assume inv: "cache_inv c"
  then have el: "el \<in> set (mc_lru c)" "mc_key (snd el) = key"
    using Some unfolding cache_inv_def by blast+
  obtain xs ys where l: "mc_lru c = xs @ el # ys" "remove1 el (mc_lru c) = xs @ ys"
    using cache_inv_distinct [OF inv] el(1) by (rule remove1_split)
  have ent: "x \<in> set (mc_lru c) \<and> mc_key (snd x) = k" if "mc_entries c k = Some x" for k x
    using inv that unfolding cache_inv_def by blast
  have fresh: "\<And>x. x \<in> set (mc_lru c) \<Longrightarrow> fst x < mc_fresh c"
    and tot: "mc_total c = entry_bytes (map snd (mc_lru c))" and dis: "distinct (map fst (mc_lru c))"
    using inv unfolding cache_inv_def cache_list_def by blast+
  let ?c1 = "c\<lparr>mc_total := mc_total c - mc_size (snd el), mc_lru := list_Remove el (mc_lru c)\<rparr>"
  have lru1: "mc_lru ?c1 = xs @ ys" using l(2) by (simp add: list_Remove_def)
  show ?thesis unfolding put_replace_def Some Let_def option.case
  proof (rule PushFront_inv)
    show "distinct (map fst (mc_lru ?c1))" unfolding lru1 using dis l(1) by auto
    show "fst x < mc_fresh ?c1" if "x \<in> set (mc_lru ?c1)" for x
      using that fresh [of x] l(1) unfolding lru1 by auto
    show "x \<in> set (mc_lru ?c1) \<and> mc_key (snd x) = k"
      if "mc_entries ?c1 k = Some x" and "k \<noteq> mc_key \<lparr>mc_key = key, mc_filename = fname, mc_size = sz, mc_mime = mime\<rparr>" for k x
      using that ent [of k x] el(2) l(1) unfolding lru1 by auto
    show "mc_total ?c1 = entry_bytes (cache_list ?c1)"
      using tot l(1) unfolding cache_list_def lru1 by simp
  qed
qed

text \<open>With one element per key, dropping the element is dropping the key.\<close>

lemma without_key_set: "cache_inv c \<Longrightarrow> set (without_key c key) \<subseteq> set (mc_lru c)"
  using set_remove1_subset unfolding without_key_def by (fastforce split: option.splits)

lemma without_key_filter:
  assumes "cache_inv c" and "cache_indexed c"
  shows "without_key c key = filter (\<lambda>el. mc_key (snd el) \<noteq> key) (mc_lru c)"
proof (cases "mc_entries c key")
  case None
  have "mc_key (snd el) \<noteq> key" if "el \<in> set (mc_lru c)" for el
    using assms(2) that None unfolding cache_indexed_def by auto
  with None show ?thesis by (simp add: without_key_def filter_id_conv)
next
  case (Some el)
  have el: "el \<in> set (mc_lru c)" "mc_key (snd el) = key"
    using Some assms(1) unfolding cache_inv_def by blast+
  have other: "x = el" if "x \<in> set (mc_lru c)" "mc_key (snd x) = key" for x
    using assms(2) that Some unfolding cache_indexed_def by force
  have "remove1 el (mc_lru c) = filter (\<lambda>x. x \<noteq> el) (mc_lru c)"
    using cache_inv_distinct [OF assms(1)]
    by (auto simp: distinct_remove1_removeAll removeAll_filter_not_eq intro: filter_cong)
  also have "\<dots> = filter (\<lambda>x. mc_key (snd x) \<noteq> key) (mc_lru c)"
    by (rule filter_cong) (use el(2) other in auto)
  finally show ?thesis using Some by (simp add: without_key_def)
qed

lemma put_replace_indexed:
  assumes "cache_inv c" and "cache_indexed c"
  shows "cache_indexed (put_replace c key fname sz mime)"
  using assms(2)
  by (auto simp: cache_indexed_def put_replace_fields without_key_filter [OF assms])

lemma Get_inv:
  assumes inv: "cache_inv c" and get: "cache_Get c mediaID = (r, c')"
  shows "cache_inv c' \<and> (cache_indexed c \<longrightarrow> cache_indexed c')"
proof (cases "mc_entries c (cacheKey mediaID)")
  case None
  with assms show ?thesis by (simp add: cache_Get_def)
next
  case (Some el)
  then have el: "el \<in> set (mc_lru c)" using inv unfolding cache_inv_def by blast
  obtain xs ys where l: "mc_lru c = xs @ el # ys" "remove1 el (mc_lru c) = xs @ ys"
    using cache_inv_distinct [OF inv] el by (rule remove1_split)
  have c': "c' = c\<lparr>mc_lru := el # xs @ ys\<rparr>"
    using get Some el l(2) by (simp add: cache_Get_def list_MoveToFront_def)
  have same: "set (mc_lru c') = set (mc_lru c)" unfolding c' l(1) by auto
  have "distinct (map fst (mc_lru c'))" using inv unfolding cache_inv_def c' l(1) by auto
  moreover have "entry_bytes (cache_list c') = entry_bytes (cache_list c)"
    unfolding cache_list_def c' l(1) by simp
  ultimately have "cache_inv c'"
    using inv unfolding cache_inv_def same by (simp add: c')
  moreover have "cache_indexed c \<longrightarrow> cache_indexed c'"
    unfolding cache_indexed_def same by (simp add: c')
  ultimately show ?thesis by blast
qed

subsection \<open>Start-up\<close>

lemma empty_cache_inv: "cache_inv (empty_cache dir m)" "cache_indexed (empty_cache dir m)"
  by (simp_all add: cache_inv_def cache_indexed_def empty_cache_def cache_list_def)

lemma PushFront_keeps_inv: "cache_inv c \<Longrightarrow> cache_inv (cache_PushFront e c)"
  by (rule PushFront_inv) (auto simp: cache_inv_def)

lemma PushFront_indexed:
  assumes "cache_indexed c" and "\<And>el. el \<in> set (mc_lru c) \<Longrightarrow> mc_key (snd el) \<noteq> mc_key e"
  shows "cache_indexed (cache_PushFront e c)"
  using assms unfolding cache_indexed_def cache_PushFront_def Let_def by simp

text \<open>The names of the files the scan takes over.\<close>

fun accepted_names :: "dirent list \<Rightarrow> string list" where
  "accepted_names [] = []"
| "accepted_names (e # es) =
     (if de_isDir e \<or> strings_HasSuffix (de_name e) ''.tmp'' \<or> \<not> is_ok (de_info e)
      then accepted_names es else de_name e # accepted_names es)"

lemma scan_dir_inv: "cache_inv c \<Longrightarrow> scan_dir es c d = (c', d') \<Longrightarrow> cache_inv c'"
  by (induction es c d rule: scan_dir.induct)
    (auto simp: Let_def intro: PushFront_keeps_inv split: if_splits sum.splits)

lemma scan_dir_indexed:
  "cache_indexed c \<Longrightarrow> distinct (map file_stem (accepted_names es)) \<Longrightarrow>
   (\<forall>el \<in> set (mc_lru c). mc_key (snd el) \<notin> file_stem ` set (accepted_names es)) \<Longrightarrow>
   scan_dir es c d = (c', d') \<Longrightarrow> cache_indexed c'"
proof (induction es arbitrary: c d)
  case Nil
  then show ?case by simp
next
  case (Cons e es)
  show ?case
  proof (cases "de_isDir e \<or> strings_HasSuffix (de_name e) ''.tmp'' \<or> \<not> is_ok (de_info e)")
    case True
    with Cons.prems obtain d1 where "scan_dir es c d1 = (c', d')"
      by (auto simp: Let_def is_ok_def split: if_splits sum.splits)
    with True Cons.prems(1,2,3) Cons.IH show ?thesis by simp
  next
    case False
    then obtain sz where sz: "de_info e = Inr sz" by (auto simp: is_ok_def split: sum.splits)
    let ?e = "\<lparr>mc_key = file_stem (de_name e), mc_filename = de_name e, mc_size = sz,
                mc_mime = mimeFromExt (filepath_Ext (de_name e))\<rparr>"
    from False sz Cons.prems(4) have run: "scan_dir es (cache_PushFront ?e c) d = (c', d')"
      by (simp add: Let_def)
    have "cache_indexed (cache_PushFront ?e c)"
      using Cons.prems(1,3) False by (intro PushFront_indexed) auto
    moreover have "\<forall>el \<in> set (mc_lru (cache_PushFront ?e c)).
        mc_key (snd el) \<notin> file_stem ` set (accepted_names es)"
      using Cons.prems(2,3) False by (auto simp: cache_PushFront_def Let_def)
    ultimately show ?thesis using run Cons.prems(2) False Cons.IH by simp
  qed
qed

lemma newMediaCache_inv:
  assumes "newMediaCache dir m me listing d = Inr (c, d')"
  shows "cache_inv c" and "mc_maxBytes c = m" and "mc_dir c = dir"
    and "sint (mc_total c) \<le> sint m \<or> mc_lru c = []"
proof -
  obtain es c1 d1 where l: "listing = Inr es" "scan_dir es (empty_cache dir m) d = (c1, d1)"
    "new_evict c1 d1 = (c, d')"
    using assms by (auto simp: newMediaCache_def split: option.splits sum.splits prod.splits)
  have fields: "mc_maxBytes c1 = mc_maxBytes c0 \<and> mc_dir c1 = mc_dir c0"
    if "scan_dir es c0 d = (c1, d1)" for c0
    using that by (induction es c0 d rule: scan_dir.induct)
      (auto simp: Let_def cache_PushFront_def split: if_splits sum.splits)
  have inv1: "cache_inv c1" using empty_cache_inv(1) l(2) by (rule scan_dir_inv)
  show "cache_inv c" using inv1 l(3) by (rule new_evict_inv)
  show max: "mc_maxBytes c = m" and "mc_dir c = dir"
    using fields [OF l(2)] new_evict_frame [OF l(3)] by (simp_all add: empty_cache_def)
  show "sint (mc_total c) \<le> sint m \<or> mc_lru c = []"
    using new_evict_bound [OF l(3)] max by simp
qed

lemma newMediaCache_indexed:
  assumes "newMediaCache dir m me (Inr es) d = Inr (c, d')"
    and "distinct (map file_stem (accepted_names es))"
  shows "cache_indexed c"
proof -
  obtain c1 d1 where l: "scan_dir es (empty_cache dir m) d = (c1, d1)" "new_evict c1 d1 = (c, d')"
    using assms by (auto simp: newMediaCache_def split: option.splits sum.splits prod.splits)
  have "cache_inv c1" using empty_cache_inv(1) l(1) by (rule scan_dir_inv)
  moreover have "cache_indexed c1"
    by (rule scan_dir_indexed [OF empty_cache_inv(2) assms(2) _ l(1)]) (simp add: empty_cache_def)
  ultimately show ?thesis using l(2) put_evict_indexed new_evict_indexed by blast
qed

section \<open>Least-recently-used order\<close>

text \<open>
  The loop of \<open>Put\<close> keeps the longest non-empty front part of the list that fits: the part
  kept fits or is a single entry, and every longer part exceeds the limit.
\<close>

definition lru_cut :: "i64 \<Rightarrow> mcEntry list \<Rightarrow> nat \<Rightarrow> bool" where
  "lru_cut m es n \<longleftrightarrow>
     1 \<le> n \<and> n \<le> length es
   \<and> (sint (entry_bytes (take n es)) \<le> sint m \<or> n = 1)
   \<and> (\<forall>j. n < j \<and> j \<le> length es \<longrightarrow> sint m < sint (entry_bytes (take j es)))"

lemma put_evict_cut:
  "cache_inv c \<Longrightarrow> mc_lru c \<noteq> [] \<Longrightarrow> put_evict c d = (c', d') \<Longrightarrow>
   \<exists>n. lru_cut (mc_maxBytes c) (cache_list c) n \<and> mc_lru c' = take n (mc_lru c)"
proof (induction c d arbitrary: c' d' rule: put_evict.induct)
  case (1 c d)
  have tot: "mc_total c = entry_bytes (cache_list c)" using "1.prems"(1) unfolding cache_inv_def by blast
  show ?case
  proof (cases "sint (mc_maxBytes c) < sint (mc_total c) \<and> 1 < length (mc_lru c)")
    case True
    then obtain ys el where snoc: "mc_lru c = ys @ [el]" and ys: "ys \<noteq> []"
      by (cases "mc_lru c" rule: rev_cases) auto
    obtain b c1 d1 where ev: "evictLocked c d = (b, c1, d1)" by (cases "evictLocked c d") auto
    with evict_snoc [OF "1.prems"(1) snoc, of d] have c1: "mc_lru c1 = ys" by auto
    have "put_evict c1 d1 = (c', d')" using put_evict_step [OF True ev] "1.prems"(3) by simp
    then obtain n where n: "lru_cut (mc_maxBytes c1) (cache_list c1) n" "mc_lru c' = take n ys"
      using "1.IH" [OF True ev [symmetric] refl evict_inv [OF "1.prems"(1) ev]] c1 ys by blast
    have cl: "cache_list c = cache_list c1 @ [snd el]" by (simp add: cache_list_def snoc c1)
    have le: "n \<le> length ys" using n(1) c1 by (simp add: lru_cut_def cache_list_def)
    have "lru_cut (mc_maxBytes c) (cache_list c) n"
      unfolding lru_cut_def
    proof (intro conjI allI impI)
      fix j assume j: "n < j \<and> j \<le> length (cache_list c)"
      show "sint (mc_maxBytes c) < sint (entry_bytes (take j (cache_list c)))"
      proof (cases "j = length (cache_list c)")
        case True2: True
        then show ?thesis using True tot by simp
      next
        case False
        with j cl have "j \<le> length (cache_list c1)" by simp
        with n(1) j evict_frame [OF ev] show ?thesis by (simp add: lru_cut_def cl)
      qed
    qed (use n(1) evict_frame [OF ev] cl le in \<open>auto simp: lru_cut_def\<close>)
    moreover have "mc_lru c' = take n (mc_lru c)" using n(2) le by (simp add: snoc)
    ultimately show ?thesis by blast
  next
    case False
    have "Suc 0 \<le> length (mc_lru c)" using "1.prems"(2) by (simp add: Suc_le_eq)
    then have "lru_cut (mc_maxBytes c) (cache_list c) (length (mc_lru c))"
      using False tot by (auto simp: lru_cut_def cache_list_def not_less less_Suc_eq)
    with "1.prems"(3) put_evict_stop [OF False] show ?thesis by auto
  qed
qed

section \<open>The index and the disk agree\<close>

text \<open>
  Every list element has its file, of the recorded size, under the name its key is the stem
  of, and no temporary file is an entry.
\<close>

definition entry_on_disk :: "disk \<Rightarrow> mcEntry \<Rightarrow> bool" where
  "entry_on_disk d e \<longleftrightarrow>
     (\<exists>b. files d (mc_filename e) = Some b \<and> mc_size e = word_of_nat (length b))
   \<and> mc_key e = file_stem (mc_filename e) \<and> \<not> strings_HasSuffix (mc_filename e) ''.tmp''"

definition files_ok :: "mediaCache \<Rightarrow> disk \<Rightarrow> bool" where
  "files_ok c d \<longleftrightarrow> (\<forall>e \<in> set (cache_list c). entry_on_disk d e)"

lemma entry_on_disk_cong:
  "files d' (mc_filename e) = files d (mc_filename e) \<Longrightarrow> entry_on_disk d e \<Longrightarrow> entry_on_disk d' e"
  by (simp add: entry_on_disk_def)

lemma extFromMime_dot: "\<exists>e. extFromMime mime = CHR ''.'' # e \<and> CHR ''.'' \<notin> set e \<and> CHR ''/'' \<notin> set e"
  by (simp add: extFromMime_def)

lemma extFromMime_cases:
  "extFromMime mime \<in> {''.jpg'', ''.png'', ''.webp'', ''.gif'', ''.bin''}"
  by (simp add: extFromMime_def)

lemma file_stem_put [simp]: "file_stem (cacheKey mediaID @ extFromMime mime) = cacheKey mediaID"
proof -
  obtain e where e: "extFromMime mime = CHR ''.'' # e" "CHR ''.'' \<notin> set e" "CHR ''/'' \<notin> set e"
    using extFromMime_dot by blast
  then have "filepath_Ext (cacheKey mediaID @ extFromMime mime) = extFromMime mime"
    by (simp add: filepath_Ext_append)
  then show ?thesis by (simp add: file_stem_def)
qed

lemma put_name_no_tmp: "\<not> strings_HasSuffix (k @ extFromMime mime) ''.tmp''"
  using extFromMime_cases [of mime] by (auto simp: strings_HasSuffix_def)

text \<open>Which files the loop of \<open>Put\<close> removes: those of the entries it drops.\<close>

lemma put_evict_files:
  assumes inv: "cache_inv c" and run: "put_evict c d = (c', d')"
  shows "\<exists>zs. mc_lru c = mc_lru c' @ zs \<and> stuck d' = stuck d
    \<and> (\<forall>f. files d' f = (if f \<in> mc_filename ` snd ` set zs \<and> \<not> stuck d f then None else files d f))"
proof -
  let ?P = "\<lambda>x y. cache_inv x \<and> (\<exists>zs. mc_lru c = mc_lru x @ zs \<and> stuck y = stuck d
    \<and> (\<forall>f. files y f = (if f \<in> mc_filename ` snd ` set zs \<and> \<not> stuck d f then None else files d f)))"
  have "?P c' d'"
  proof (rule put_evict_keeps [where P = ?P, OF _ _ run])
    show "?P c d" using inv by (intro conjI exI [of _ "[]"]) simp_all
    fix x y b x' y' assume P: "?P x y" and l: "1 < length (mc_lru x)" and ev: "evictLocked x y = (b, x', y')"
    obtain ys el where snoc: "mc_lru x = ys @ [el]" using l by (cases "mc_lru x" rule: rev_cases) auto
    from ev evict_snoc [OF conjunct1 [OF P] snoc, of y]
    have x': "mc_lru x' = ys" "y' = os_Remove (mc_filename (snd el)) y" by auto
    from P obtain zs where zs: "mc_lru c = mc_lru x @ zs" "stuck y = stuck d"
      "\<And>f. files y f = (if f \<in> mc_filename ` snd ` set zs \<and> \<not> stuck d f then None else files d f)" by blast
    have "mc_lru c = mc_lru x' @ (el # zs)" using zs(1) snoc x' by simp
    moreover have "stuck y' = stuck d" using zs(2) x'(2) by (simp add: os_Remove_def)
    moreover have "files y' f = (if f \<in> mc_filename ` snd ` set (el # zs) \<and> \<not> stuck d f then None else files d f)" for f
      using zs(2,3) x'(2) by (auto simp: os_Remove_def)
    ultimately show "?P x' y'" using evict_inv [OF conjunct1 [OF P] ev] by blast
  qed
  then show ?thesis by blast
qed

lemma put_evict_files_ok:
  assumes inv: "cache_inv c" and ind: "cache_indexed c" and ok: "files_ok c d"
    and run: "put_evict c d = (c', d')"
  shows "files_ok c' d' \<and> (\<forall>e \<in> set (cache_list c'). files d' (mc_filename e) = files d (mc_filename e))"
proof -
  obtain zs where zs: "mc_lru c = mc_lru c' @ zs"
    "\<And>f. files d' f = (if f \<in> mc_filename ` snd ` set zs \<and> \<not> stuck d f then None else files d f)"
    using put_evict_files [OF inv run] by blast
  have cl: "cache_list c = cache_list c' @ map snd zs" using zs(1) by (simp add: cache_list_def)
  have dis: "distinct (map mc_key (cache_list c))" using inv ind by (rule cache_indexed_keys)
  have keep: "files d' (mc_filename e) = files d (mc_filename e)" if e: "e \<in> set (cache_list c')" for e
  proof -
    have "mc_filename e \<noteq> mc_filename z" if z: "z \<in> snd ` set zs" for z
    proof
      assume same: "mc_filename e = mc_filename z"
      have "entry_on_disk d e" "entry_on_disk d z"
        using ok e z unfolding files_ok_def cl by auto
      with same have "mc_key e = mc_key z" by (simp add: entry_on_disk_def)
      moreover have "mc_key e \<noteq> mc_key z" using dis e z unfolding cl by (auto simp: image_iff)
      ultimately show False by simp
    qed
    then have "mc_filename e \<notin> mc_filename ` snd ` set zs" by blast
    with zs(2) show ?thesis by simp
  qed
  moreover have "entry_on_disk d' e" if "e \<in> set (cache_list c')" for e
    by (rule entry_on_disk_cong [OF keep [OF that]]) (use ok that in \<open>simp add: files_ok_def cl\<close>)
  ultimately show ?thesis unfolding files_ok_def by blast
qed

lemma put_files_Inr:
  "put_files io fname d = (Inr sz, d') \<Longrightarrow>
   sz = word_of_nat (length (io_written io)) \<and> stuck d' = stuck d
   \<and> files d' = (files d)(fname @ ''.tmp'' := None, fname \<mapsto> io_written io)"
  by (auto simp: put_files_def Let_def split: option.splits)

lemma put_files_Inl:
  "put_files io fname d = (Inl e, d') \<Longrightarrow>
   stuck d' = stuck d \<and> (\<forall>f. f \<noteq> fname @ ''.tmp'' \<longrightarrow> files d' f = files d f)"
  by (auto simp: put_files_def Let_def os_Remove_def split: option.splits if_splits)

lemma tmp_not_entry: "entry_on_disk d e \<Longrightarrow> mc_filename e \<noteq> f @ ''.tmp''"
  by (auto simp: entry_on_disk_def)

text \<open>A successful \<open>Put\<close>, from a state where index and disk agree.\<close>

lemma Put_Inr_split:
  assumes "cache_Put c d mediaID mime io = (Inr p, c', d')"
  obtains d1 where
    "put_files io (cacheKey mediaID @ extFromMime mime) d = (Inr (word_of_nat (length (io_written io))), d1)"
    "put_evict (put_replace c (cacheKey mediaID) (cacheKey mediaID @ extFromMime mime)
       (word_of_nat (length (io_written io))) mime) d1 = (c', d')"
    "p = (mc_dir c, cacheKey mediaID @ extFromMime mime)"
proof -
  let ?f = "cacheKey mediaID @ extFromMime mime"
  obtain r d1 where pf: "put_files io ?f d = (r, d1)" by (cases "put_files io ?f d") auto
  show ?thesis
  proof (cases r)
    case (Inl e)
    with pf assms show ?thesis by (simp add: cache_Put_def Let_def)
  next
    case (Inr sz)
    with pf have sz: "sz = word_of_nat (length (io_written io))" using put_files_Inr by blast
    obtain c2 d2 where inst: "put_install c d1 (cacheKey mediaID) ?f sz mime = (c2, d2)"
      by (cases "put_install c d1 (cacheKey mediaID) ?f sz mime") auto
    from assms pf Inr inst have "p = (mc_dir c, ?f)" "c' = c2" "d' = d2"
      by (simp_all add: cache_Put_def Let_def)
    with that pf Inr inst sz show ?thesis by (simp add: put_install_def)
  qed
qed

lemma Put_ok:
  assumes inv: "cache_inv c" and ind: "cache_indexed c" and ok: "files_ok c d"
    and put: "cache_Put c d mediaID mime io = (Inr p, c', d')"
  shows "cache_inv c' \<and> cache_indexed c' \<and> files_ok c' d'"
    and "\<exists>el. mc_entries c' (cacheKey mediaID) = Some el \<and> mc_filename (snd el) = snd p
           \<and> mc_mime (snd el) = mime \<and> files d' (snd p) = Some (io_written io)"
    and "p = (mc_dir c', cacheKey mediaID @ extFromMime mime)"
proof -
  let ?k = "cacheKey mediaID" and ?f = "cacheKey mediaID @ extFromMime mime"
  let ?e = "\<lparr>mc_key = ?k, mc_filename = ?f, mc_size = word_of_nat (length (io_written io)), mc_mime = mime\<rparr>"
  let ?el = "(mc_fresh c, ?e)"
  obtain d1 where pf: "put_files io ?f d = (Inr (word_of_nat (length (io_written io))), d1)"
    and ev: "put_evict (put_replace c ?k ?f (word_of_nat (length (io_written io))) mime) d1 = (c', d')"
    and p: "p = (mc_dir c, ?f)"
    using put by (rule Put_Inr_split)
  let ?c = "put_replace c ?k ?f (word_of_nat (length (io_written io))) mime"
  have inv1: "cache_inv ?c" using inv by (rule put_replace_inv)
  have ind1: "cache_indexed ?c" using inv ind by (rule put_replace_indexed)
  have lru1: "mc_lru ?c = ?el # filter (\<lambda>el. mc_key (snd el) \<noteq> ?k) (mc_lru c)"
    by (simp add: put_replace_fields without_key_filter [OF inv ind])
  have d1: "files d1 = (files d)(?f @ ''.tmp'' := None, ?f \<mapsto> io_written io)"
    using put_files_Inr [OF pf] by simp
  have new: "entry_on_disk d1 ?e" by (simp add: entry_on_disk_def d1 put_name_no_tmp)
  have old: "entry_on_disk d1 e" if "e \<in> set (cache_list c)" "mc_key e \<noteq> ?k" for e
  proof (rule entry_on_disk_cong)
    show od: "entry_on_disk d e" using ok that(1) unfolding files_ok_def by blast
    then have "mc_filename e \<noteq> ?f" using that(2) by (auto simp: entry_on_disk_def)
    with tmp_not_entry [OF od, of ?f] show "files d1 (mc_filename e) = files d (mc_filename e)"
      by (simp add: d1)
  qed
  have "files_ok ?c d1" using new old unfolding files_ok_def cache_list_def lru1 by auto
  then have fin: "files_ok c' d'" "\<And>e. e \<in> set (cache_list c') \<Longrightarrow> files d' (mc_filename e) = files d1 (mc_filename e)"
    using put_evict_files_ok [OF inv1 ind1 _ ev] by blast+
  have inv2: "cache_inv c' \<and> cache_indexed c'" using put_evict_indexed [OF _ ev] inv1 ind1 by blast
  with fin(1) show "cache_inv c' \<and> cache_indexed c' \<and> files_ok c' d'" by blast
  obtain n where n: "lru_cut (mc_maxBytes ?c) (cache_list ?c) n" "mc_lru c' = take n (mc_lru ?c)"
    using put_evict_cut [OF inv1 _ ev] lru1 by auto
  then have mem: "?el \<in> set (mc_lru c')" unfolding lru1 lru_cut_def by (cases n) auto
  then have "mc_entries c' ?k = Some ?el" using inv2 unfolding cache_indexed_def by force
  moreover have "files d' ?f = Some (io_written io)"
    using fin(2) [of ?e] mem d1 unfolding cache_list_def by (force simp: image_iff)
  ultimately show "\<exists>el. mc_entries c' ?k = Some el \<and> mc_filename (snd el) = snd p
           \<and> mc_mime (snd el) = mime \<and> files d' (snd p) = Some (io_written io)"
    by (intro exI [of _ ?el]) (simp add: p)
  show "p = (mc_dir c', ?f)"
    using put_evict_frame [OF ev] by (simp add: p put_replace_fields)
qed

lemma Put_Inl:
  assumes put: "cache_Put c d mediaID mime io = (Inl e, c', d')"
  shows "c' = c" and "files_ok c d \<Longrightarrow> files_ok c d'"
    and "f \<noteq> cacheKey mediaID @ extFromMime mime @ ''.tmp'' \<Longrightarrow> files d' f = files d f"
proof -
  let ?f = "cacheKey mediaID @ extFromMime mime"
  obtain r d1 where pf: "put_files io ?f d = (r, d1)" by (cases "put_files io ?f d") auto
  from put pf have c': "c' = c" and r: "put_files io ?f d = (Inl e, d')"
    by (auto simp: cache_Put_def Let_def split: sum.splits prod.splits)
  show "c' = c" by (rule c')
  from put_files_Inl [OF r] have same: "\<And>f. f \<noteq> ?f @ ''.tmp'' \<Longrightarrow> files d' f = files d f" by simp
  then show "f \<noteq> cacheKey mediaID @ extFromMime mime @ ''.tmp'' \<Longrightarrow> files d' f = files d f" by simp
  assume ok: "files_ok c d"
  show "files_ok c d'" unfolding files_ok_def
  proof
    fix x assume "x \<in> set (cache_list c)"
    then have od: "entry_on_disk d x" using ok unfolding files_ok_def by blast
    show "entry_on_disk d' x"
      by (rule entry_on_disk_cong [OF same od]) (rule tmp_not_entry [OF od])
  qed
qed

lemma Get_fields:
  assumes inv: "cache_inv c" and get: "cache_Get c mediaID = (r, c')"
  shows "mc_entries c' = mc_entries c \<and> mc_dir c' = mc_dir c \<and> mc_maxBytes c' = mc_maxBytes c
    \<and> mc_total c' = mc_total c \<and> mc_fresh c' = mc_fresh c
    \<and> set (mc_lru c') = set (mc_lru c) \<and> length (mc_lru c') = length (mc_lru c)"
proof (cases "mc_entries c (cacheKey mediaID)")
  case None
  with get show ?thesis by (simp add: cache_Get_def)
next
  case (Some el)
  then have el: "el \<in> set (mc_lru c)" using inv unfolding cache_inv_def by blast
  obtain xs ys where l: "mc_lru c = xs @ el # ys" "remove1 el (mc_lru c) = xs @ ys"
    using cache_inv_distinct [OF inv] el by (rule remove1_split)
  have "c' = c\<lparr>mc_lru := el # xs @ ys\<rparr>"
    using get Some el l(2) by (simp add: cache_Get_def list_MoveToFront_def)
  then show ?thesis using l(1) by auto
qed

lemma Get_result:
  "cache_Get c mediaID = (r, c') \<Longrightarrow>
   r = (case mc_entries c (cacheKey mediaID) of None \<Rightarrow> None
        | Some el \<Rightarrow> Some ((mc_dir c, mc_filename (snd el)), mc_mime (snd el)))"
  by (auto simp: cache_Get_def split: option.splits)

lemma Get_order:
  assumes inv: "cache_inv c" and ind: "cache_indexed c"
    and get: "cache_Get c mediaID = (r, c')" and hit: "mc_entries c (cacheKey mediaID) = Some el"
  shows "cache_list c' = snd el # filter (\<lambda>e. mc_key e \<noteq> cacheKey mediaID) (cache_list c)"
proof -
  have el: "el \<in> set (mc_lru c)" using inv hit unfolding cache_inv_def by blast
  have "remove1 el (mc_lru c) = without_key c (cacheKey mediaID)"
    using hit by (simp add: without_key_def)
  then show ?thesis
    using get hit el without_key_filter [OF inv ind, of "cacheKey mediaID"]
    by (auto simp: cache_Get_def list_MoveToFront_def cache_list_def filter_map comp_def)
qed

section \<open>The store the bridge relies on\<close>

text \<open>
  The contract between the cache and \<open>FetchMedia\<close>, over a state with files: a stored
  identifier is found again, with its type and the bytes that were written, and looking things
  up changes no file.
\<close>

locale media_store =
  fixes good :: "'s \<Rightarrow> bool"
    and get :: "'s \<Rightarrow> string \<Rightarrow> ((string \<times> string) \<times> string) option \<times> 's"
    and put :: "'s \<Rightarrow> string \<Rightarrow> string \<Rightarrow> put_io \<Rightarrow> (string \<times> string) result \<times> 's"
    and content :: "'s \<Rightarrow> string \<times> string \<Rightarrow> bytes option"
  assumes get_good: "good s \<Longrightarrow> get s i = (r, s') \<Longrightarrow> good s' \<and> content s' = content s"
    and get_hit: "good s \<Longrightarrow> get s i = (Some (p, m), s') \<Longrightarrow> content s p \<noteq> None"
    and get_again: "good s \<Longrightarrow> get s i = (r, s') \<Longrightarrow> fst (get s' j) = fst (get s j)"
    and put_good: "good s \<Longrightarrow> put s i m io = (q, s') \<Longrightarrow> good s'"
    and put_get: "good s \<Longrightarrow> put s i m io = (Inr p, s') \<Longrightarrow>
        fst (get s' i) = Some (p, m) \<and> content s' p = Some (io_written io)"
begin

lemma gets_good:
  "good s \<Longrightarrow> good (foldl (\<lambda>s j. snd (get s j)) s js)
    \<and> content (foldl (\<lambda>s j. snd (get s j)) s js) = content s
    \<and> fst (get (foldl (\<lambda>s j. snd (get s j)) s js) i) = fst (get s i)"
proof (induction js arbitrary: s)
  case (Cons j js)
  obtain r s' where g: "get s j = (r, s')" by (cases "get s j") auto
  with get_good [OF Cons.prems g] get_again [OF Cons.prems g] Cons.IH [of s'] show ?case by simp
qed simp

lemma put_gets_get:
  assumes "good s" and "put s i m io = (Inr p, s1)"
  shows "fst (get (foldl (\<lambda>s j. snd (get s j)) s1 js) i) = Some (p, m)
    \<and> content (foldl (\<lambda>s j. snd (get s j)) s1 js) p = Some (io_written io)"
  using gets_good [OF put_good [OF assms], of js i] put_get [OF assms] by simp

end

definition cache_good :: "mediaCache \<times> disk \<Rightarrow> bool" where
  "cache_good s \<longleftrightarrow> cache_inv (fst s) \<and> cache_indexed (fst s) \<and> files_ok (fst s) (snd s)"

definition store_get :: "mediaCache \<times> disk \<Rightarrow> string \<Rightarrow> ((string \<times> string) \<times> string) option \<times> mediaCache \<times> disk" where
  "store_get s i = (case cache_Get (fst s) i of (r, c') \<Rightarrow> (r, (c', snd s)))"

definition store_put :: "mediaCache \<times> disk \<Rightarrow> string \<Rightarrow> string \<Rightarrow> put_io \<Rightarrow> (string \<times> string) result \<times> mediaCache \<times> disk" where
  "store_put s i m io = cache_Put (fst s) (snd s) i m io"

definition store_content :: "mediaCache \<times> disk \<Rightarrow> string \<times> string \<Rightarrow> bytes option" where
  "store_content s p = (if fst p = mc_dir (fst s) then files (snd s) (snd p) else None)"

lemma store_get_eq: "store_get s i = (r, s') \<longleftrightarrow> (\<exists>c'. cache_Get (fst s) i = (r, c') \<and> s' = (c', snd s))"
  by (auto simp: store_get_def split: prod.splits)

lemma store_get_fst: "fst (store_get s i) = fst (cache_Get (fst s) i)"
  by (auto simp: store_get_def split: prod.splits)

lemma store_gets:
  "foldl (\<lambda>s j. snd (store_get s j)) (c, d) js = (foldl (\<lambda>c j. snd (cache_Get c j)) c js, d)"
  by (induction js arbitrary: c) (simp_all add: store_get_def split: prod.splits)

lemma Get_fst:
  "fst (cache_Get c i) = (case mc_entries c (cacheKey i) of None \<Rightarrow> None
     | Some el \<Rightarrow> Some ((mc_dir c, mc_filename (snd el)), mc_mime (snd el)))"
  by (auto simp: cache_Get_def split: option.splits)

lemma good_get_content:
  assumes good: "cache_good (c, d)" and hit: "mc_entries c k = Some el"
  shows "files d (mc_filename (snd el)) \<noteq> None"
proof -
  have "el \<in> set (mc_lru c)" using good hit unfolding cache_good_def cache_inv_def fst_conv by blast
  then have "entry_on_disk d (snd el)" using good by (auto simp: cache_good_def files_ok_def cache_list_def)
  then show ?thesis by (auto simp: entry_on_disk_def)
qed

lemma good_Get:
  assumes good: "cache_good (c, d)" and get: "cache_Get c i = (r, c')"
  shows "cache_good (c', d)"
proof -
  have inv: "cache_inv c" "cache_indexed c" "files_ok c d" using good by (simp_all add: cache_good_def)
  have "set (cache_list c') = set (cache_list c)"
    using Get_fields [OF inv(1) get] by (simp add: cache_list_def)
  then have "files_ok c' d" using inv(3) by (simp add: files_ok_def)
  with Get_inv [OF inv(1) get] inv(2) show ?thesis by (simp add: cache_good_def)
qed

lemma good_Put:
  assumes good: "cache_good (c, d)" and put: "cache_Put c d i m io = (r, c', d')"
  shows "cache_good (c', d')"
proof (cases r)
  case (Inl e)
  with put have p: "cache_Put c d i m io = (Inl e, c', d')" by simp
  from Put_Inl(1,2) [OF p] good show ?thesis by (simp add: cache_good_def)
next
  case (Inr p)
  with put Put_ok(1) [of c d i m io p c' d'] good show ?thesis by (simp add: cache_good_def)
qed

lemma good_Put_Get:
  assumes good: "cache_good (c, d)" and put: "cache_Put c d i m io = (Inr p, c', d')"
  shows "fst (cache_Get c' i) = Some (p, m) \<and> files d' (snd p) = Some (io_written io) \<and> fst p = mc_dir c'"
proof -
  have inv: "cache_inv c" "cache_indexed c" "files_ok c d" using good by (simp_all add: cache_good_def)
  obtain el where el: "mc_entries c' (cacheKey i) = Some el" "mc_filename (snd el) = snd p"
    "mc_mime (snd el) = m" "files d' (snd p) = Some (io_written io)"
    using Put_ok(2) [OF inv put] by blast
  with Put_ok(3) [OF inv put] show ?thesis by (simp add: Get_fst)
qed

interpretation store: media_store cache_good store_get store_put store_content
proof unfold_locales
  fix s i r s' assume g: "cache_good s" and get: "store_get s i = (r, s')"
  obtain c d where s: "s = (c, d)" by (cases s) auto
  from get s obtain c' where c': "cache_Get c i = (r, c')" "s' = (c', d)" by (auto simp: store_get_eq)
  have fields: "mc_entries c' = mc_entries c" "mc_dir c' = mc_dir c"
    using Get_fields [OF _ c'(1)] g s by (simp_all add: cache_good_def)
  then show "cache_good s' \<and> store_content s' = store_content s"
    using good_Get g c' s by (auto simp: store_content_def fun_eq_iff)
  fix j show "fst (store_get s' j) = fst (store_get s j)"
    using fields c'(2) s by (simp add: store_get_fst Get_fst split: option.splits)
next
  fix s i p m s' assume g: "cache_good s" and get: "store_get s i = (Some (p, m), s')"
  obtain c d where s: "s = (c, d)" by (cases s) auto
  from get s have "fst (cache_Get c i) = Some (p, m)" using store_get_fst [of s i] by simp
  then obtain el where "mc_entries c (cacheKey i) = Some el" "p = (mc_dir c, mc_filename (snd el))"
    by (auto simp: Get_fst split: option.splits)
  with good_get_content g s show "store_content s p \<noteq> None" by (auto simp: store_content_def)
next
  fix s i m io r s' assume "cache_good s" and "store_put s i m io = (r, s')"
  then show "cache_good s'"
    by (cases s; cases s') (auto simp: store_put_def intro: good_Put)
next
  fix s i m io p s' assume "cache_good s" and "store_put s i m io = (Inr p, s')"
  then show "fst (store_get s' i) = Some (p, m) \<and> store_content s' p = Some (io_written io)"
    using good_Put_Get [of "fst s" "snd s" i m io p "fst s'" "snd s'"]
    by (simp add: store_put_def store_get_fst store_content_def)
qed

section \<open>Properties\<close>

definition sample_io :: put_io where
  "sample_io = \<lparr>io_open = None, io_written = [1, 2, 3, 4, 5, 6, 7, 8], io_fn = None,
                io_close = None, io_stat = None, io_rename = None\<rparr>"

definition no_files :: disk where
  "no_files = \<lparr>files = Map.empty, stuck = (\<lambda>f. False)\<rparr>"

lemma empty_cache_good: "cache_good (empty_cache dir m, no_files)"
  by (simp add: cache_good_def empty_cache_inv files_ok_def) (simp add: cache_list_def empty_cache_def)

lemma sample_Put:
  "\<exists>p c d. cache_Put (empty_cache dir m) no_files i mime sample_io = (Inr p, c, d)"
  by (simp add: cache_Put_def put_files_def sample_io_def Let_def split: prod.splits)

text \<open>
  C21: In a cache whose index, list and files agree (\<open>cache_good\<close>: \<open>cache_inv\<close>, \<open>cache_indexed\<close> and
  every entry's file on disk with the entry's size; true of a new cache and kept by \<open>Get\<close> and
  \<open>Put\<close>), after a successful \<open>Put\<close> of an identifier and any number of look-ups of any
  identifiers, \<open>Get\<close> answers with the path \<open>Put\<close> returned and the type that was stored, and the
  file at that path holds exactly the bytes the callback wrote.
\<close>

theorem cache_put_then_get:
  assumes "cache_good (c, d)" and "cache_Put c d mediaID mime io = (Inr p, c1, d1)"
  shows "fst (cache_Get (foldl (\<lambda>c other. snd (cache_Get c other)) c1 others) mediaID) = Some (p, mime)
    \<and> fst p = mc_dir c1 \<and> files d1 (snd p) = Some (io_written io)"
proof -
  have put: "store_put (c, d) mediaID mime io = (Inr p, (c1, d1))" using assms(2) by (simp add: store_put_def)
  show ?thesis
    using store.put_gets_get [OF assms(1) put, of others] good_Put_Get [OF assms]
    by (simp add: store_gets store_get_fst)
qed

theorem cache_put_then_get_witness:
  "\<exists>p c1 d1. cache_Put (empty_cache ''media'' 100) no_files ''id'' ''image/jpeg'' sample_io = (Inr p, c1, d1)
     \<and> fst (cache_Get (snd (cache_Get (snd (cache_Get c1 ''other'')) ''id'')) ''id'') = Some (p, ''image/jpeg'')
     \<and> files d1 (snd p) = Some [1, 2, 3, 4, 5, 6, 7, 8]"
proof -
  obtain p c1 d1 where put: "cache_Put (empty_cache ''media'' 100) no_files ''id'' ''image/jpeg'' sample_io = (Inr p, c1, d1)"
    using sample_Put by blast
  from cache_put_then_get [OF empty_cache_good put, of "[''other'', ''id'']"] put show ?thesis
    by (simp add: sample_io_def)
qed



text \<open>
  C27: A \<open>Put\<close> that fails at any step (opening, the callback, closing, measuring, renaming)
  returns the error with the cache unchanged, every file of the directory other than the
  temporary one unchanged, and every cached entry still on disk.
\<close>

theorem cache_put_failure_frame:
  assumes "cache_Put c d mediaID mime io = (Inl e, c', d')"
  shows "c' = c \<and> (\<forall>f. f \<noteq> cacheKey mediaID @ extFromMime mime @ ''.tmp'' \<longrightarrow> files d' f = files d f)
    \<and> (cache_good (c, d) \<longrightarrow> cache_good (c', d'))"
  using Put_Inl [OF assms] by (auto simp: cache_good_def)

theorem cache_put_failure_frame_witness:
  "\<exists>c' d'. cache_Put (empty_cache ''media'' 100) (no_files\<lparr>files := [''kept'' \<mapsto> [7]]\<rparr>) ''id'' ''image/jpeg''
      (sample_io\<lparr>io_fn := Some (ErrExt ''download'')\<rparr>) = (Inl (ErrExt ''download''), c', d')
   \<and> c' = empty_cache ''media'' 100 \<and> files d' ''kept'' = Some [7]"
proof -
  let ?put = "cache_Put (empty_cache ''media'' 100) (no_files\<lparr>files := [''kept'' \<mapsto> [7]]\<rparr>) ''id'' ''image/jpeg''
      (sample_io\<lparr>io_fn := Some (ErrExt ''download'')\<rparr>)"
  obtain c' d' where put: "?put = (Inl (ErrExt ''download''), c', d')"
    by (cases ?put) (auto simp: cache_Put_def put_files_def sample_io_def Let_def)
  have "\<not> strings_HasSuffix ''kept'' ''.tmp''" by (simp add: strings_HasSuffix_def)
  then have "''kept'' \<noteq> cacheKey ''id'' @ extFromMime ''image/jpeg'' @ ''.tmp''"
    using HasSuffix_append [of "cacheKey ''id'' @ extFromMime ''image/jpeg''" "''.tmp''"] by auto
  with cache_put_failure_frame [OF put] put show ?thesis by auto
qed

text \<open>
  Start-up always terminates in a cache whose index, list and running total agree and
  whose total is within the limit (or which is empty), whatever the directory listing holds;
  with no two files of one stem, every listed file that is kept is reachable by its key.
\<close>

theorem cache_start:
  assumes "newMediaCache dir maxBytes mkdir_err (Inr es) d = Inr (c, d')"
  shows "cache_inv c \<and> (sint (mc_total c) \<le> sint maxBytes \<or> mc_lru c = [])
    \<and> (distinct (map file_stem (accepted_names es)) \<longrightarrow> cache_indexed c)"
  using newMediaCache_inv(1,4) [OF assms] newMediaCache_indexed [OF assms] by blast

definition sample_listing :: "dirent list" where
  "sample_listing =
     [\<lparr>de_name = ''ab.jpg'', de_isDir = False, de_info = Inr 8\<rparr>,
      \<lparr>de_name = ''cd.jpg.tmp'', de_isDir = False, de_info = Inr 3\<rparr>]"

theorem cache_start_witness:
  "\<exists>c d'. newMediaCache ''media'' 100 None (Inr sample_listing) no_files = Inr (c, d')
     \<and> cache_inv c \<and> cache_indexed c"
proof -
  obtain c d' where new: "newMediaCache ''media'' 100 None (Inr sample_listing) no_files = Inr (c, d')"
    by (cases "newMediaCache ''media'' 100 None (Inr sample_listing) no_files")
      (auto simp: newMediaCache_def split: prod.splits)
  have "distinct (map file_stem (accepted_names sample_listing))"
    by (simp add: sample_listing_def strings_HasSuffix_def is_ok_def)
  with cache_start [OF new] new show ?thesis by blast
qed

end
