(* ===== verification/Crypto_Tests.thy ===== *)
theory Crypto_Tests
  imports Media_Cache
begin

text \<open>
  Evaluations of the hash model: a test vector of FIPS 180-4 checked by the kernel, and two
  identifiers with different cache keys for the examples of the cache.
\<close>

lemma sha256_abc:
  "hex_encode (sha256 (bytes_of_string ''abc'')) =
   ''ba7816bf8f01cfea414140de5dae2223b00361a396177a9cb410ff61f20015ad''"
  by code_simp

lemma cacheKey_a: "cacheKey ''a'' = ''ca978112ca1bbdcafac2''"
  by code_simp

lemma cacheKey_b: "cacheKey ''b'' = ''3e23e8160039594a3389''"
  by code_simp

lemma sample_keys_differ: "cacheKey ''a'' \<noteq> cacheKey ''b''"
  by (simp add: cacheKey_a cacheKey_b)

end
