(* ===== verification/Cache_Concurrency.thy ===== *)
theory Cache_Concurrency
  imports Crypto_Tests
begin

text \<open>
  The media cache under concurrent requests (\<open>internal/bridge/mediacache.go\<close>). \<open>Get\<close> and
  the second half of \<open>Put\<close> run under the lock, so each is one step; the first half of \<open>Put\<close>
  (writing and renaming the file) runs outside it, so other calls may come between the two.
\<close>

section \<open>Steps\<close>

record pending_put =
  pp_key :: string
  pp_fname :: string
  pp_size :: i64
  pp_mime :: string

record cache_sys =
  cs_cache :: mediaCache
  cs_disk :: disk
  cs_pending :: "pending_put list"

inductive cache_step :: "cache_sys \<Rightarrow> cache_sys \<Rightarrow> bool" where
  step_get:
    "cache_Get (cs_cache s) mediaID = (r, c') \<Longrightarrow> cache_step s (s\<lparr>cs_cache := c'\<rparr>)"
| step_write:
    "put_files io (cacheKey mediaID @ extFromMime mime) (cs_disk s) = (Inr sz, d') \<Longrightarrow>
     cache_step s (s\<lparr>cs_disk := d',
       cs_pending := \<lparr>pp_key = cacheKey mediaID, pp_fname = cacheKey mediaID @ extFromMime mime,
                      pp_size = sz, pp_mime = mime\<rparr> # cs_pending s\<rparr>)"
| step_write_fails:
    "put_files io (cacheKey mediaID @ extFromMime mime) (cs_disk s) = (Inl e, d') \<Longrightarrow>
     cache_step s (s\<lparr>cs_disk := d'\<rparr>)"
| step_install:
    "cs_pending s = ps @ p # qs \<Longrightarrow>
     put_install (cs_cache s) (cs_disk s) (pp_key p) (pp_fname p) (pp_size p) (pp_mime p) = (c', d') \<Longrightarrow>
     cache_step s (s\<lparr>cs_cache := c', cs_disk := d', cs_pending := ps @ qs\<rparr>)"

text \<open>
  The states reached after a start on a cache directory with the listing \<open>es\<close>, which may be
  any listing, for any limit and any files.
\<close>

inductive cache_reach :: "dirent list \<Rightarrow> cache_sys \<Rightarrow> bool" for es where
  reach_start:
    "newMediaCache dir m None (Inr es) d = Inr (c, d') \<Longrightarrow>
     cache_reach es \<lparr>cs_cache = c, cs_disk = d', cs_pending = []\<rparr>"
| reach_step: "cache_reach es s \<Longrightarrow> cache_step s t \<Longrightarrow> cache_reach es t"

inductive_cases cache_stepE: "cache_step s t"

section \<open>The invariant of the locked state\<close>

text \<open>
  \<open>cache_safe\<close> holds after a start on any directory; \<open>cache_indexed\<close> needs a directory in
  which no two files share a stem, since the loop that reads it makes a list element of every file
  but keeps one index entry for each stem.
\<close>

definition cache_safe :: "mediaCache \<Rightarrow> bool" where
  "cache_safe c \<longleftrightarrow> cache_inv c
     \<and> (sint (mc_total c) \<le> sint (mc_maxBytes c) \<or> length (mc_lru c) \<le> 1)"

lemma Get_safe [inv_intros]: "cache_safe c \<Longrightarrow> cache_Get c i = (r, c') \<Longrightarrow> cache_safe c'"
  using Get_inv [of c i r c'] Get_fields [of c i r c'] by (simp add: cache_safe_def)

lemma Get_indexed [inv_intros]:
  "cache_safe c \<Longrightarrow> cache_indexed c \<Longrightarrow> cache_Get c i = (r, c') \<Longrightarrow> cache_indexed c'"
  using Get_inv [of c i r c'] by (simp add: cache_safe_def)

lemma install_safe [inv_intros]:
  assumes "cache_safe c" and "put_install c d key fname sz mime = (c', d')"
  shows "cache_safe c'"
proof -
  have ev: "put_evict (put_replace c key fname sz mime) d = (c', d')"
    using assms(2) by (simp add: put_install_def)
  show ?thesis
    using put_evict_inv [OF put_replace_inv ev] assms(1) put_evict_bound [OF ev]
    by (simp add: cache_safe_def)
qed

lemma install_indexed [inv_intros]:
  assumes "cache_safe c" and "cache_indexed c" and "put_install c d key fname sz mime = (c', d')"
  shows "cache_indexed c'"
proof -
  have inv: "cache_inv c" using assms(1) by (simp add: cache_safe_def)
  have ev: "put_evict (put_replace c key fname sz mime) d = (c', d')"
    using assms(3) by (simp add: put_install_def)
  show ?thesis
    using put_evict_indexed [OF _ ev] put_replace_inv [OF inv] put_replace_indexed [OF inv assms(2)]
    by blast
qed

lemma step_safe: "cache_step s t \<Longrightarrow> cache_safe (cs_cache s) \<Longrightarrow> cache_safe (cs_cache t)"
  by (erule cache_stepE) (auto intro: inv_intros)

lemma step_indexed:
  "cache_step s t \<Longrightarrow> cache_safe (cs_cache s) \<Longrightarrow> cache_indexed (cs_cache s) \<Longrightarrow> cache_indexed (cs_cache t)"
  by (erule cache_stepE) (auto intro: inv_intros)

lemma reach_safe: "cache_reach es s \<Longrightarrow> cache_safe (cs_cache s)"
proof (induction rule: cache_reach.induct)
  case (reach_start dir m d c d')
  then show ?case
    using newMediaCache_inv [of dir m None "Inr es" d c d'] by (auto simp: cache_safe_def)
next
  case (reach_step s t)
  then show ?case by (blast intro: step_safe)
qed

lemma reach_indexed:
  assumes "distinct (map file_stem (accepted_names es))" and "cache_reach es s"
  shows "cache_indexed (cs_cache s)"
  using assms(2)
proof (induction rule: cache_reach.induct)
  case (reach_start dir m d c d')
  then show ?case using newMediaCache_indexed [OF _ assms(1), of dir m None d c d'] by simp
next
  case (reach_step s t)
  then show ?case using step_indexed [OF _ reach_safe] by blast
qed

section \<open>A run in which an entry loses its file\<close>

text \<open>
  Two requests download the same media; between the rename of the second and its locked half,
  the first installs its entry and a request for other media evicts it, which removes the
  file the second has just renamed into place.
\<close>

definition race_pending :: "string \<Rightarrow> pending_put" where
  "race_pending i = \<lparr>pp_key = cacheKey i, pp_fname = cacheKey i @ extFromMime ''image/jpeg'',
                     pp_size = 8, pp_mime = ''image/jpeg''\<rparr>"

definition race_entry :: "string \<Rightarrow> mcEntry" where
  "race_entry i = \<lparr>mc_key = cacheKey i, mc_filename = cacheKey i @ extFromMime ''image/jpeg'',
                   mc_size = 8, mc_mime = ''image/jpeg''\<rparr>"

lemma write_sample:
  "put_files sample_io f d =
     (Inr 8, d\<lparr>files := (files d)(f @ ''.tmp'' := None, f \<mapsto> [1, 2, 3, 4, 5, 6, 7, 8])\<rparr>)"
  by (simp add: put_files_def sample_io_def Let_def)

text \<open>The in-memory states of the run, with the limit at ten bytes.\<close>

definition race_cache :: "nat \<Rightarrow> string \<Rightarrow> mediaCache" where
  "race_cache n i = \<lparr>mc_dir = ''media'', mc_maxBytes = 10,
     mc_entries = [cacheKey i \<mapsto> (n, race_entry i)], mc_lru = [(n, race_entry i)],
     mc_total = 8, mc_fresh = Suc n\<rparr>"

lemma install_first:
  "put_install (empty_cache ''media'' 10) d (cacheKey i) (cacheKey i @ extFromMime ''image/jpeg'') 8 ''image/jpeg''
   = (race_cache 0 i, d)"
  by (simp add: put_install_def put_replace_def empty_cache_def cache_PushFront_def race_cache_def
      race_entry_def Let_def put_evict_stop)

lemma install_second:
  assumes "cacheKey i \<noteq> cacheKey j"
  shows "put_install (race_cache n i) d (cacheKey j) (cacheKey j @ extFromMime ''image/jpeg'') 8 ''image/jpeg''
   = (race_cache (Suc n) j, os_Remove (cacheKey i @ extFromMime ''image/jpeg'') d)"
proof -
  let ?c = "put_replace (race_cache n i) (cacheKey j) (cacheKey j @ extFromMime ''image/jpeg'') 8 ''image/jpeg''"
  have c: "?c = (race_cache n i)\<lparr>mc_entries := [cacheKey i \<mapsto> (n, race_entry i), cacheKey j \<mapsto> (Suc n, race_entry j)],
      mc_lru := [(Suc n, race_entry j), (n, race_entry i)], mc_total := 16, mc_fresh := Suc (Suc n)\<rparr>"
    using assms by (simp add: put_replace_def race_cache_def cache_PushFront_def race_entry_def Let_def)
  have ev: "evictLocked ?c d = (True, race_cache (Suc n) j, os_Remove (cacheKey i @ extFromMime ''image/jpeg'') d)"
    using assms unfolding c
    by (simp add: evictLocked_def race_cache_def list_Remove_def race_entry_def Let_def fun_upd_def fun_eq_iff)
  have over: "sint (mc_maxBytes ?c) < sint (mc_total ?c) \<and> 1 < length (mc_lru ?c)"
    unfolding c by (simp add: race_cache_def)
  have stop: "put_evict (race_cache (Suc n) j) d' = (race_cache (Suc n) j, d')" for d'
    by (rule put_evict_stop) (simp add: race_cache_def)
  show ?thesis
    unfolding put_install_def put_evict_step [OF over ev] by (rule stop)
qed

lemma reach_write:
  assumes "cache_reach es s"
  shows "cache_reach es (s\<lparr>cs_disk := (cs_disk s)\<lparr>files := (files (cs_disk s))
            (cacheKey i @ extFromMime ''image/jpeg'' @ ''.tmp'' := None,
             cacheKey i @ extFromMime ''image/jpeg'' \<mapsto> [1, 2, 3, 4, 5, 6, 7, 8])\<rparr>,
          cs_pending := race_pending i # cs_pending s\<rparr>)"
  using reach_step [OF assms step_write [OF write_sample, where mediaID = i and mime = "''image/jpeg''"]]
  by (simp add: race_pending_def)

lemma reach_install:
  assumes "cache_reach es s" and "cs_pending s = ps @ race_pending i # qs"
    and "put_install (cs_cache s) (cs_disk s) (cacheKey i) (cacheKey i @ extFromMime ''image/jpeg'') 8 ''image/jpeg''
      = (c', d')"
  shows "cache_reach es (s\<lparr>cs_cache := c', cs_disk := d', cs_pending := ps @ qs\<rparr>)"
  by (rule reach_step [OF assms(1) step_install [OF assms(2)]]) (simp add: race_pending_def assms(3))

lemma reach_race_start:
  "cache_reach [] \<lparr>cs_cache = empty_cache ''media'' 10, cs_disk = no_files, cs_pending = []\<rparr>"
proof (rule reach_start)
  show "newMediaCache ''media'' 10 None (Inr []) no_files = Inr (empty_cache ''media'' 10, no_files)"
    by (simp add: newMediaCache_def new_evict_stop empty_cache_def)
qed

text \<open>The run up to the first installation.\<close>

lemma reach_first_entry:
  "cache_reach [] \<lparr>cs_cache = race_cache 0 i,
     cs_disk = no_files\<lparr>files := (files no_files)(cacheKey i @ extFromMime ''image/jpeg'' @ ''.tmp'' := None,
       cacheKey i @ extFromMime ''image/jpeg'' \<mapsto> [1, 2, 3, 4, 5, 6, 7, 8])\<rparr>, cs_pending = []\<rparr>"
  using reach_install [OF reach_write [OF reach_race_start, of i], of "[]" i "[]", simplified, OF install_first]
  by simp

section \<open>Properties\<close>

text \<open>
  C4: After a start on any cache directory, whatever the interleaving of look-ups, downloads and
  installations by concurrent requests, in every state: the index maps a key only to an element of
  the recency list with this key, the list names no element twice, the running total is the sum of
  the sizes of its entries, and the total is within \<open>maxBytes\<close> unless at most one entry is left.
  If no two files of the directory share a stem (the name without its extension), the index and
  the list describe exactly the same entries, one per key.
\<close>

theorem cache_interleaved_invariant:
  assumes "cache_reach es s"
  shows "(\<forall>k el. mc_entries (cs_cache s) k = Some el \<longrightarrow>
            el \<in> set (mc_lru (cs_cache s)) \<and> mc_key (snd el) = k)
    \<and> distinct (mc_lru (cs_cache s))
    \<and> mc_total (cs_cache s) = sum_list (map mc_size (cache_list (cs_cache s)))
    \<and> (sint (mc_total (cs_cache s)) \<le> sint (mc_maxBytes (cs_cache s)) \<or> length (mc_lru (cs_cache s)) \<le> 1)
    \<and> (distinct (map file_stem (accepted_names es)) \<longrightarrow>
         (\<forall>k el. mc_entries (cs_cache s) k = Some el \<longleftrightarrow>
            el \<in> set (mc_lru (cs_cache s)) \<and> mc_key (snd el) = k)
       \<and> distinct (map mc_key (cache_list (cs_cache s))))"
proof -
  have safe: "cache_inv (cs_cache s)" using reach_safe [OF assms] by (simp add: cache_safe_def)
  have one: "el \<in> set (mc_lru (cs_cache s)) \<and> mc_key (snd el) = k"
    if "mc_entries (cs_cache s) k = Some el" for k el
    using safe that unfolding cache_inv_def by blast
  have exact: "mc_entries (cs_cache s) k = Some el \<longleftrightarrow>
      el \<in> set (mc_lru (cs_cache s)) \<and> mc_key (snd el) = k"
    if "cache_indexed (cs_cache s)" for k el
    using one that unfolding cache_indexed_def by blast
  have "mc_total (cs_cache s) = sum_list (map mc_size (cache_list (cs_cache s)))"
    using safe unfolding cache_inv_def entry_bytes_def by blast
  then show ?thesis
    using one exact cache_inv_distinct [OF safe] cache_indexed_keys [OF safe]
      reach_indexed [OF _ assms] reach_safe [OF assms] unfolding cache_safe_def by blast
qed

theorem cache_interleaved_invariant_witness:
  "\<exists>s. cache_reach [] s \<and> cs_cache s = race_cache 0 ''id'' \<and> mc_total (cs_cache s) = 8
     \<and> mc_entries (cs_cache s) (cacheKey ''id'') = Some (0, race_entry ''id'')
     \<and> mc_total (cs_cache s) = sum_list (map mc_size (cache_list (cs_cache s)))
     \<and> (\<forall>k el. mc_entries (cs_cache s) k = Some el \<longleftrightarrow>
          el \<in> set (mc_lru (cs_cache s)) \<and> mc_key (snd el) = k)"
proof -
  obtain s where s: "cache_reach [] s" "cs_cache s = race_cache 0 ''id''"
    using reach_first_entry [of "''id''"] by (rule that) simp
  have "mc_total (cs_cache s) = 8" "mc_entries (cs_cache s) (cacheKey ''id'') = Some (0, race_entry ''id'')"
    unfolding s(2) race_cache_def by simp_all
  moreover have "distinct (map file_stem (accepted_names []))" by simp
  ultimately show ?thesis
    using cache_interleaved_invariant [OF s(1)] s by (intro exI [of _ s] conjI) blast+
qed

text \<open>
  C25: The two halves of \<open>Put\<close> are not atomic together, and the cache can end up with an
  entry whose file is gone: two downloads of one identifier with a download of another
  between them reach a state in which \<open>Get\<close> answers a hit with a path where no file exists.
\<close>

theorem cache_race_loses_file:
  assumes ne: "cacheKey i \<noteq> cacheKey j"
  shows "\<exists>s p. cache_reach [] s \<and> fst (cache_Get (cs_cache s) i) = Some (p, ''image/jpeg'')
    \<and> files (cs_disk s) (snd p) = None"
proof -
  let ?fi = "cacheKey i @ extFromMime ''image/jpeg''" and ?fj = "cacheKey j @ extFromMime ''image/jpeg''"
  note r0 = reach_write [OF reach_write [OF reach_race_start, of i], of i, simplified]
  note r1 = reach_install [OF r0, of "[race_pending i]" i "[]", simplified, OF install_first]
  note r2 = reach_write [OF r1, of j, simplified]
  note r3 = reach_install [OF r2, of "[]" j "[race_pending i]", simplified, OF install_second [OF ne]]
  note r4 = reach_install [OF r3, of "[]" i "[]", simplified, OF install_second [OF ne [symmetric]]]
  have "?fi \<noteq> ?fj" using ne by simp
  note final = this Get_fst race_cache_def race_entry_def os_Remove_def no_files_def
  show ?thesis
    by (intro exI conjI, rule r4) (simp_all add: final)
qed

theorem cache_race_loses_file_witness:
  "\<exists>s p. cache_reach [] s \<and> fst (cache_Get (cs_cache s) ''a'') = Some (p, ''image/jpeg'')
    \<and> files (cs_disk s) (snd p) = None"
  using cache_race_loses_file [OF sample_keys_differ] .

end
