(* ===== verification/Config.thy ===== *)
theory Config
  imports Go_Strings
begin

text \<open>
  Package \<open>config\<close> (\<open>internal/config/config.go\<close>): the configuration records, the checks and
  defaults of \<open>validate\<close>, \<open>Load\<close> and the look-up of a bearer token. Reading the file and
  parsing its YAML are done by the operating system and by \<open>gopkg.in/yaml.v3\<close>: their results
  are arguments of \<open>Load\<close>.
\<close>

section \<open>The configuration\<close>

record TLSConfig =
  tls_Auto :: bool
  tls_CertPath :: string
  tls_KeyPath :: string
  tls_Hosts :: "string list"

record TelegramConfig =
  tg_APIID :: goint
  tg_APIHash :: string
  tg_SessionDir :: string

record ClientConfig =
  cl_Name :: string
  cl_Token :: string
  cl_AllowedChats :: "i64 list"

record MediaConfig =
  media_CacheDir :: string
  media_MaxBytes :: i64

record Config =
  cfg_Listen :: string
  cfg_TLS :: TLSConfig
  cfg_Telegram :: TelegramConfig
  cfg_Clients :: "ClientConfig list"
  cfg_Media :: MediaConfig
  cfg_LogLevel :: string

section \<open>Validation\<close>

text \<open>The loop over the clients: the first one without a token is the error.\<close>

fun check_tokens :: "nat \<Rightarrow> ClientConfig list \<Rightarrow> goerr option" where
  "check_tokens i [] = None"
| "check_tokens i (cl # cls) =
     (if cl_Token cl = [] then Some (ErrNew (''clients['' @ print_nat i @ ''].token must be set''))
      else check_tokens (Suc i) cls)"

definition validate :: "Config \<Rightarrow> Config result" where
  "validate c =
     (if cfg_Listen c = [] then Inl (ErrNew ''listen must be set'')
      else if tg_APIID (cfg_Telegram c) = 0 \<or> tg_APIHash (cfg_Telegram c) = []
      then Inl (ErrNew ''telegram.api_id and telegram.api_hash must be set (see https://my.telegram.org/apps)'')
      else if tg_SessionDir (cfg_Telegram c) = [] then Inl (ErrNew ''telegram.session_dir must be set'')
      else if cfg_Clients c = [] then Inl (ErrNew ''at least one client with a bearer token must be configured'')
      else case check_tokens 0 (cfg_Clients c) of
        Some e \<Rightarrow> Inl e
      | None \<Rightarrow>
          (let m0 = cfg_Media c;
               m1 = (if media_CacheDir m0 = [] then m0\<lparr>media_CacheDir := ''./data/media''\<rparr> else m0);
               m2 = (if media_MaxBytes m1 = 0 then m1\<lparr>media_MaxBytes := push_bit 20 100\<rparr> else m1);
               c1 = c\<lparr>cfg_Media := m2\<rparr>
           in Inr (if cfg_LogLevel c1 = [] then c1\<lparr>cfg_LogLevel := ''info''\<rparr> else c1)))"

text \<open>
  \<open>Load\<close>: \<open>file\<close> is what \<open>os.ReadFile\<close> returned, \<open>unmarshal\<close> is \<open>yaml.Unmarshal\<close> into a zero
  configuration.
\<close>

definition Load :: "string result \<Rightarrow> (string \<Rightarrow> Config result) \<Rightarrow> Config result" where
  "Load file unmarshal =
     (case file of
        Inl e \<Rightarrow> Inl (ErrWrap ''read config'' e)
      | Inr data \<Rightarrow>
          (case unmarshal data of
             Inl e \<Rightarrow> Inl (ErrWrap ''parse config'' e)
           | Inr c \<Rightarrow> validate c))"

section \<open>Token look-up\<close>

text \<open>\<open>TokenToClient\<close>: the first client with the token, or nil.\<close>

fun find_token :: "ClientConfig list \<Rightarrow> string \<Rightarrow> ClientConfig option" where
  "find_token [] token = None"
| "find_token (cl # cls) token = (if cl_Token cl = token then Some cl else find_token cls token)"

definition TokenToClient :: "Config \<Rightarrow> string \<Rightarrow> ClientConfig option" where
  "TokenToClient c token = find_token (cfg_Clients c) token"

section \<open>Lemmas\<close>

text \<open>What a running bridge may assume of its configuration.\<close>

definition config_ok :: "Config \<Rightarrow> bool" where
  "config_ok c \<longleftrightarrow>
     cfg_Listen c \<noteq> [] \<and> tg_APIID (cfg_Telegram c) \<noteq> 0 \<and> tg_APIHash (cfg_Telegram c) \<noteq> []
   \<and> tg_SessionDir (cfg_Telegram c) \<noteq> [] \<and> cfg_Clients c \<noteq> []
   \<and> (\<forall>cl \<in> set (cfg_Clients c). cl_Token cl \<noteq> [])
   \<and> media_CacheDir (cfg_Media c) \<noteq> [] \<and> media_MaxBytes (cfg_Media c) \<noteq> 0 \<and> cfg_LogLevel c \<noteq> []"

lemma check_tokens_None: "check_tokens i cls = None \<longleftrightarrow> (\<forall>cl \<in> set cls. cl_Token cl \<noteq> [])"
  by (induction cls arbitrary: i) auto

lemma default_max_bytes: "push_bit 20 (100 :: i64) = 104857600"
  by (simp add: push_bit_eq_mult)

lemma validate_config_ok: "validate c = Inr c' \<Longrightarrow> config_ok c'"
  by (auto simp: validate_def config_ok_def Let_def check_tokens_None default_max_bytes
      split: if_splits option.splits)

text \<open>The fields that validation never touches.\<close>

lemma validate_frame:
  "validate c = Inr c' \<Longrightarrow>
     cfg_Listen c' = cfg_Listen c \<and> cfg_TLS c' = cfg_TLS c \<and> cfg_Telegram c' = cfg_Telegram c
   \<and> cfg_Clients c' = cfg_Clients c"
  by (auto simp: validate_def Let_def split: if_splits option.splits)

lemma validate_id: "config_ok c \<Longrightarrow> validate c = Inr c"
  by (auto simp: validate_def config_ok_def Let_def check_tokens_None split: option.splits)

lemma find_token_Some:
  "find_token cls t = Some cl \<longleftrightarrow>
     (\<exists>pre post. cls = pre @ cl # post \<and> cl_Token cl = t \<and> (\<forall>c \<in> set pre. cl_Token c \<noteq> t))"
proof (induction cls)
  case Nil
  then show ?case by simp
next
  case (Cons c cls)
  show ?case
  proof (cases "cl_Token c = t")
    case True
    have "c # cls = pre @ cl # post \<Longrightarrow> (\<forall>c \<in> set pre. cl_Token c \<noteq> t) \<Longrightarrow> c = cl" for pre post
      using True by (cases pre) auto
    with True show ?thesis by (auto intro: exI [of _ "[]"])
  next
    case False
    have "(\<exists>pre post. c # cls = pre @ cl # post \<and> cl_Token cl = t \<and> (\<forall>d \<in> set pre. cl_Token d \<noteq> t))
        = (\<exists>pre post. cls = pre @ cl # post \<and> cl_Token cl = t \<and> (\<forall>d \<in> set pre. cl_Token d \<noteq> t))"
      (is "?L = ?R")
    proof
      assume ?L
      then obtain pre post where *: "c # cls = pre @ cl # post" "cl_Token cl = t"
        "\<forall>d \<in> set pre. cl_Token d \<noteq> t" by blast
      with False show ?R by (cases pre) auto
    next
      assume ?R
      then obtain pre post where "cls = pre @ cl # post" "cl_Token cl = t"
        "\<forall>d \<in> set pre. cl_Token d \<noteq> t" by blast
      with False show ?L by (intro exI [of _ "c # pre"] exI [of _ post]) simp
    qed
    with False Cons show ?thesis by simp
  qed
qed

lemma find_token_None: "find_token cls t = None \<longleftrightarrow> (\<forall>cl \<in> set cls. cl_Token cl \<noteq> t)"
  by (induction cls) auto

lemma TokenToClient_member:
  "TokenToClient c t = Some cl \<Longrightarrow> cl \<in> set (cfg_Clients c) \<and> cl_Token cl = t"
  by (auto simp: TokenToClient_def find_token_Some)

lemma TokenToClient_empty: "config_ok c \<Longrightarrow> TokenToClient c [] = None"
  by (auto simp: TokenToClient_def find_token_None config_ok_def)

section \<open>Properties\<close>

text \<open>What must be set, and the configuration with the three defaults filled in.\<close>

definition config_required :: "Config \<Rightarrow> bool" where
  "config_required c \<longleftrightarrow>
     cfg_Listen c \<noteq> [] \<and> tg_APIID (cfg_Telegram c) \<noteq> 0 \<and> tg_APIHash (cfg_Telegram c) \<noteq> []
   \<and> tg_SessionDir (cfg_Telegram c) \<noteq> [] \<and> cfg_Clients c \<noteq> []
   \<and> (\<forall>cl \<in> set (cfg_Clients c). cl_Token cl \<noteq> [])"

definition config_defaults :: "Config \<Rightarrow> Config" where
  "config_defaults c =
     c\<lparr>cfg_Media :=
         \<lparr>media_CacheDir = (if media_CacheDir (cfg_Media c) = [] then ''./data/media''
                            else media_CacheDir (cfg_Media c)),
          media_MaxBytes = (if media_MaxBytes (cfg_Media c) = 0 then 100 * 1024 * 1024
                            else media_MaxBytes (cfg_Media c))\<rparr>,
       cfg_LogLevel := (if cfg_LogLevel c = [] then ''info'' else cfg_LogLevel c)\<rparr>"

lemma validate_iff: "validate c = Inr c' \<longleftrightarrow> config_required c \<and> c' = config_defaults c"
proof -
  have "validate c = (if config_required c then Inr (config_defaults c) else validate c)"
    by (cases c; cases "cfg_Media c")
      (simp add: validate_def config_required_def config_defaults_def check_tokens_None [THEN iffD2]
        default_max_bytes Let_def)
  moreover have "\<not> config_required c \<Longrightarrow> validate c \<noteq> Inr c'"
    by (auto simp: validate_def config_required_def check_tokens_None split: option.splits)
  ultimately show ?thesis by (metis sum.inject(2))
qed

text \<open>
  C26: \<open>Load\<close> succeeds exactly when the file can be read and parsed and every required setting
  is present (address, API credentials, session directory, at least one client, no empty
  token); the result is the parsed configuration with only the cache directory, the cache
  size (100 MiB) and the log level defaulted.
\<close>

theorem load_spec:
  "Load file unmarshal = Inr c' \<longleftrightarrow>
     (\<exists>data c. file = Inr data \<and> unmarshal data = Inr c \<and> config_required c \<and> c' = config_defaults c)"
  by (auto simp: Load_def validate_iff split: sum.splits)

end
