(* ===== verification/Broker.thy ===== *)
theory Broker
  imports Prelude "HOL-Library.AList" "HOL-Library.Sublist"
begin

text \<open>
  The event broker of \<open>internal/bridge/updates.go\<close>: \<open>newBroker\<close>, \<open>Subscribe\<close> with the
  unsubscribe function it returns, and \<open>Publish\<close>. Channels live in a store, since the
  broker's map and the subscriber share them; the map is an association list whose order
  stands for the unspecified order in which Go ranges over a map. \<open>Subscribe\<close> takes its number
  and makes the channel before it takes the lock, so it is two steps.
\<close>

section \<open>State and operations\<close>

record 'e broker =
  br_nextID :: u64
  br_subs :: "(u64 \<times> nat) list"
  br_bufSize :: nat
  br_chans :: "nat \<rightharpoonup> 'e chan"
  br_fresh :: nat

definition newBroker :: "nat \<Rightarrow> 'e broker" where
  "newBroker bufSize =
     \<lparr>br_nextID = 0, br_subs = [], br_bufSize = bufSize, br_chans = Map.empty, br_fresh = 0\<rparr>"

text \<open>The first half of \<open>Subscribe\<close>: \<open>make(chan Event, b.bufSize)\<close> and \<open>nextID.Add(1)\<close>.\<close>

definition subscribe_alloc :: "'e broker \<Rightarrow> (u64 \<times> nat) \<times> 'e broker" where
  "subscribe_alloc b =
     (let ref = br_fresh b; sid = br_nextID b + 1
      in ((sid, ref),
          b\<lparr>br_nextID := sid, br_fresh := Suc ref,
            br_chans := (br_chans b)(ref \<mapsto> make_chan (br_bufSize b))\<rparr>))"

text \<open>The second half, under the lock: \<open>b.subs[id] = ch\<close>.\<close>

definition subscribe_insert :: "u64 \<times> nat \<Rightarrow> 'e broker \<Rightarrow> 'e broker" where
  "subscribe_insert s b = b\<lparr>br_subs := AList.update (fst s) (snd s) (br_subs b)\<rparr>"

text \<open>The function \<open>Subscribe\<close> returns: closes the channel once, does nothing afterwards.\<close>

definition unsubscribe :: "u64 \<Rightarrow> 'e broker \<Rightarrow> chan_panic + 'e broker" where
  "unsubscribe sid b =
     (case map_of (br_subs b) sid of
        None \<Rightarrow> Inr b
      | Some ref \<Rightarrow>
          (let b1 = b\<lparr>br_subs := AList.delete sid (br_subs b)\<rparr> in
           case br_chans b ref of
             None \<Rightarrow> Inl CloseOfClosed
           | Some c \<Rightarrow>
               (case chan_close c of
                  Inl p \<Rightarrow> Inl p
                | Inr c' \<Rightarrow> Inr (b1\<lparr>br_chans := (br_chans b1)(ref \<mapsto> c')\<rparr>))))"

text \<open>\<open>Publish\<close>: a non-blocking send to every subscriber, in the order of the range loop.\<close>

fun publish_loop :: "(u64 \<times> nat) list \<Rightarrow> 'e \<Rightarrow> (nat \<rightharpoonup> 'e chan) \<Rightarrow> chan_panic + (nat \<rightharpoonup> 'e chan)" where
  "publish_loop [] e cs = Inr cs"
| "publish_loop ((sid, ref) # subs) e cs =
     (case cs ref of
        None \<Rightarrow> publish_loop subs e cs
      | Some c \<Rightarrow>
          (case chan_try_send c e of
             Inl p \<Rightarrow> Inl p
           | Inr (_, c') \<Rightarrow> publish_loop subs e (cs(ref \<mapsto> c'))))"

definition Publish :: "'e \<Rightarrow> 'e broker \<Rightarrow> chan_panic + 'e broker" where
  "Publish e b =
     (case publish_loop (br_subs b) e (br_chans b) of
        Inl p \<Rightarrow> Inl p
      | Inr cs \<Rightarrow> Inr (b\<lparr>br_chans := cs\<rparr>))"

text \<open>A subscriber receives from its channel.\<close>

definition sub_recv :: "nat \<Rightarrow> 'e broker \<Rightarrow> ('e option \<times> 'e broker) option" where
  "sub_recv ref b =
     (case br_chans b ref of
        None \<Rightarrow> None
      | Some c \<Rightarrow>
          (case chan_recv c of
             None \<Rightarrow> None
           | Some (v, c') \<Rightarrow> Some (v, b\<lparr>br_chans := (br_chans b)(ref \<mapsto> c')\<rparr>)))"

section \<open>What one publication does\<close>

definition open_chan :: "(nat \<rightharpoonup> 'e chan) \<Rightarrow> nat \<Rightarrow> bool" where
  "open_chan cs ref \<longleftrightarrow> (\<exists>c. cs ref = Some c \<and> \<not> ch_closed c)"

text \<open>The channel after one event was offered to it.\<close>

definition offered :: "'e \<Rightarrow> 'e chan \<Rightarrow> 'e chan" where
  "offered e c = (if length (ch_buf c) < ch_cap c then c\<lparr>ch_buf := ch_buf c @ [e]\<rparr> else c)"

lemma offered_fields [simp]:
  "ch_cap (offered e c) = ch_cap c" "ch_closed (offered e c) = ch_closed c"
  "ch_buf (offered e c) = (if length (ch_buf c) < ch_cap c then ch_buf c @ [e] else ch_buf c)"
  by (simp_all add: offered_def)

lemma try_send_offered:
  "\<not> ch_closed c \<Longrightarrow> chan_try_send c e = Inr (length (ch_buf c) < ch_cap c, offered e c)"
  by (simp add: chan_try_send_def offered_def)

lemma publish_loop_eq:
  "distinct (map snd subs) \<Longrightarrow> \<forall>ref \<in> snd ` set subs. open_chan cs ref \<Longrightarrow>
   publish_loop subs e cs =
     Inr (\<lambda>ref. if ref \<in> snd ` set subs then map_option (offered e) (cs ref) else cs ref)"
proof (induction subs arbitrary: cs)
  case Nil
  then show ?case by simp
next
  case (Cons s subs)
  obtain sid ref where s: "s = (sid, ref)" by (cases s) auto
  from Cons.prems(2) obtain c where c: "cs ref = Some c" "\<not> ch_closed c"
    by (auto simp: open_chan_def s)
  note send = try_send_offered [OF c(2), of e]
  let ?cs = "cs(ref \<mapsto> offered e c)"
  have "\<forall>r \<in> snd ` set subs. open_chan ?cs r"
    using Cons.prems c by (auto simp: open_chan_def s)
  moreover have "distinct (map snd subs)" using Cons.prems(1) by simp
  ultimately have "publish_loop subs e ?cs =
      Inr (\<lambda>r. if r \<in> snd ` set subs then map_option (offered e) (?cs r) else ?cs r)"
    by (intro Cons.IH)
  moreover have "ref \<notin> snd ` set subs" using Cons.prems(1) s by simp
  ultimately show ?case using c send by (auto simp: s fun_eq_iff)
qed

section \<open>The broker with its subscribers\<close>

text \<open>
  The system: the broker, the subscriptions that have their number but are not in the map yet,
  and, as ghost state, the calls of \<open>Subscribe\<close>, the events published so far and the values each
  channel has handed out.
\<close>

record 'e broker_sys =
  bs_broker :: "'e broker"
  bs_pending :: "(u64 \<times> nat) list"
  bs_calls :: nat
  bs_published :: "'e list"
  bs_received :: "nat \<Rightarrow> 'e list"

definition sys_start :: "nat \<Rightarrow> 'e broker_sys" where
  "sys_start bufSize =
     \<lparr>bs_broker = newBroker bufSize, bs_pending = [], bs_calls = 0, bs_published = [], bs_received = (\<lambda>_. [])\<rparr>"

inductive broker_step :: "'e broker_sys \<Rightarrow> 'e broker_sys \<Rightarrow> bool" where
  alloc:
    "subscribe_alloc (bs_broker s) = (p, b') \<Longrightarrow>
     broker_step s (s\<lparr>bs_broker := b', bs_pending := p # bs_pending s, bs_calls := Suc (bs_calls s)\<rparr>)"
| insert:
    "bs_pending s = ps @ p # qs \<Longrightarrow>
     broker_step s (s\<lparr>bs_broker := subscribe_insert p (bs_broker s), bs_pending := ps @ qs\<rparr>)"
| unsub:
    "unsubscribe sid (bs_broker s) = Inr b' \<Longrightarrow> broker_step s (s\<lparr>bs_broker := b'\<rparr>)"
| publish:
    "Publish e (bs_broker s) = Inr b' \<Longrightarrow>
     broker_step s (s\<lparr>bs_broker := b', bs_published := bs_published s @ [e]\<rparr>)"
| recv:
    "sub_recv ref (bs_broker s) = Some (Some v, b') \<Longrightarrow>
     broker_step s (s\<lparr>bs_broker := b',
       bs_received := (bs_received s)(ref := bs_received s ref @ [v])\<rparr>)"

text \<open>The states reached from a new broker with buffers of size \<open>m\<close>.\<close>

inductive broker_reach :: "nat \<Rightarrow> 'e broker_sys \<Rightarrow> bool" for m where
  start: "broker_reach m (sys_start m)"
| step: "broker_reach m s \<Longrightarrow> broker_step s t \<Longrightarrow> broker_reach m t"

lemma broker_stepE:
  assumes "broker_step s t"
  obtains (alloc) p b' where
      "t = s\<lparr>bs_broker := b', bs_pending := p # bs_pending s, bs_calls := Suc (bs_calls s)\<rparr>"
      "subscribe_alloc (bs_broker s) = (p, b')"
  | (insert) ps p qs where
      "t = s\<lparr>bs_broker := subscribe_insert p (bs_broker s), bs_pending := ps @ qs\<rparr>"
      "bs_pending s = ps @ p # qs"
  | (unsub) sid b' where
      "t = s\<lparr>bs_broker := b'\<rparr>" "unsubscribe sid (bs_broker s) = Inr b'"
  | (publish) e b' where
      "t = s\<lparr>bs_broker := b', bs_published := bs_published s @ [e]\<rparr>"
      "Publish e (bs_broker s) = Inr b'"
  | (recv) ref v b' where
      "t = s\<lparr>bs_broker := b', bs_received := (bs_received s)(ref := bs_received s ref @ [v])\<rparr>"
      "sub_recv ref (bs_broker s) = Some (Some v, b')"
  using assms by (cases rule: broker_step.cases) blast+

text \<open>Every subscription, in the map or about to be, has a number of its own and an open channel.\<close>

definition all_subs :: "'e broker_sys \<Rightarrow> (u64 \<times> nat) list" where
  "all_subs s = br_subs (bs_broker s) @ bs_pending s"

definition sub_ok :: "'e broker_sys \<Rightarrow> u64 \<times> nat \<Rightarrow> bool" where
  "sub_ok s p \<longleftrightarrow>
     (\<exists>k. 1 \<le> k \<and> k \<le> bs_calls s \<and> fst p = word_of_nat k) \<and> open_chan (br_chans (bs_broker s)) (snd p)"

definition chans_ok :: "nat \<Rightarrow> 'e broker \<Rightarrow> bool" where
  "chans_ok m b \<longleftrightarrow>
     (\<forall>ref c. br_chans b ref = Some c \<longrightarrow> ref < br_fresh b \<and> ch_cap c = m \<and> chan_ok c)"

definition broker_inv :: "nat \<Rightarrow> 'e broker_sys \<Rightarrow> bool" where
  "broker_inv m s \<longleftrightarrow>
     br_bufSize (bs_broker s) = m \<and> br_nextID (bs_broker s) = word_of_nat (bs_calls s)
   \<and> distinct (map fst (all_subs s)) \<and> distinct (map snd (all_subs s))
   \<and> (\<forall>p \<in> set (all_subs s). sub_ok s p) \<and> chans_ok m (bs_broker s)"

lemma subs_update_fresh:
  "sid \<notin> fst ` set l \<Longrightarrow> AList.update sid ref l = l @ [(sid, ref)]"
  by (induction l) auto

lemma subs_delete: "AList.delete sid l = filter (\<lambda>p. fst p \<noteq> sid) l"
  by (auto simp: AList.delete_eq case_prod_beta' intro: filter_cong)

lemma word_of_nat_fresh:
  assumes "n < 2 ^ 64 - 1" and "k \<le> n"
  shows "(word_of_nat k :: u64) \<noteq> word_of_nat (Suc n)"
proof
  assume "(word_of_nat k :: u64) = word_of_nat (Suc n)"
  then have "unat (word_of_nat k :: u64) = unat (word_of_nat (Suc n) :: u64)" by simp
  moreover have "unat (word_of_nat k :: u64) = k" using assms by (simp add: unat_of_nat)
  moreover have "unat (word_of_nat (Suc n) :: u64) = Suc n" using assms(1)
    by (simp only: unat_of_nat) simp
  ultimately show False using assms(2) by simp
qed

lemma distinct_map_eq: "distinct (map f l) \<Longrightarrow> x \<in> set l \<Longrightarrow> y \<in> set l \<Longrightarrow> f x = f y \<Longrightarrow> x = y"
  by (auto simp: distinct_map inj_on_def)

lemma chans_okD: "chans_ok m b \<Longrightarrow> br_chans b ref = Some c \<Longrightarrow> ref < br_fresh b \<and> ch_cap c = m \<and> chan_ok c"
  unfolding chans_ok_def by blast

lemma alloc_inv:
  assumes inv: "broker_inv m s" and al: "subscribe_alloc (bs_broker s) = (p, b')"
    and few: "Suc (bs_calls s) < 2 ^ 64"
  shows "broker_inv m (s\<lparr>bs_broker := b', bs_pending := p # bs_pending s, bs_calls := Suc (bs_calls s)\<rparr>)"
    (is "broker_inv m ?t")
proof -
  let ?b = "bs_broker s"
  have p: "p = (br_nextID ?b + 1, br_fresh ?b)"
    and b': "b' = ?b\<lparr>br_nextID := br_nextID ?b + 1, br_fresh := Suc (br_fresh ?b),
              br_chans := (br_chans ?b)(br_fresh ?b \<mapsto> make_chan (br_bufSize ?b))\<rparr>"
    using al by (simp_all add: subscribe_alloc_def Let_def)
  have nid: "br_nextID ?b + 1 = word_of_nat (Suc (bs_calls s))" using inv by (simp add: broker_inv_def)
  have subs: "\<And>q. q \<in> set (all_subs s) \<Longrightarrow> sub_ok s q" using inv by (simp add: broker_inv_def)
  have cs: "chans_ok m ?b" using inv by (simp add: broker_inv_def)
  have "fst q \<noteq> fst p" if q: "q \<in> set (all_subs s)" for q
  proof -
    obtain k where "k \<le> bs_calls s" "fst q = word_of_nat k" using subs [OF q] unfolding sub_ok_def by blast
    with few show ?thesis by (simp only: p fst_conv nid) (rule word_of_nat_fresh, simp_all)
  qed
  moreover have "snd q < br_fresh ?b" if q: "q \<in> set (all_subs s)" for q
    using subs [OF q] chans_okD [OF cs] by (auto simp: sub_ok_def open_chan_def)
  ultimately have fresh: "fst p \<notin> fst ` set (all_subs s)" "snd p \<notin> snd ` set (all_subs s)"
    by (auto simp: p) fastforce+
  have all: "all_subs ?t = br_subs ?b @ p # bs_pending s" by (simp add: all_subs_def b')
  have "distinct (map fst (br_subs ?b @ bs_pending s))" "distinct (map snd (br_subs ?b @ bs_pending s))"
    using inv by (simp_all add: broker_inv_def all_subs_def)
  then have "distinct (map fst (br_subs ?b @ p # bs_pending s))" "distinct (map snd (br_subs ?b @ p # bs_pending s))"
    using fresh by (auto simp: all_subs_def)
  then have "distinct (map fst (all_subs ?t))" "distinct (map snd (all_subs ?t))" by (simp_all only: all)
  moreover have "sub_ok ?t q" if "q \<in> set (all_subs ?t)" for q
  proof (cases "q = p")
    case True
    have "1 \<le> Suc (bs_calls s) \<and> Suc (bs_calls s) \<le> bs_calls ?t \<and> fst p = word_of_nat (Suc (bs_calls s))"
      by (simp add: p nid)
    then show ?thesis using True unfolding sub_ok_def
      by (auto simp: b' p open_chan_def make_chan_def simp del: of_nat_Suc)
  next
    case False
    from that have "q \<in> set (br_subs ?b @ p # bs_pending s)" by (simp only: all)
    with False have q: "q \<in> set (all_subs s)" by (auto simp: all_subs_def)
    obtain k where k: "1 \<le> k" "k \<le> bs_calls s" "fst q = word_of_nat k"
      and op: "open_chan (br_chans ?b) (snd q)" using subs [OF q] unfolding sub_ok_def by blast
    have "k \<le> bs_calls ?t" using k(2) by simp
    moreover have "open_chan (br_chans (bs_broker ?t)) (snd q)"
      using op by (auto simp: b' open_chan_def make_chan_def)
    ultimately show ?thesis using k unfolding sub_ok_def by blast
  qed
  moreover have "chans_ok m b'"
    using cs inv by (auto simp: chans_ok_def b' less_Suc_eq broker_inv_def) (simp_all add: make_chan_def)
  ultimately show ?thesis
    using inv nid unfolding broker_inv_def by (simp add: b')
qed

lemma insert_inv:
  assumes inv: "broker_inv m s" and pend: "bs_pending s = ps @ p # qs"
  shows "broker_inv m (s\<lparr>bs_broker := subscribe_insert p (bs_broker s), bs_pending := ps @ qs\<rparr>)"
    (is "broker_inv m ?t")
proof -
  have dis: "distinct (map fst (all_subs s))" "distinct (map snd (all_subs s))"
    using inv by (simp_all add: broker_inv_def)
  then have "fst p \<notin> fst ` set (br_subs (bs_broker s))" by (auto simp: all_subs_def pend)
  then have b: "subscribe_insert p (bs_broker s) = (bs_broker s)\<lparr>br_subs := br_subs (bs_broker s) @ [p]\<rparr>"
    by (simp add: subscribe_insert_def subs_update_fresh)
  have all: "all_subs ?t = br_subs (bs_broker s) @ p # ps @ qs" by (simp add: all_subs_def b)
  have "all_subs s = br_subs (bs_broker s) @ ps @ p # qs" by (simp add: all_subs_def pend)
  with dis have "distinct (map fst (br_subs (bs_broker s) @ p # ps @ qs))"
    "distinct (map snd (br_subs (bs_broker s) @ p # ps @ qs))"
    and same: "set (all_subs ?t) = set (all_subs s)"
    by (auto simp: all)
  then have "distinct (map fst (all_subs ?t))" "distinct (map snd (all_subs ?t))" by (simp_all only: all)
  moreover note same
  moreover have "sub_ok ?t q = sub_ok s q" for q by (simp add: sub_ok_def b)
  ultimately show ?thesis using inv unfolding broker_inv_def chans_ok_def by (simp add: b)
qed

text \<open>Operations that only replace channels.\<close>

lemma chans_inv:
  assumes inv: "broker_inv m s"
    and t: "bs_broker t = (bs_broker s)\<lparr>br_chans := cs\<rparr>" "bs_pending t = bs_pending s" "bs_calls t = bs_calls s"
    and keep: "\<And>ref c'. cs ref = Some c' \<Longrightarrow>
      (\<exists>c. br_chans (bs_broker s) ref = Some c \<and> ch_cap c' = ch_cap c \<and> (chan_ok c \<longrightarrow> chan_ok c'))"
    and opn: "\<And>p. p \<in> set (all_subs s) \<Longrightarrow> open_chan cs (snd p)"
  shows "broker_inv m t"
proof -
  have all: "all_subs t = all_subs s" by (simp add: all_subs_def t)
  have "chans_ok m (bs_broker t)"
    unfolding chans_ok_def t
  proof (intro allI impI)
    fix ref c' assume "br_chans (bs_broker s\<lparr>br_chans := cs\<rparr>) ref = Some c'"
    then obtain c where "br_chans (bs_broker s) ref = Some c" "ch_cap c' = ch_cap c" "chan_ok c \<longrightarrow> chan_ok c'"
      using keep [of ref c'] by auto
    moreover have "chans_ok m (bs_broker s)" using inv by (simp add: broker_inv_def)
    ultimately show "ref < br_fresh (bs_broker s\<lparr>br_chans := cs\<rparr>) \<and> ch_cap c' = m \<and> chan_ok c'"
      using chans_okD by fastforce
  qed
  moreover have "sub_ok t p" if "p \<in> set (all_subs s)" for p
  proof -
    have "sub_ok s p" using inv that by (simp add: broker_inv_def)
    then show ?thesis using opn [OF that] by (simp add: sub_ok_def t)
  qed
  ultimately show ?thesis using inv by (simp add: broker_inv_def all) (simp add: t)
qed

lemma offered_ok: "chan_ok c \<Longrightarrow> chan_ok (offered e c)"
  by (simp add: chan_ok_def)

text \<open>With the invariant, \<open>Publish\<close> offers the event to each subscriber exactly once.\<close>

lemma Publish_eq:
  assumes "distinct (map snd (br_subs b))" and "\<And>p. p \<in> set (br_subs b) \<Longrightarrow> open_chan (br_chans b) (snd p)"
  shows "Publish e b = Inr (b\<lparr>br_chans :=
    (\<lambda>ref. if ref \<in> snd ` set (br_subs b) then map_option (offered e) (br_chans b ref) else br_chans b ref)\<rparr>)"
  using publish_loop_eq [of "br_subs b" "br_chans b" e] assms by (simp add: Publish_def)

lemma inv_Publish:
  assumes "broker_inv m s"
  shows "Publish e (bs_broker s) = Inr ((bs_broker s)\<lparr>br_chans :=
    (\<lambda>ref. if ref \<in> snd ` set (br_subs (bs_broker s))
           then map_option (offered e) (br_chans (bs_broker s) ref) else br_chans (bs_broker s) ref)\<rparr>)"
  by (rule Publish_eq) (use assms in \<open>auto simp: broker_inv_def all_subs_def sub_ok_def\<close>)

lemma publish_inv:
  assumes inv: "broker_inv m s" and pub: "Publish e (bs_broker s) = Inr b'"
  shows "broker_inv m (s\<lparr>bs_broker := b', bs_published := l\<rparr>)"
proof (rule chans_inv [OF inv])
  let ?cs = "\<lambda>ref. if ref \<in> snd ` set (br_subs (bs_broker s))
           then map_option (offered e) (br_chans (bs_broker s) ref) else br_chans (bs_broker s) ref"
  show "bs_broker (s\<lparr>bs_broker := b', bs_published := l\<rparr>) = (bs_broker s)\<lparr>br_chans := ?cs\<rparr>"
    using inv_Publish [OF inv, of e] pub by simp
  fix ref c' assume "?cs ref = Some c'"
  then show "\<exists>c. br_chans (bs_broker s) ref = Some c \<and> ch_cap c' = ch_cap c \<and> (chan_ok c \<longrightarrow> chan_ok c')"
    by (auto simp: offered_ok split: if_splits)
next
  let ?cs = "\<lambda>ref. if ref \<in> snd ` set (br_subs (bs_broker s))
           then map_option (offered e) (br_chans (bs_broker s) ref) else br_chans (bs_broker s) ref"
  fix p assume "p \<in> set (all_subs s)"
  then have "open_chan (br_chans (bs_broker s)) (snd p)" using inv by (simp add: broker_inv_def sub_ok_def)
  then show "open_chan ?cs (snd p)" by (auto simp: open_chan_def)
qed simp_all

lemma recv_inv:
  assumes inv: "broker_inv m s" and rc: "sub_recv ref (bs_broker s) = Some (v, b')"
  shows "broker_inv m (s\<lparr>bs_broker := b', bs_received := g\<rparr>)"
proof -
  obtain c c' where c: "br_chans (bs_broker s) ref = Some c" "chan_recv c = Some (v, c')"
    and b': "b' = (bs_broker s)\<lparr>br_chans := (br_chans (bs_broker s))(ref \<mapsto> c')\<rparr>"
    using rc by (auto simp: sub_recv_def split: option.splits)
  have c': "ch_cap c' = ch_cap c" "ch_closed c' = ch_closed c" "chan_ok c \<longrightarrow> chan_ok c'"
    using c(2) by (auto simp: chan_recv_def chan_ok_def split: list.splits if_splits)
  show ?thesis
  proof (rule chans_inv [OF inv])
    show "bs_broker (s\<lparr>bs_broker := b', bs_received := g\<rparr>)
        = (bs_broker s)\<lparr>br_chans := (br_chans (bs_broker s))(ref \<mapsto> c')\<rparr>" by (simp add: b')
    fix p assume "p \<in> set (all_subs s)"
    then have "open_chan (br_chans (bs_broker s)) (snd p)" using inv by (simp add: broker_inv_def sub_ok_def)
    then show "open_chan ((br_chans (bs_broker s))(ref \<mapsto> c')) (snd p)"
      using c c' by (auto simp: open_chan_def)
  qed (use c c' in \<open>auto split: if_splits\<close>)
qed

text \<open>With the invariant, unsubscribing closes the channel of a subscriber and never fails.\<close>

lemma inv_unsubscribe:
  assumes inv: "broker_inv m s"
  shows "unsubscribe sid (bs_broker s) =
    (case map_of (br_subs (bs_broker s)) sid of
       None \<Rightarrow> Inr (bs_broker s)
     | Some ref \<Rightarrow> Inr ((bs_broker s)\<lparr>br_subs := filter (\<lambda>p. fst p \<noteq> sid) (br_subs (bs_broker s)),
         br_chans := (br_chans (bs_broker s))(ref := map_option (\<lambda>c. c\<lparr>ch_closed := True\<rparr>) (br_chans (bs_broker s) ref))\<rparr>))"
proof (cases "map_of (br_subs (bs_broker s)) sid")
  case None
  then show ?thesis by (simp add: unsubscribe_def)
next
  case (Some ref)
  then have "(sid, ref) \<in> set (all_subs s)" by (auto simp: all_subs_def dest: map_of_SomeD)
  then have "open_chan (br_chans (bs_broker s)) ref" using inv by (auto simp: broker_inv_def sub_ok_def)
  with Some show ?thesis
    by (auto simp: unsubscribe_def open_chan_def chan_close_def subs_delete Let_def)
qed

lemma unsub_inv:
  assumes inv: "broker_inv m s" and un: "unsubscribe sid (bs_broker s) = Inr b'"
  shows "broker_inv m (s\<lparr>bs_broker := b'\<rparr>)" (is "broker_inv m ?t")
proof (cases "map_of (br_subs (bs_broker s)) sid")
  case None
  with un have "b' = bs_broker s" by (simp add: unsubscribe_def)
  with inv show ?thesis by simp
next
  case (Some ref)
  let ?b = "bs_broker s"
  have b': "b' = ?b\<lparr>br_subs := filter (\<lambda>p. fst p \<noteq> sid) (br_subs ?b),
         br_chans := (br_chans ?b)(ref := map_option (\<lambda>c. c\<lparr>ch_closed := True\<rparr>) (br_chans ?b ref))\<rparr>"
    using inv_unsubscribe [OF inv, of sid] un Some by simp
  have mem: "(sid, ref) \<in> set (br_subs ?b)" using Some by (rule map_of_SomeD)
  have dis: "distinct (map fst (br_subs ?b @ bs_pending s))" "distinct (map snd (br_subs ?b @ bs_pending s))"
    using inv by (simp_all add: broker_inv_def all_subs_def)
  have all: "all_subs ?t = filter (\<lambda>p. fst p \<noteq> sid) (br_subs ?b) @ bs_pending s"
    by (simp add: all_subs_def b')
  have other: "q \<in> set (all_subs s) \<and> snd q \<noteq> ref"
    if "q \<in> set (filter (\<lambda>p. fst p \<noteq> sid) (br_subs ?b) @ bs_pending s)" for q
  proof -
    have q: "q \<in> set (br_subs ?b @ bs_pending s)" using that by auto
    have "sid \<in> fst ` set (br_subs ?b)" using mem by force
    then have "sid \<notin> fst ` set (bs_pending s)" using dis(1) by auto
    with that have "fst q \<noteq> sid" by auto
    moreover have "q = (sid, ref)" if "snd q = ref"
      by (rule distinct_map_eq [OF dis(2) q]) (use mem that in simp_all)
    ultimately have "snd q \<noteq> ref" by (metis fst_conv)
    then show ?thesis using q by (auto simp: all_subs_def)
  qed
  have "distinct (map fst (all_subs ?t))" "distinct (map snd (all_subs ?t))"
    unfolding all using dis by (auto simp: distinct_map_filter)
  moreover have "sub_ok ?t q" if "q \<in> set (all_subs ?t)" for q
  proof -
    have q: "q \<in> set (all_subs s)" "snd q \<noteq> ref" using other [of q] that unfolding all by blast+
    then have "sub_ok s q" using inv by (simp add: broker_inv_def)
    with q(2) show ?thesis by (auto simp: sub_ok_def b' open_chan_def)
  qed
  moreover have "chans_ok m b'"
    unfolding chans_ok_def
  proof (intro allI impI)
    fix r c assume c: "br_chans b' r = Some c"
    then obtain c0 where c0: "br_chans ?b r = Some c0" "ch_cap c = ch_cap c0" "chan_ok c = chan_ok c0"
      by (cases "r = ref") (auto simp: b' chan_ok_def)
    then show "r < br_fresh b' \<and> ch_cap c = m \<and> chan_ok c"
      using chans_okD [of m ?b r c0] inv by (simp add: broker_inv_def b')
  qed
  ultimately show ?thesis using inv unfolding broker_inv_def by (simp add: b')
qed

lemma step_inv:
  assumes step: "broker_step s t" and inv: "broker_inv m s" and few: "bs_calls t < 2 ^ 64"
  shows "broker_inv m t"
  using step
proof (cases rule: broker_stepE)
  case (alloc p b')
  then show ?thesis using alloc_inv [OF inv alloc(2)] few by simp
next
  case (insert ps p qs)
  then show ?thesis using insert_inv [OF inv insert(2)] by simp
next
  case (unsub sid b')
  then show ?thesis using unsub_inv [OF inv unsub(2)] by simp
next
  case (publish e b')
  then show ?thesis using publish_inv [OF inv publish(2)] by simp
next
  case (recv ref v b')
  then show ?thesis using recv_inv [OF inv recv(2)] by simp
qed

lemma step_calls: "broker_step s t \<Longrightarrow> bs_calls s \<le> bs_calls t"
  by (erule broker_stepE) simp_all

lemma start_inv: "broker_inv m (sys_start m)"
  by (simp add: broker_inv_def sys_start_def newBroker_def all_subs_def chans_ok_def)

lemma reach_inv: "broker_reach m s \<Longrightarrow> bs_calls s < 2 ^ 64 \<Longrightarrow> broker_inv m s"
proof (induction rule: broker_reach.induct)
  case start
  show ?case by (rule start_inv)
next
  case (step s t)
  have "bs_calls s < 2 ^ 64" using step_calls [OF step.hyps(2)] step.prems by simp
  then show ?case using step_inv [OF step.hyps(2) step.IH step.prems] by simp
qed

section \<open>Order of delivery\<close>

definition buffered :: "'e broker \<Rightarrow> nat \<Rightarrow> 'e list" where
  "buffered b ref = (case br_chans b ref of None \<Rightarrow> [] | Some c \<Rightarrow> ch_buf c)"

definition log_inv :: "'e broker_sys \<Rightarrow> bool" where
  "log_inv s \<longleftrightarrow>
     (\<forall>ref. subseq (bs_received s ref @ buffered (bs_broker s) ref) (bs_published s))"

lemma log_step:
  assumes step: "broker_step s t" and inv: "broker_inv m s" and log: "log_inv s"
  shows "log_inv t"
  using step
proof (cases rule: broker_stepE)
  case (alloc p b')
  have "br_chans (bs_broker s) (br_fresh (bs_broker s)) = None"
    using inv chans_okD [of m "bs_broker s" "br_fresh (bs_broker s)"]
    by (auto simp: broker_inv_def) (metis less_irrefl not_Some_eq)
  then have "buffered b' ref = buffered (bs_broker s) ref" for ref
    using alloc(2) by (auto simp: subscribe_alloc_def buffered_def make_chan_def Let_def)
  with log alloc(1) show ?thesis by (simp add: log_inv_def)
next
  case (insert ps p qs)
  with log show ?thesis by (simp add: log_inv_def buffered_def subscribe_insert_def)
next
  case (unsub sid b')
  have "buffered b' ref = buffered (bs_broker s) ref" for ref
    using inv_unsubscribe [OF inv, of sid] unsub(2)
    by (auto simp: buffered_def split: option.splits if_splits)
  with log unsub(1) show ?thesis by (simp add: log_inv_def)
next
  case (publish e b')
  have "\<exists>l. l \<in> {[], [e]} \<and> buffered b' ref = buffered (bs_broker s) ref @ l" for ref
    using inv_Publish [OF inv, of e] publish(2) by (auto simp: buffered_def split: option.splits)
  note offered_once = this
  have "subseq (bs_received t ref @ buffered (bs_broker t) ref) (bs_published t)" for ref
  proof -
    obtain l where l: "l \<in> {[], [e]}" "buffered b' ref = buffered (bs_broker s) ref @ l"
      using offered_once by blast
    have "subseq l [e]" using l(1) by auto
    moreover have "subseq (bs_received s ref @ buffered (bs_broker s) ref) (bs_published s)"
      using log by (simp add: log_inv_def)
    ultimately have "subseq ((bs_received s ref @ buffered (bs_broker s) ref) @ l) (bs_published s @ [e])"
      by (intro list_emb_append_mono)
    then show ?thesis by (simp add: publish(1) l(2))
  qed
  then show ?thesis by (simp add: log_inv_def)
next
  case (recv ref v b')
  obtain c c' where c: "br_chans (bs_broker s) ref = Some c" "chan_recv c = Some (Some v, c')"
    and b': "b' = (bs_broker s)\<lparr>br_chans := (br_chans (bs_broker s))(ref \<mapsto> c')\<rparr>"
    using recv(2) by (auto simp: sub_recv_def split: option.splits)
  have "ch_buf c = v # ch_buf c'" using c(2) by (auto simp: chan_recv_def split: list.splits if_splits)
  then have "(bs_received t r) @ buffered (bs_broker t) r = bs_received s r @ buffered (bs_broker s) r" for r
    using recv(1) c(1) by (simp add: buffered_def b')
  with log recv(1) show ?thesis by (simp add: log_inv_def)
qed

lemma reach_log: "broker_reach m s \<Longrightarrow> bs_calls s < 2 ^ 64 \<Longrightarrow> log_inv s"
proof (induction rule: broker_reach.induct)
  case start
  show ?case by (simp add: log_inv_def sys_start_def newBroker_def buffered_def)
next
  case (step s t)
  have few: "bs_calls s < 2 ^ 64" using step_calls [OF step.hyps(2)] step.prems by simp
  with step show ?case using log_step [OF step.hyps(2) reach_inv [OF step.hyps(1) few]] by simp
qed

section \<open>Properties\<close>

text \<open>
  Under any interleaving of up to \<open>2^64 - 1\<close> calls of \<open>Subscribe\<close> with unsubscriptions,
  repeated ones included, publications and receives, no operation panics: \<open>Publish\<close> never
  sends on a closed channel and unsubscribing never closes a channel twice.
\<close>

theorem broker_no_panic:
  assumes "broker_reach m s" and "bs_calls s < 2 ^ 64"
  shows "(\<exists>b'. Publish e (bs_broker s) = Inr b') \<and> (\<exists>b'. unsubscribe sid (bs_broker s) = Inr b')"
proof -
  have inv: "broker_inv m s" using assms by (rule reach_inv)
  show ?thesis
    unfolding inv_Publish [OF inv] inv_unsubscribe [OF inv] by (auto split: option.split)
qed

theorem broker_no_panic_witness:
  "(\<exists>b'. Publish (7 :: nat) (newBroker 64) = Inr b') \<and> (\<exists>b'. unsubscribe 1 (newBroker 64 :: nat broker) = Inr b')"
  using broker_no_panic [OF broker_reach.start [of 64], of "7 :: nat" 1] by (simp add: sys_start_def)

text \<open>
  C31: \<open>Publish\<close> appends the event to the channel of every subscriber whose buffer has room,
  leaves a full one as it is (the event is dropped for that slow consumer only), and changes
  no other channel, no subscription and no number.
\<close>

theorem broker_publish_delivers:
  assumes "broker_reach m s" and "bs_calls s < 2 ^ 64" and "Publish e (bs_broker s) = Inr b'"
  shows "br_subs b' = br_subs (bs_broker s) \<and> br_nextID b' = br_nextID (bs_broker s)
    \<and> (\<forall>sid ref. (sid, ref) \<in> set (br_subs (bs_broker s)) \<longrightarrow>
        buffered b' ref = (if length (buffered (bs_broker s) ref) < m
                           then buffered (bs_broker s) ref @ [e] else buffered (bs_broker s) ref))
    \<and> (\<forall>ref. ref \<notin> snd ` set (br_subs (bs_broker s)) \<longrightarrow> br_chans b' ref = br_chans (bs_broker s) ref)"
proof -
  have inv: "broker_inv m s" using assms(1,2) by (rule reach_inv)
  have b': "b' = (bs_broker s)\<lparr>br_chans :=
    (\<lambda>ref. if ref \<in> snd ` set (br_subs (bs_broker s))
           then map_option (offered e) (br_chans (bs_broker s) ref) else br_chans (bs_broker s) ref)\<rparr>"
    using inv_Publish [OF inv, of e] assms(3) by simp
  have "buffered b' ref = (if length (buffered (bs_broker s) ref) < m
      then buffered (bs_broker s) ref @ [e] else buffered (bs_broker s) ref)"
    if "(sid, ref) \<in> set (br_subs (bs_broker s))" for sid ref
  proof -
    have "sub_ok s (sid, ref)" using inv that by (simp add: broker_inv_def all_subs_def)
    then have "open_chan (br_chans (bs_broker s)) ref" by (simp add: sub_ok_def)
    then obtain c where c: "br_chans (bs_broker s) ref = Some c" by (auto simp: open_chan_def)
    have "chans_ok m (bs_broker s)" using inv by (simp add: broker_inv_def)
    then have "ch_cap c = m" using chans_okD [OF _ c] by blast
    moreover have "ref \<in> snd ` set (br_subs (bs_broker s))" using that by force
    ultimately show ?thesis by (simp add: buffered_def b' c)
  qed
  then show ?thesis by (simp add: b')
qed

lemma reach_one_sub:
  "broker_reach m (\<lparr>bs_broker = \<lparr>br_nextID = 1, br_subs = [(1, 0)], br_bufSize = m,
       br_chans = [0 \<mapsto> make_chan m], br_fresh = 1\<rparr>,
     bs_pending = [], bs_calls = 1, bs_published = [], bs_received = (\<lambda>_. [])\<rparr> :: 'e broker_sys)"
proof -
  let ?b = "\<lparr>br_nextID = 1, br_subs = [], br_bufSize = m, br_chans = [0 \<mapsto> make_chan m], br_fresh = 1\<rparr> :: 'e broker"
  have "subscribe_alloc (bs_broker (sys_start m :: 'e broker_sys)) = ((1, 0), ?b)"
    by (simp add: sys_start_def newBroker_def subscribe_alloc_def)
  from broker_reach.step [OF broker_reach.start broker_step.alloc [OF this]]
  have r: "broker_reach m (\<lparr>bs_broker = ?b, bs_pending = [(1, 0)], bs_calls = 1, bs_published = [],
     bs_received = (\<lambda>_. [])\<rparr> :: 'e broker_sys)" by (simp add: sys_start_def)
  show ?thesis
    using broker_reach.step [OF r broker_step.insert [where ps = "[]" and p = "(1, 0)" and qs = "[]"]]
    by (simp add: subscribe_insert_def)
qed

theorem broker_publish_delivers_witness:
  "\<exists>b'. Publish 7 \<lparr>br_nextID = 1, br_subs = [(1, 0)], br_bufSize = 64,
       br_chans = [0 \<mapsto> make_chan 64], br_fresh = 1\<rparr> = Inr b' \<and> buffered b' 0 = [7 :: nat]"
proof -
  have few: "bs_calls (\<lparr>bs_broker = \<lparr>br_nextID = 1, br_subs = [(1, 0)], br_bufSize = 64,
       br_chans = [0 \<mapsto> make_chan 64], br_fresh = 1\<rparr>,
     bs_pending = [], bs_calls = 1, bs_published = [], bs_received = (\<lambda>_. [])\<rparr> :: nat broker_sys) < 2 ^ 64"
    by simp
  obtain b' where pub: "Publish 7 (\<lparr>br_nextID = 1, br_subs = [(1, 0)], br_bufSize = 64,
       br_chans = [0 \<mapsto> make_chan 64], br_fresh = 1\<rparr> :: nat broker) = Inr b'"
    by (simp add: Publish_def chan_try_send_def make_chan_def)
  then have "buffered b' 0 = [7]"
    using broker_publish_delivers [OF reach_one_sub few, of 7 b'] by (simp add: buffered_def make_chan_def)
  with pub show ?thesis by blast
qed

text \<open>
  The values a subscriber has received, followed by those still in its buffer, are always
  a subsequence of the published events: in publication order, none twice, none invented.
\<close>

theorem broker_fifo:
  assumes "broker_reach m s" and "bs_calls s < 2 ^ 64"
  shows "subseq (bs_received s ref @ buffered (bs_broker s) ref) (bs_published s)"
  using reach_log [OF assms] by (simp add: log_inv_def)

text \<open>One subscriber with a buffer of one: the second of two events is dropped.\<close>

lemma reach_two_events:
  "broker_reach 1 (\<lparr>bs_broker = \<lparr>br_nextID = 1, br_subs = [(1, 0)], br_bufSize = 1,
       br_chans = [0 \<mapsto> \<lparr>ch_cap = 1, ch_buf = [7], ch_closed = False\<rparr>], br_fresh = 1\<rparr>,
     bs_pending = [], bs_calls = 1, bs_published = [7, 8], bs_received = (\<lambda>_. [])\<rparr> :: nat broker_sys)"
proof -
  let ?b = "\<lparr>br_nextID = 1, br_subs = [(1, 0)], br_bufSize = 1,
       br_chans = [0 \<mapsto> \<lparr>ch_cap = 1, ch_buf = [7], ch_closed = False\<rparr>], br_fresh = 1\<rparr> :: nat broker"
  have r: "broker_reach 1 (\<lparr>bs_broker = ?b, bs_pending = [], bs_calls = 1, bs_published = [7],
     bs_received = (\<lambda>_. [])\<rparr> :: nat broker_sys)"
    using broker_reach.step [OF reach_one_sub [of 1] broker_step.publish [where e = 7 and b' = ?b]]
    by (simp add: Publish_def chan_try_send_def make_chan_def)
  show ?thesis
    using broker_reach.step [OF r broker_step.publish [where e = 8 and b' = ?b]]
    by (simp add: Publish_def chan_try_send_def)
qed

theorem broker_fifo_witness: "subseq ([] @ [7 :: nat]) [7, 8]"
  using broker_fifo [OF reach_two_events, of 0] by (simp add: buffered_def)

text \<open>
  The unspecified order in which Go ranges over the map of subscribers does not matter:
  from a reachable state every order of the loop leaves the same channels.
\<close>

theorem broker_publish_any_order:
  assumes "broker_reach m s" and "bs_calls s < 2 ^ 64"
    and "distinct subs" and "set subs = set (br_subs (bs_broker s))"
  shows "publish_loop subs e (br_chans (bs_broker s)) =
         publish_loop (br_subs (bs_broker s)) e (br_chans (bs_broker s))"
proof -
  have inv: "broker_inv m s" using assms(1,2) by (rule reach_inv)
  then have dis: "distinct (map snd (br_subs (bs_broker s)))"
    and opn: "\<forall>ref \<in> snd ` set (br_subs (bs_broker s)). open_chan (br_chans (bs_broker s)) ref"
    by (auto simp: broker_inv_def all_subs_def sub_ok_def)
  from dis have "inj_on snd (set subs)" unfolding assms(4) by (simp add: distinct_map)
  with assms(3) have "distinct (map snd subs)" by (simp add: distinct_map)
  then show ?thesis using publish_loop_eq [OF _ opn [folded assms(4)]] publish_loop_eq [OF dis opn]
    by (simp add: assms(4))
qed

lemma reach_two_subs:
  "broker_reach m (\<lparr>bs_broker = \<lparr>br_nextID = 2, br_subs = [(1, 0), (2, 1)], br_bufSize = m,
       br_chans = [0 \<mapsto> make_chan m, 1 \<mapsto> make_chan m], br_fresh = 2\<rparr>,
     bs_pending = [], bs_calls = 2, bs_published = [], bs_received = (\<lambda>_. [])\<rparr> :: nat broker_sys)"
proof -
  let ?b = "\<lparr>br_nextID = 2, br_subs = [(1, 0)], br_bufSize = m,
       br_chans = [0 \<mapsto> make_chan m, 1 \<mapsto> make_chan m], br_fresh = 2\<rparr> :: nat broker"
  have "subscribe_alloc (\<lparr>br_nextID = 1, br_subs = [(1, 0)], br_bufSize = m,
       br_chans = [0 \<mapsto> make_chan m], br_fresh = 1\<rparr> :: nat broker) = ((2, 1), ?b)"
    by (simp add: subscribe_alloc_def)
  then have r: "broker_reach m (\<lparr>bs_broker = ?b, bs_pending = [(2, 1)], bs_calls = 2, bs_published = [],
     bs_received = (\<lambda>_. [])\<rparr> :: nat broker_sys)"
    using broker_reach.step [OF reach_one_sub [of m] broker_step.alloc [where p = "(2, 1)" and b' = ?b]]
    by (simp flip: numeral_2_eq_2)
  show ?thesis
    using broker_reach.step [OF r broker_step.insert [where ps = "[]" and p = "(2, 1)" and qs = "[]"]]
    by (simp add: subscribe_insert_def)
qed

theorem broker_publish_any_order_witness:
  "publish_loop [(2, 1), (1, 0)] 7 [0 \<mapsto> make_chan 64, 1 \<mapsto> make_chan 64]
   = publish_loop [(1, 0), (2, 1)] (7 :: nat) [0 \<mapsto> make_chan 64, 1 \<mapsto> make_chan 64]"
  using broker_publish_any_order [OF reach_two_subs [of 64], of "[(2, 1), (1, 0)]" 7]
  by (simp add: insert_commute)

end
