(* ===== verification/Tg_Types.thy ===== *)
theory Tg_Types
  imports Prelude
begin

text \<open>
  The values of the Telegram library (\<open>github.com/gotd/td/tg\<close>) that the bridge reads and
  builds. The library is not part of the repository: each type has the fields and the
  constructors the bridge names, and one more constructor for all the others, with the name
  \<open>%T\<close> prints where the bridge reports it. A nil interface is one of the others.
\<close>

section \<open>Peers, users and chats\<close>

datatype Peer = PeerUser i64 | PeerChat i64 | PeerChannel i64 | OtherPeer

datatype InputPeer =
    InputPeerUser i64 i64
  | InputPeerChat i64
  | InputPeerChannel i64 i64

record tgUser =
  usr_ID :: i64
  usr_AccessHash :: i64
  usr_FirstName :: string
  usr_LastName :: string
  usr_Username :: string
  usr_Phone :: string

datatype UserClass = TheUser tgUser | OtherUser

record tgChat =
  grp_ID :: i64
  grp_Title :: string

record tgChannel =
  chn_ID :: i64
  chn_AccessHash :: i64
  chn_Title :: string
  chn_Username :: string

datatype ChatClass = TheChat tgChat | TheChannel tgChannel | OtherChat

section \<open>Media\<close>

datatype PhotoSizeClass =
    PhotoSize string goint goint goint
  | PhotoSizeProgressive string goint goint "goint list"
  | OtherPhotoSize

record tgPhoto =
  pho_ID :: i64
  pho_AccessHash :: i64
  pho_FileReference :: bytes
  pho_Sizes :: "PhotoSizeClass list"

datatype DocumentAttribute = AttributeAudio | AttributeVideo | AttributeSticker | OtherAttribute

record tgDocument =
  doc_MimeType :: string
  doc_Size :: i64
  doc_Attributes :: "DocumentAttribute list"

text \<open>\<open>None\<close>: the photo or document is missing or of the type for an empty one.\<close>

datatype MessageMedia =
    MessageMediaPhoto "tgPhoto option"
  | MessageMediaDocument "tgDocument option"
  | OtherMedia

section \<open>Messages and dialogs\<close>

datatype ReplyHeader = MessageReplyHeader goint | OtherReplyHeader

record tgMessage =
  msg_ID :: goint
  msg_PeerID :: Peer
  msg_FromID :: "Peer option"
  msg_Message :: string
  msg_Date :: goint
  msg_Out :: bool
  msg_ReplyTo :: "ReplyHeader option"
  msg_Media :: "MessageMedia option"

datatype MessageClass = TheMessage tgMessage | OtherMessage

datatype DialogClass = Dialog Peer goint goint | OtherDialog

datatype DialogsResponse =
    MessagesDialogs "DialogClass list" "MessageClass list" "UserClass list" "ChatClass list"
  | MessagesDialogsSlice "DialogClass list" "MessageClass list" "UserClass list" "ChatClass list"
  | OtherDialogs string

datatype HistoryResponse =
    MessagesMessages "MessageClass list" "UserClass list"
  | MessagesMessagesSlice "MessageClass list" "UserClass list"
  | MessagesChannelMessages "MessageClass list" "UserClass list"
  | OtherHistory string

text \<open>The answer to a sent message, and the names that come with an update.\<close>

datatype UpdateClass =
    UpdateNewMessage MessageClass
  | UpdateNewChannelMessage MessageClass
  | UpdateMessageID goint
  | OtherUpdate

datatype UpdatesClass =
    UpdateShortSentMessage goint
  | Updates "UpdateClass list"
  | OtherUpdates

record tgEntities =
  ent_Users :: "i64 \<rightharpoonup> tgUser"
  ent_Chats :: "i64 \<rightharpoonup> tgChat"
  ent_Channels :: "i64 \<rightharpoonup> tgChannel"

end
