(* ===== verification/Base64.thy ===== *)
theory Base64
  imports Crypto
begin

text \<open>
  \<open>base64.RawURLEncoding\<close> of Go's standard library: the URL alphabet, no padding. The
  decoder is the one of \<open>encoding/base64\<close>: it skips line breaks anywhere, ignores the unused
  bits of the last character and reports the offset of the first character it refuses.
\<close>

section \<open>The alphabet\<close>

definition b64_char :: "nat \<Rightarrow> char" where
  "b64_char n =
     (if n < 26 then char_of (65 + n)
      else if n < 52 then char_of (71 + n)
      else if n < 62 then char_of (n - 4)
      else if n = 62 then CHR ''-'' else CHR ''_'')"

definition b64_val :: "char \<Rightarrow> nat option" where
  "b64_val c = (let n = (of_char c :: nat) in
     if 65 \<le> n \<and> n \<le> 90 then Some (n - 65)
     else if 97 \<le> n \<and> n \<le> 122 then Some (n - 71)
     else if 48 \<le> n \<and> n \<le> 57 then Some (n + 4)
     else if n = 45 then Some 62
     else if n = 95 then Some 63
     else None)"

lemma b64_val_char [simp]: "n < 64 \<Longrightarrow> b64_val (b64_char n) = Some n"
  by (auto simp: b64_char_def b64_val_def Let_def)

lemma b64_val_less: "b64_val c = Some n \<Longrightarrow> n < 64"
  by (auto simp: b64_val_def Let_def split: if_splits)

section \<open>Encoding\<close>

definition byte_of_nat :: "nat \<Rightarrow> byte" where
  "byte_of_nat n = word_of_nat n"

fun b64_encode :: "bytes \<Rightarrow> string" where
  "b64_encode [] = []"
| "b64_encode [a] =
     (let v = unat a * 65536 in [b64_char (v div 262144), b64_char (v div 4096 mod 64)])"
| "b64_encode [a, b] =
     (let v = unat a * 65536 + unat b * 256
      in [b64_char (v div 262144), b64_char (v div 4096 mod 64), b64_char (v div 64 mod 64)])"
| "b64_encode (a # b # c # r) =
     (let v = unat a * 65536 + unat b * 256 + unat c
      in b64_char (v div 262144) # b64_char (v div 4096 mod 64) # b64_char (v div 64 mod 64)
         # b64_char (v mod 64) # b64_encode r)"

section \<open>Decoding\<close>

text \<open>The bytes of one quantum of two, three or four sextets.\<close>

fun quantum_bytes :: "nat list \<Rightarrow> bytes" where
  "quantum_bytes [p, q] = [byte_of_nat ((p * 262144 + q * 4096) div 65536)]"
| "quantum_bytes [p, q, r] =
     (let v = p * 262144 + q * 4096 + r * 64
      in [byte_of_nat (v div 65536), byte_of_nat (v div 256 mod 256)])"
| "quantum_bytes [p, q, r, s] =
     (let v = p * 262144 + q * 4096 + r * 64 + s
      in [byte_of_nat (v div 65536), byte_of_nat (v div 256 mod 256), byte_of_nat (v mod 256)])"
| "quantum_bytes _ = []"

text \<open>
  The decoder: \<open>si\<close> is the offset of the next character, \<open>buf\<close> the sextets of the quantum
  begun. The error is \<open>CorruptInputError\<close> with its offset.
\<close>

fun b64_decode_loop :: "nat \<Rightarrow> nat list \<Rightarrow> string \<Rightarrow> nat + bytes" where
  "b64_decode_loop si buf [] =
     (if buf = [] then Inr []
      else if length buf = 1 then Inl (si - 1)
      else Inr (quantum_bytes buf))"
| "b64_decode_loop si buf (c # cs) =
     (case b64_val c of
        Some v \<Rightarrow>
          if length buf = 3 then
            (case b64_decode_loop (Suc si) [] cs of
               Inl e \<Rightarrow> Inl e
             | Inr bs \<Rightarrow> Inr (quantum_bytes (buf @ [v]) @ bs))
          else b64_decode_loop (Suc si) (buf @ [v]) cs
      | None \<Rightarrow>
          if c = CHR 0x0A \<or> c = CHR 0x0D then b64_decode_loop (Suc si) buf cs else Inl si)"

definition b64_decode :: "string \<Rightarrow> nat + bytes" where
  "b64_decode s = b64_decode_loop 0 [] s"

section \<open>Round trip\<close>

lemma byte_nat_bound: "unat (a :: byte) < 256"
  using unsigned_less [of a, where 'a = nat] by simp

lemma byte_of_nat_unat [simp]: "byte_of_nat (unat a) = a"
  by (simp add: byte_of_nat_def)

lemma sextets_join:
  fixes v :: nat
  shows "v div 262144 * 262144 + v div 4096 mod 64 * 4096 + v div 64 mod 64 * 64 + v mod 64 = v"
proof -
  have join: "e * 262144 + p * 4096 + q * 64 + r = a"
    if "a = b * 64 + r" "b = c * 64 + q" "c = e * 64 + p" for a b c e p q r :: nat
    using that by simp
  have d: "v div 4096 = v div 64 div 64" "v div 262144 = v div 64 div 64 div 64"
    by (simp_all add: div_mult2_eq [symmetric])
  show ?thesis unfolding d
    by (rule join [of v "v div 64" _ "v div 64 div 64"]) (simp_all only: div_mult_mod_eq)
qed

lemma octets_split:
  fixes a b c v :: nat
  assumes "b < 256" and "c < 256" and v: "v = a * 65536 + b * 256 + c"
  shows "v div 65536 = a" and "v div 256 mod 256 = b" and "v mod 256 = c"
proof -
  show "v div 65536 = a" using assms by (intro div_nat_eqI) simp_all
  have "v div 256 = a * 256 + b" using assms by (intro div_nat_eqI) simp_all
  then show "v div 256 mod 256 = b" using assms(1) by simp
  have "v = (a * 256 + b) * 256 + c" using v by simp
  then show "v mod 256 = c" using assms(2) by (simp only: mod_mult_self3) simp
qed

lemma sextet_less:
  fixes v :: nat
  assumes "v < 16777216"
  shows "v div 262144 < 64"
  by (rule less_mult_imp_div_less) (use assms in simp)

lemma quantum_4:
  assumes "v = unat (a :: byte) * 65536 + unat (b :: byte) * 256 + unat (c :: byte)"
  shows "quantum_bytes [v div 262144, v div 4096 mod 64, v div 64 mod 64, v mod 64] = [a, b, c]"
  by (simp only: quantum_bytes.simps Let_def sextets_join
      octets_split [OF byte_nat_bound byte_nat_bound assms] byte_of_nat_unat)

lemma quantum_3:
  assumes "v = unat (a :: byte) * 65536 + unat (b :: byte) * 256"
  shows "quantum_bytes [v div 262144, v div 4096 mod 64, v div 64 mod 64] = [a, b]"
proof -
  have "v = 64 * (unat a * 1024 + unat b * 4)" using assms by simp
  then have "v mod 64 = 0" by simp
  then have v: "v div 262144 * 262144 + v div 4096 mod 64 * 4096 + v div 64 mod 64 * 64 = v"
    using sextets_join [of v] by simp
  have "v = unat a * 65536 + unat b * 256 + 0" using assms by simp
  then have "v div 65536 = unat a" "v div 256 mod 256 = unat b"
    by (rule octets_split [OF byte_nat_bound zero_less_numeral])+
  then show ?thesis by (simp only: quantum_bytes.simps Let_def v byte_of_nat_unat)
qed

lemma quantum_2:
  assumes "v = unat (a :: byte) * 65536"
  shows "quantum_bytes [v div 262144, v div 4096 mod 64] = [a]"
proof -
  have "v = 64 * (unat a * 1024)" and q: "v = 64 * 64 * (unat a * 16)" using assms by simp_all
  then have "v mod 64 = 0" "v div 64 mod 64 = 0" by simp_all
  then have v: "v div 262144 * 262144 + v div 4096 mod 64 * 4096 = v"
    using sextets_join [of v] by simp
  have "v div 65536 = unat a" using assms by simp
  then show ?thesis by (simp only: quantum_bytes.simps v byte_of_nat_unat)
qed

lemma b64_decode_encode_loop: "b64_decode_loop si [] (b64_encode bs) = Inr bs"
proof (induction bs arbitrary: si rule: b64_encode.induct)
  case 1
  then show ?case by simp
next
  case (2 a)
  let ?v = "unat a * 65536"
  have "?v div 262144 < 64" using byte_nat_bound [of a] by (intro sextet_less) simp
  then show ?case using quantum_2 [OF refl, of a] by (simp add: Let_def)
next
  case (3 a b)
  let ?v = "unat a * 65536 + unat b * 256"
  have "?v div 262144 < 64"
    using byte_nat_bound [of a] byte_nat_bound [of b] by (intro sextet_less) simp
  then show ?case using quantum_3 [OF refl, of a b] by (simp add: Let_def)
next
  case (4 a b c r)
  let ?v = "unat a * 65536 + unat b * 256 + unat c"
  have "?v div 262144 < 64"
    using byte_nat_bound [of a] byte_nat_bound [of b] byte_nat_bound [of c] by (intro sextet_less) simp
  then show ?case using quantum_4 [OF refl, of a b c] "4.IH" by (simp add: Let_def)
qed

lemma b64_decode_encode [simp]: "b64_decode (b64_encode bs) = Inr bs"
  by (simp add: b64_decode_def b64_decode_encode_loop)

section \<open>What the decoder lets through\<close>

definition is_line_break :: "char \<Rightarrow> bool" where
  "is_line_break c \<longleftrightarrow> c = CHR 0x0A \<or> c = CHR 0x0D"

lemma b64_val_line_break: "is_line_break c \<Longrightarrow> b64_val c = None"
  by (auto simp: is_line_break_def b64_val_def)

text \<open>The steps of the loop, one per kind of character; a result is never an error in between.\<close>

lemma decode_loop_sextet:
  "b64_val c = Some v \<Longrightarrow> length buf \<noteq> 3 \<Longrightarrow>
   b64_decode_loop si buf (c # cs) = b64_decode_loop (Suc si) (buf @ [v]) cs"
  by simp

lemma decode_loop_quantum:
  "b64_val c = Some v \<Longrightarrow> length buf = 3 \<Longrightarrow>
   b64_decode_loop si buf (c # cs) = Inr bs \<longleftrightarrow>
   (\<exists>bs'. b64_decode_loop (Suc si) [] cs = Inr bs' \<and> bs = quantum_bytes (buf @ [v]) @ bs')"
  by (auto split: sum.splits)

lemma decode_loop_break:
  "is_line_break c \<Longrightarrow> b64_decode_loop si buf (c # cs) = b64_decode_loop (Suc si) buf cs"
  by (auto simp: b64_val_line_break is_line_break_def)

lemma decode_loop_refused:
  "b64_val c = None \<Longrightarrow> \<not> is_line_break c \<Longrightarrow> b64_decode_loop si buf (c # cs) = Inl si"
  by (simp add: is_line_break_def)

lemma decode_loop_cases:
  assumes "b64_decode_loop si buf (c # cs) = Inr bs"
  obtains (sextet) v where "b64_val c = Some v" "length buf \<noteq> 3"
      "b64_decode_loop (Suc si) (buf @ [v]) cs = Inr bs"
  | (quantum) v bs' where "b64_val c = Some v" "length buf = 3"
      "b64_decode_loop (Suc si) [] cs = Inr bs'" "bs = quantum_bytes (buf @ [v]) @ bs'"
  | (line_break) "is_line_break c" "b64_decode_loop (Suc si) buf cs = Inr bs"
proof (cases "b64_val c")
  case None
  with assms have "is_line_break c" by (metis decode_loop_refused Inl_Inr_False)
  with assms show ?thesis using line_break by (simp only: decode_loop_break)
next
  case (Some v)
  show ?thesis
  proof (cases "length buf = 3")
    case True
    with assms Some show ?thesis using quantum by (auto simp only: decode_loop_quantum)
  next
    case False
    then show ?thesis using sextet [OF Some] assms decode_loop_sextet [OF Some False, of si cs] by simp
  qed
qed

lemma decode_loop_Nil_Inr:
  "b64_decode_loop si buf [] = Inr bs \<longleftrightarrow>
     (buf = [] \<and> bs = [] \<or> buf \<noteq> [] \<and> length buf \<noteq> 1 \<and> bs = quantum_bytes buf)"
  by auto

declare b64_decode_loop.simps [simp del]

lemma b64_decode_loop_strip:
  "b64_decode_loop si buf s = Inr bs \<Longrightarrow>
   b64_decode_loop sj buf (filter (\<lambda>c. \<not> is_line_break c) s) = Inr bs"
proof (induction s arbitrary: si sj buf bs)
  case Nil
  then show ?case by (simp add: decode_loop_Nil_Inr)
next
  case (Cons c cs)
  from Cons.prems show ?case
  proof (cases rule: decode_loop_cases)
    case (sextet v)
    then have "\<not> is_line_break c" by (auto simp: b64_val_line_break)
    with sextet Cons.IH show ?thesis by (simp add: decode_loop_sextet)
  next
    case (quantum v bs')
    then have "\<not> is_line_break c" by (auto simp: b64_val_line_break)
    with quantum Cons.IH show ?thesis by (simp add: decode_loop_quantum)
  next
    case line_break
    with Cons.IH show ?thesis by simp
  qed
qed

text \<open>The offset only shows in the error, and a line break may be inserted anywhere.\<close>

lemma b64_decode_loop_shift:
  "b64_decode_loop si buf s = Inr bs \<Longrightarrow> b64_decode_loop sj buf s = Inr bs"
proof (induction s arbitrary: si sj buf bs)
  case Nil
  then show ?case by (simp add: decode_loop_Nil_Inr)
next
  case (Cons c cs)
  from Cons.prems show ?case
  proof (cases rule: decode_loop_cases)
    case (sextet v)
    from Cons.IH [OF sextet(3)] sextet(1,2) show ?thesis by (simp add: decode_loop_sextet)
  next
    case (quantum v bs')
    from quantum(3) have "b64_decode_loop (Suc sj) [] cs = Inr bs'" by (rule Cons.IH)
    with quantum(1,2,4) show ?thesis by (simp add: decode_loop_quantum)
  next
    case line_break
    from Cons.IH [OF line_break(2)] line_break(1) show ?thesis by (simp add: decode_loop_break)
  qed
qed

lemma b64_decode_loop_insert:
  assumes "is_line_break nl"
  shows "b64_decode_loop si buf (s @ t) = Inr bs \<Longrightarrow> b64_decode_loop sj buf (s @ nl # t) = Inr bs"
proof (induction s arbitrary: si sj buf bs)
  case Nil
  then have "b64_decode_loop (Suc sj) buf t = Inr bs"
    using b64_decode_loop_shift [of si buf t bs "Suc sj"] by simp
  with assms show ?case by (simp add: decode_loop_break)
next
  case (Cons c s)
  from Cons.prems have "b64_decode_loop si buf (c # s @ t) = Inr bs" by simp
  then show ?case
  proof (cases rule: decode_loop_cases)
    case (sextet v)
    from Cons.IH [OF sextet(3)] sextet(1,2) show ?thesis by (simp add: decode_loop_sextet)
  next
    case (quantum v bs')
    from quantum(3) have "b64_decode_loop (Suc sj) [] (s @ nl # t) = Inr bs'" by (rule Cons.IH)
    with quantum(1,2,4) show ?thesis by (simp add: decode_loop_quantum)
  next
    case line_break
    from Cons.IH [OF line_break(2)] line_break(1) show ?thesis by (simp add: decode_loop_break)
  qed
qed

lemma b64_decode_insert:
  "is_line_break nl \<Longrightarrow> b64_decode (s @ t) = Inr bs \<Longrightarrow> b64_decode (s @ nl # t) = Inr bs"
  unfolding b64_decode_def by (rule b64_decode_loop_insert)

lemma b64_decode_strip:
  "b64_decode s = Inr bs \<Longrightarrow> b64_decode (filter (\<lambda>c. \<not> is_line_break c) s) = Inr bs"
  unfolding b64_decode_def by (rule b64_decode_loop_strip)

end
