(* ===== verification/Media_Id.thy ===== *)
theory Media_Id
  imports Base64 "HOL-Library.Monad_Syntax"
begin

text \<open>
  The signed media identifiers of \<open>internal/bridge/media.go\<close>: \<open>mediaRef\<close>, its binary layout
  (\<open>marshalMediaRef\<close>, \<open>unmarshalMediaRef\<close>) and the opaque identifier handed to clients
  (\<open>encodeMediaID\<close>, \<open>decodeMediaID\<close>). A slice expression out of range panics in Go: the
  functions that slice return an option, \<open>None\<close> for the panic, and never panicking is proved.
\<close>

section \<open>References\<close>

definition mediaKindPhoto :: byte where
  "mediaKindPhoto = 1"

record mediaRef =
  ref_Kind :: byte
  ref_ID :: i64
  ref_AccessHash :: i64
  ref_FileRef :: bytes
  ref_ThumbSize :: string

text \<open>The conversions \<open>uint16(len(...))\<close> and \<open>byte(len(...))\<close> keep the low bits only.\<close>

definition marshalMediaRef :: "mediaRef \<Rightarrow> bytes" where
  "marshalMediaRef r =
     [ref_Kind r] @ put_uint64 (ref_ID r) @ put_uint64 (ref_AccessHash r)
     @ put_uint16 (word_of_nat (length (ref_FileRef r))) @ ref_FileRef r
     @ [word_of_nat (length (ref_ThumbSize r))] @ bytes_of_string (ref_ThumbSize r)"

text \<open>Slice expressions: \<open>b[0]\<close>, \<open>b[n:]\<close> and \<open>b[:n]\<close>.\<close>

definition byte_at_0 :: "bytes \<Rightarrow> byte option" where
  [go_defs]: "byte_at_0 b = (case b of [] \<Rightarrow> None | x # _ \<Rightarrow> Some x)"

definition slice_from :: "bytes \<Rightarrow> nat \<Rightarrow> bytes option" where
  [go_defs]: "slice_from b n = (if n \<le> length b then Some (drop n b) else None)"

definition slice_to :: "bytes \<Rightarrow> nat \<Rightarrow> bytes option" where
  [go_defs]: "slice_to b n = (if n \<le> length b then Some (take n b) else None)"

definition unmarshalMediaRef :: "bytes \<Rightarrow> mediaRef result option" where
  "unmarshalMediaRef b0 =
     (if length b0 < 1 + 8 + 8 + 2 then Some (Inl (ErrNew ''payload truncated''))
      else do {
        kind \<leftarrow> byte_at_0 b0;
        b1 \<leftarrow> slice_from b0 1;
        rid \<leftarrow> uint64_be b1;
        b2 \<leftarrow> slice_from b1 8;
        hash \<leftarrow> uint64_be b2;
        b3 \<leftarrow> slice_from b2 8;
        frLen \<leftarrow> map_option unat (uint16_be b3);
        b4 \<leftarrow> slice_from b3 2;
        if length b4 < frLen + 1 then Some (Inl (ErrNew ''payload truncated (fileref)''))
        else do {
          fileRef \<leftarrow> slice_to b4 frLen;
          b5 \<leftarrow> slice_from b4 frLen;
          szLen \<leftarrow> map_option unat (byte_at_0 b5);
          b6 \<leftarrow> slice_from b5 1;
          if length b6 < szLen then Some (Inl (ErrNew ''payload truncated (size)''))
          else do {
            size \<leftarrow> slice_to b6 szLen;
            Some (Inr \<lparr>ref_Kind = kind, ref_ID = rid, ref_AccessHash = hash,
                       ref_FileRef = fileRef, ref_ThumbSize = string_of_bytes size\<rparr>)
          }
        }
      })"

section \<open>Identifiers\<close>

definition mediaTagSize :: nat where
  "mediaTagSize = 16"

definition media_tag :: "bytes \<Rightarrow> bytes \<Rightarrow> bytes" where
  "media_tag key payload = take mediaTagSize (hmac_sha256 key payload)"

definition encodeMediaID :: "bytes \<Rightarrow> mediaRef \<Rightarrow> string" where
  "encodeMediaID key ref =
     (let payload = marshalMediaRef ref; tag = media_tag key payload
      in b64_encode (payload @ tag))"

definition decodeMediaID :: "bytes \<Rightarrow> string \<Rightarrow> mediaRef result option" where
  "decodeMediaID key s =
     (case b64_decode s of
        Inl off \<Rightarrow> Some (Inl (ErrWrap ''decode media id''
                     (ErrNew (''illegal base64 data at input byte '' @ print_nat off))))
      | Inr raw \<Rightarrow>
          if length raw < mediaTagSize + 1 then Some (Inl (ErrNew ''media id too short''))
          else
            (let payload = take (length raw - mediaTagSize) raw;
                 tag = drop (length raw - mediaTagSize) raw
             in if media_tag key payload \<noteq> tag
                then Some (Inl (ErrNew ''media id signature mismatch''))
                else unmarshalMediaRef payload))"

section \<open>Messages with a tag of constant size\<close>

text \<open>
  What the identifiers rely on of the message authentication code: its length. Splitting a
  slice that many bytes from its end undoes appending the tag.
\<close>

locale tagged_message =
  fixes tag :: "bytes \<Rightarrow> bytes" and n :: nat
  assumes tag_length: "length (tag p) = n"
begin

lemma split_tagged:
  "take (length (p @ tag p) - n) (p @ tag p) = p"
  "drop (length (p @ tag p) - n) (p @ tag p) = tag p"
  by (simp_all add: tag_length)

lemma tagged_iff:
  "n \<le> length raw \<and> tag (take (length raw - n) raw) = drop (length raw - n) raw
   \<longleftrightarrow> (\<exists>p. raw = p @ tag p)"
proof
  assume "n \<le> length raw \<and> tag (take (length raw - n) raw) = drop (length raw - n) raw"
  then have "raw = take (length raw - n) raw @ tag (take (length raw - n) raw)" by simp
  then show "\<exists>p. raw = p @ tag p" by blast
next
  assume "\<exists>p. raw = p @ tag p"
  then show "n \<le> length raw \<and> tag (take (length raw - n) raw) = drop (length raw - n) raw"
    by (auto simp: tag_length)
qed

lemma tagged_inject: "p @ tag p = q @ tag q \<longleftrightarrow> p = q"
  by (metis append_eq_append_conv tag_length)

end

interpretation media_mac: tagged_message "media_tag key" mediaTagSize for key
  by unfold_locales (simp add: media_tag_def mediaTagSize_def)

section \<open>The layout, both ways\<close>

lemma length_marshal:
  "length (marshalMediaRef r) = 20 + length (ref_FileRef r) + length (ref_ThumbSize r)"
  by (simp add: marshalMediaRef_def)

text \<open>The size field of a marshalled reference, read back.\<close>

definition ref_fits :: "mediaRef \<Rightarrow> bool" where
  "ref_fits r \<longleftrightarrow> length (ref_FileRef r) < 65536 \<and> length (ref_ThumbSize r) < 256"

lemma unmarshal_marshal_trailing:
  assumes "ref_fits r"
  shows "unmarshalMediaRef (marshalMediaRef r @ rest) = Some (Inr r)"
proof -
  have fr: "unat (word_of_nat (length (ref_FileRef r)) :: u16) = length (ref_FileRef r)"
    using assms by (simp add: ref_fits_def unat_of_nat)
  have sz: "unat (word_of_nat (length (ref_ThumbSize r)) :: byte) = length (ref_ThumbSize r)"
    using assms by (simp add: ref_fits_def unat_of_nat)
  show ?thesis
    by (simp add: unmarshalMediaRef_def marshalMediaRef_def go_defs fr sz
        del: uint64_be.simps uint16_be.simps) (simp add: bytes_of_string_def comp_def)
qed

lemma unmarshal_marshal: "ref_fits r \<Longrightarrow> unmarshalMediaRef (marshalMediaRef r) = Some (Inr r)"
  using unmarshal_marshal_trailing [of r "[]"] by simp

lemma unmarshal_no_panic: "unmarshalMediaRef b \<noteq> None"
proof (cases "length b < 19")
  case True
  then show ?thesis by (simp add: unmarshalMediaRef_def)
next
  case False
  then obtain k b1 where b: "b = k # b1" "18 \<le> length b1" by (cases b) auto
  obtain rid where rid: "uint64_be b1 = Some rid" using uint64_long [of b1] b(2) by auto
  have "8 \<le> length (drop 8 b1)" "2 \<le> length (drop 16 b1)" using b(2) by simp_all
  then obtain hash fl where hash: "uint64_be (drop 8 b1) = Some hash"
    and fl: "uint16_be (drop 16 b1) = Some fl"
    by (meson uint64_long uint16_long option.exhaust)
  show ?thesis
    using b rid hash fl
    by (auto simp: unmarshalMediaRef_def go_defs Let_def split: list.splits)
qed

text \<open>
  Reading succeeds only on a marshalled reference whose lengths fit their fields, possibly
  followed by bytes that are ignored.
\<close>

lemma unmarshal_Inr:
  assumes u: "unmarshalMediaRef b = Some (Inr r)"
  shows "ref_fits r \<and> (\<exists>rest. b = marshalMediaRef r @ rest)"
proof -
  obtain rid hash fl where l: "19 \<le> length b"
    and rid: "uint64_be (drop 1 b) = Some rid"
    and hash: "uint64_be (drop 9 b) = Some hash"
    and fl: "uint16_be (drop 17 b) = Some fl"
    and l2: "unat fl + 1 \<le> length (drop 19 b)"
    using u by (auto simp: unmarshalMediaRef_def go_defs bind_eq_Some_conv not_less
        split: if_splits list.splits)
  obtain k t where b: "b = k # t" using l by (cases b) auto
  obtain z v where z: "drop (unat fl) (drop 19 b) = z # v"
    using l2 by (cases "drop (unat fl) (drop 19 b)") auto
  have r: "r = \<lparr>ref_Kind = k, ref_ID = rid, ref_AccessHash = hash,
      ref_FileRef = take (unat fl) (drop 19 b), ref_ThumbSize = string_of_bytes (take (unat z) v)\<rparr>"
    and l3: "unat z \<le> length v"
    using u rid hash fl z l l2
    by (auto simp: unmarshalMediaRef_def go_defs b split: if_splits)
  have fl_len: "length (take (unat fl) (drop 19 b)) = unat fl" using l2 by simp
  have "unat fl < 65536" using unsigned_less [of fl, where 'a = nat] by simp
  moreover have "unat z < 256" using unsigned_less [of z, where 'a = nat] by simp
  ultimately have fits: "ref_fits r" using fl_len l3 by (simp add: r ref_fits_def)
  have "b = k # drop 1 b" by (simp add: b)
  also have "drop 1 b = put_uint64 rid @ drop 9 b"
    using put_uint64_inverse [OF rid] by simp
  also have "drop 9 b = put_uint64 hash @ drop 17 b"
    using put_uint64_inverse [OF hash] by simp
  also have "drop 17 b = put_uint16 fl @ drop 19 b"
    using put_uint16_inverse [OF fl] by simp
  also have "drop 19 b = take (unat fl) (drop 19 b) @ z # v"
    using z by (metis append_take_drop_id)
  also have "v = take (unat z) v @ drop (unat z) v" by simp
  finally have "b = marshalMediaRef r @ drop (unat z) v"
    using fl_len l3 by (simp add: r marshalMediaRef_def)
  with fits show ?thesis by blast
qed

section \<open>Decoding identifiers\<close>

lemma marshal_long: "20 \<le> length (marshalMediaRef r)"
  by (simp add: length_marshal)

lemma unmarshal_Nil: "unmarshalMediaRef [] = Some (Inl (ErrNew ''payload truncated''))"
  by (simp add: unmarshalMediaRef_def)

text \<open>Decoding a signed payload is reading the payload.\<close>

lemma decode_tagged:
  assumes "b64_decode s = Inr (p @ media_tag key p)" and "p \<noteq> []"
  shows "decodeMediaID key s = unmarshalMediaRef p"
proof -
  have "\<not> length (p @ media_tag key p) < mediaTagSize + 1"
    using assms(2) media_mac.tag_length [of key p] by (cases p) auto
  then show ?thesis
    unfolding decodeMediaID_def assms(1) by (simp add: media_mac.tag_length Let_def)
qed

lemma decode_Inr_iff:
  "decodeMediaID key s = Some (Inr r) \<longleftrightarrow>
     (\<exists>p. b64_decode s = Inr (p @ media_tag key p) \<and> unmarshalMediaRef p = Some (Inr r))"
proof
  assume d: "decodeMediaID key s = Some (Inr r)"
  then obtain raw where raw: "b64_decode s = Inr raw" "\<not> length raw < mediaTagSize + 1"
    "media_tag key (take (length raw - mediaTagSize) raw) = drop (length raw - mediaTagSize) raw"
    and u: "unmarshalMediaRef (take (length raw - mediaTagSize) raw) = Some (Inr r)"
    by (auto simp: decodeMediaID_def Let_def split: sum.splits if_splits)
  from raw(2,3) have "mediaTagSize \<le> length raw
      \<and> media_tag key (take (length raw - mediaTagSize) raw) = drop (length raw - mediaTagSize) raw"
    by simp
  then obtain p where "raw = p @ media_tag key p" by (auto simp only: media_mac.tagged_iff)
  with raw(1) u show "\<exists>p. b64_decode s = Inr (p @ media_tag key p) \<and> unmarshalMediaRef p = Some (Inr r)"
    by (auto simp: media_mac.tag_length)
next
  assume "\<exists>p. b64_decode s = Inr (p @ media_tag key p) \<and> unmarshalMediaRef p = Some (Inr r)"
  then obtain p where p: "b64_decode s = Inr (p @ media_tag key p)" "unmarshalMediaRef p = Some (Inr r)"
    by blast
  then have "p \<noteq> []" by (auto simp: unmarshal_Nil)
  with p show "decodeMediaID key s = Some (Inr r)" by (simp add: decode_tagged)
qed

lemma decode_encode: "decodeMediaID key (encodeMediaID key r) = unmarshalMediaRef (marshalMediaRef r)"
proof (rule decode_tagged)
  show "b64_decode (encodeMediaID key r) = Inr (marshalMediaRef r @ media_tag key (marshalMediaRef r))"
    by (simp add: encodeMediaID_def Let_def)
  show "marshalMediaRef r \<noteq> []" using marshal_long [of r] by auto
qed

definition sample_ref :: mediaRef where
  "sample_ref = \<lparr>ref_Kind = 1, ref_ID = 42, ref_AccessHash = - 7,
                 ref_FileRef = [1, 2, 3], ref_ThumbSize = ''m''\<rparr>"

lemma sample_ref_fits: "ref_fits sample_ref"
  by (simp add: ref_fits_def sample_ref_def)

lemma decode_sample: "decodeMediaID key (encodeMediaID key sample_ref) = Some (Inr sample_ref)"
  by (simp add: decode_encode unmarshal_marshal sample_ref_fits)

section \<open>Properties\<close>

text \<open>
  C11: An identifier the bridge issues decodes, under the same key, to exactly the reference it
  was made from; this fails precisely for a file reference of 64 KiB or more or a thumbnail
  type of 256 bytes or more, whose lengths do not fit their fields of the layout.
\<close>

theorem media_id_roundtrip:
  "decodeMediaID key (encodeMediaID key r) = Some (Inr r) \<longleftrightarrow>
     length (ref_FileRef r) < 65536 \<and> length (ref_ThumbSize r) < 256"
proof -
  have "unmarshalMediaRef (marshalMediaRef r) = Some (Inr r) \<longleftrightarrow> ref_fits r"
    using unmarshal_Inr unmarshal_marshal by blast
  then show ?thesis by (simp add: decode_encode ref_fits_def)
qed

text \<open>
  C8: An identifier is accepted exactly when its bytes are a payload followed by the first 16
  bytes of the payload's HMAC-SHA256 under the bridge's key, and the payload starts with the
  layout of the reference returned; no other string yields a reference.
\<close>

theorem media_id_authentic:
  "decodeMediaID key s = Some (Inr r) \<longleftrightarrow>
     ref_fits r \<and>
     (\<exists>rest. b64_decode s =
        Inr ((marshalMediaRef r @ rest) @ take 16 (hmac_sha256 key (marshalMediaRef r @ rest))))"
proof -
  have u: "unmarshalMediaRef p = Some (Inr r) \<longleftrightarrow> ref_fits r \<and> (\<exists>rest. p = marshalMediaRef r @ rest)" for p
    using unmarshal_Inr unmarshal_marshal_trailing by blast
  show ?thesis
    unfolding decode_Inr_iff media_tag_def mediaTagSize_def u by blast
qed

text \<open>
  Decoding an identifier never indexes or slices out of range, whatever the client sends:
  every string is answered with a reference or with an error.
\<close>

theorem media_id_decode_no_panic:
  "\<exists>res. decodeMediaID key s = Some res"
  using unmarshal_no_panic by (auto simp: decodeMediaID_def Let_def split: sum.splits)

text \<open>
  C28: Identifiers are not unique: a line break inserted anywhere into an accepted identifier
  gives another accepted identifier of the same reference, since the decoder skips it.
\<close>

theorem media_id_line_break:
  assumes "decodeMediaID key (s @ t) = Some (Inr r)" and "nl = CHR 0x0A \<or> nl = CHR 0x0D"
  shows "decodeMediaID key (s @ nl # t) = Some (Inr r)"
  using assms b64_decode_insert [of nl s t]
  by (auto simp: decode_Inr_iff is_line_break_def)

theorem media_id_line_break_witness:
  "decodeMediaID [] (encodeMediaID [] sample_ref @ [CHR 0x0A]) = Some (Inr sample_ref)"
  using media_id_line_break [of "[]" "encodeMediaID [] sample_ref" "[]" sample_ref "CHR 0x0A"]
  by (simp add: decode_sample)

end
