(* ===== verification/Media_Summary.thy ===== *)
theory Media_Summary
  imports Tg_Types Media_Id
begin

text \<open>
  The descriptors of media that messages and events carry (\<open>internal/bridge/media.go\<close>):
  \<open>summarizeMedia\<close>, \<open>classifyDoc\<close> and \<open>pickSmallestPhotoSize\<close>.
\<close>

section \<open>Definitions\<close>

record MediaSummary =
  sum_Type :: string
  sum_MediaID :: string
  sum_MimeType :: string
  sum_Size :: i64
  sum_Width :: goint
  sum_Height :: goint

text \<open>A summary that only names the type; the other fields have their zero values.\<close>

definition media_type_only :: "string \<Rightarrow> MediaSummary" where
  "media_type_only t = \<lparr>sum_Type = t, sum_MediaID = '''', sum_MimeType = '''', sum_Size = 0,
     sum_Width = 0, sum_Height = 0\<rparr>"

text \<open>The named results of \<open>pickSmallestPhotoSize\<close> and its local \<open>bestPx\<close>.\<close>

record picked =
  pk_type :: string
  pk_w :: goint
  pk_h :: goint
  pk_bytes :: goint
  pk_ok :: bool

fun pick_loop :: "PhotoSizeClass list \<Rightarrow> goint \<Rightarrow> picked \<Rightarrow> picked" where
  "pick_loop [] bestPx p = p"
| "pick_loop (PhotoSize ty w h n # ss) bestPx p =
     (let px = w * h in
      if sint bestPx < 0 \<or> sint px < sint bestPx
      then pick_loop ss px \<lparr>pk_type = ty, pk_w = w, pk_h = h, pk_bytes = n, pk_ok = True\<rparr>
      else pick_loop ss bestPx p)"
| "pick_loop (PhotoSizeProgressive ty w h sizes # ss) bestPx p =
     (let px = w * h in
      if sint bestPx < 0 \<or> sint px < sint bestPx
      then pick_loop ss px
             \<lparr>pk_type = ty, pk_w = w, pk_h = h,
              pk_bytes = (case sizes of [] \<Rightarrow> pk_bytes p | b # _ \<Rightarrow> b), pk_ok = True\<rparr>
      else pick_loop ss bestPx p)"
| "pick_loop (OtherPhotoSize # ss) bestPx p = pick_loop ss bestPx p"

definition pickSmallestPhotoSize :: "PhotoSizeClass list \<Rightarrow> picked" where
  "pickSmallestPhotoSize ss =
     pick_loop ss (- 1) \<lparr>pk_type = '''', pk_w = 0, pk_h = 0, pk_bytes = 0, pk_ok = False\<rparr>"

fun classify_attributes :: "DocumentAttribute list \<Rightarrow> string" where
  "classify_attributes [] = ''document''"
| "classify_attributes (AttributeAudio # as) = ''voice''"
| "classify_attributes (AttributeVideo # as) = ''video''"
| "classify_attributes (AttributeSticker # as) = ''sticker''"
| "classify_attributes (OtherAttribute # as) = classify_attributes as"

definition classifyDoc :: "tgDocument \<Rightarrow> string" where
  "classifyDoc d = classify_attributes (doc_Attributes d)"

definition summarizeMedia :: "bytes \<Rightarrow> MessageMedia \<Rightarrow> MediaSummary" where
  "summarizeMedia key m =
     (case m of
        MessageMediaPhoto None \<Rightarrow> media_type_only ''photo''
      | MessageMediaPhoto (Some p) \<Rightarrow>
          (let pk = pickSmallestPhotoSize (pho_Sizes p) in
           if \<not> pk_ok pk then media_type_only ''photo''
           else \<lparr>sum_Type = ''photo'',
                 sum_MediaID = encodeMediaID key
                   \<lparr>ref_Kind = mediaKindPhoto, ref_ID = pho_ID p, ref_AccessHash = pho_AccessHash p,
                    ref_FileRef = pho_FileReference p, ref_ThumbSize = pk_type pk\<rparr>,
                 sum_MimeType = ''image/jpeg'', sum_Size = pk_bytes pk,
                 sum_Width = pk_w pk, sum_Height = pk_h pk\<rparr>)
      | MessageMediaDocument None \<Rightarrow> media_type_only ''document''
      | MessageMediaDocument (Some d) \<Rightarrow>
          \<lparr>sum_Type = classifyDoc d, sum_MediaID = '''', sum_MimeType = doc_MimeType d,
           sum_Size = doc_Size d, sum_Width = 0, sum_Height = 0\<rparr>
      | OtherMedia \<Rightarrow> media_type_only ''other'')"

section \<open>The smallest downloadable size\<close>


definition area :: "string \<times> goint \<times> goint \<Rightarrow> int" where
  "area x = sint (fst (snd x)) * sint (snd (snd x))"




text \<open>The first of the elements with the smallest area.\<close>

definition first_min :: "string \<times> goint \<times> goint \<Rightarrow> (string \<times> goint \<times> goint) list \<Rightarrow> bool" where
  "first_min m xs \<longleftrightarrow>
     (\<exists>before after. xs = before @ m # after
        \<and> (\<forall>x \<in> set before. area m < area x) \<and> (\<forall>x \<in> set after. area m \<le> area x))"

lemma first_minI:
  "\<forall>x \<in> set before. area m < area x \<Longrightarrow> \<forall>x \<in> set after. area m \<le> area x \<Longrightarrow> first_min m (before @ m # after)"
  unfolding first_min_def by blast

lemma first_min_single [simp]: "first_min m [m]"
  using first_minI [of "[]" m "[]"] by simp







section \<open>Properties\<close>




text \<open>
  A progressive size without a list of byte counts is reported with the byte count of the
  size chosen before it.
\<close>

lemma photo_summary_stale_bytes:
  "sum_Size (summarizeMedia key (MessageMediaPhoto (Some
     \<lparr>pho_ID = i, pho_AccessHash = a, pho_FileReference = f,
      pho_Sizes = [PhotoSize ''x'' 800 600 n, PhotoSizeProgressive ''m'' 320 240 []]\<rparr>))) = n"
  by (simp add: summarizeMedia_def pickSmallestPhotoSize_def)

end
