(* ===== verification/Media_Key.thy ===== *)
theory Media_Key
  imports Prelude Go_Strings
begin

text \<open>
  \<open>internal/bridge/mediakey.go\<close>: the secret under which media IDs are authenticated, kept in
  the file \<open>media.key\<close> of the session directory. The file, the random source and the outcome of
  \<open>os.WriteFile\<close>, which may fail after part of the data was written, are arguments.
\<close>

datatype key_file =
    KeyAbsent
  | KeyFile bytes
  | KeyUnreadable goerr

datatype write_outcome =
    WriteOk
  | OpenFailed goerr
  | WriteFailed nat goerr

definition mediaKeySize :: nat where
  "mediaKeySize = 32"

text \<open>\<open>rand.Read\<close> fills the whole slice or fails.\<close>

definition rand_Read :: "(nat \<Rightarrow> byte) result \<Rightarrow> nat \<Rightarrow> bytes result" where
  "rand_Read rnd n = (case rnd of Inl e \<Rightarrow> Inl e | Inr src \<Rightarrow> Inr (map src [0..<n]))"

text \<open>\<open>os.WriteFile\<close>: opens the file with \<open>O_TRUNC\<close>, then writes; a failed write leaves a prefix.\<close>

fun os_WriteFile :: "write_outcome \<Rightarrow> bytes \<Rightarrow> key_file \<Rightarrow> goerr option \<times> key_file" where
  "os_WriteFile WriteOk data f = (None, KeyFile data)"
| "os_WriteFile (OpenFailed e) data f = (Some e, f)"
| "os_WriteFile (WriteFailed n e) data f = (Some e, KeyFile (take n data))"

definition loadOrCreateMediaKey ::
  "string \<Rightarrow> (nat \<Rightarrow> byte) result \<Rightarrow> write_outcome \<Rightarrow> key_file \<Rightarrow> bytes result \<times> key_file" where
  "loadOrCreateMediaKey path rnd wr f =
     (case f of
        KeyFile data \<Rightarrow>
          (if length data \<noteq> mediaKeySize
           then (Inl (ErrNew (''media key at '' @ path @ '' has wrong size '' @ print_nat (length data))), f)
           else (Inr data, f))
      | KeyUnreadable e \<Rightarrow> (Inl e, f)
      | KeyAbsent \<Rightarrow>
          (case rand_Read rnd mediaKeySize of
             Inl e \<Rightarrow> (Inl e, f)
           | Inr key \<Rightarrow>
               (case os_WriteFile wr key f of
                  (Some e, f') \<Rightarrow> (Inl e, f')
                | (None, f') \<Rightarrow> (Inr key, f'))))"

text \<open>
  A successful load returns 32 bytes that are the contents of the file afterwards, so every
  later start, whatever its random source and the state of the disk, returns the same key;
  media IDs stay valid across restarts.
\<close>

theorem media_key_stable:
  assumes "loadOrCreateMediaKey path rnd wr f = (Inr key, f')"
  shows "length key = 32 \<and> f' = KeyFile key \<and>
    loadOrCreateMediaKey path' rnd' wr' f' = (Inr key, f')"
  using assms
  by (cases wr)
    (auto simp: loadOrCreateMediaKey_def mediaKeySize_def rand_Read_def
      split: key_file.splits sum.splits if_splits)

theorem media_key_stable_witness:
  "loadOrCreateMediaKey ''p'' (Inl ErrCanceled) (OpenFailed ErrCanceled) (KeyFile (replicate 32 5))
   = (Inr (replicate 32 5), KeyFile (replicate 32 5))"
proof -
  have "map (\<lambda>_. 5 :: byte) [0..<mediaKeySize] = replicate 32 5"
    by (simp add: mediaKeySize_def map_replicate_const)
  then have "loadOrCreateMediaKey ''s/media.key'' (Inr (\<lambda>_. 5)) WriteOk KeyAbsent
      = (Inr (replicate 32 5), KeyFile (replicate 32 5))"
    by (simp add: loadOrCreateMediaKey_def rand_Read_def)
  from media_key_stable [OF this, of "''p''" "Inl ErrCanceled" "OpenFailed ErrCanceled"]
  show ?thesis by blast
qed

text \<open>
  A first start whose write of the key stops early (disk full) fails, and so does every
  start after it: the short file is never replaced, and each start reports its wrong size.
\<close>

theorem media_key_short_write_is_permanent:
  assumes "n < 32"
  shows "\<exists>f'. loadOrCreateMediaKey path (Inr src) (WriteFailed n e) KeyAbsent = (Inl e, f') \<and>
    loadOrCreateMediaKey path rnd wr f' =
      (Inl (ErrNew (''media key at '' @ path @ '' has wrong size '' @ print_nat n)), f')"
  using assms by (simp add: loadOrCreateMediaKey_def rand_Read_def mediaKeySize_def)

theorem media_key_short_write_is_permanent_witness:
  "\<exists>f'. loadOrCreateMediaKey ''k'' (Inr (\<lambda>_. 0)) (WriteFailed 0 ErrDeadline) KeyAbsent = (Inl ErrDeadline, f')
    \<and> loadOrCreateMediaKey ''k'' (Inr (\<lambda>_. 0)) WriteOk f' =
      (Inl (ErrNew (''media key at '' @ ''k'' @ '' has wrong size '' @ print_nat 0)), f')"
  by (rule media_key_short_write_is_permanent) simp

end
