(* ===== verification/Auth_Flow.thy ===== *)
theory Auth_Flow
  imports Prelude "HOL-Library.Sublist"
begin

text \<open>
  \<open>internal/bridge/auth.go\<close> and the calls of it in \<open>bridge.go\<close>: the authenticator that the HTTP
  handlers feed, and the login loop (\<open>runAuth\<close>, \<open>signInWithCodeRetry\<close>, \<open>passwordLoop\<close>) as a step
  machine. Between two steps the machine is at a point where another goroutine can run: before a
  \<open>setState\<close>, blocked in a \<open>select\<close>, or waiting for an answer of Telegram. The answers are events;
  how the Telegram library classifies an error is a parameter.
\<close>

section \<open>The authenticator\<close>

datatype AuthState = AuthIdle | AuthNeedPhone | AuthNeedCode | AuthNeedPass | AuthAuthorized | AuthError

fun auth_state_string :: "AuthState \<Rightarrow> string" where
  "auth_state_string AuthIdle = ''idle''"
| "auth_state_string AuthNeedPhone = ''need_phone''"
| "auth_state_string AuthNeedCode = ''need_code''"
| "auth_state_string AuthNeedPass = ''need_password''"
| "auth_state_string AuthAuthorized = ''authorized''"
| "auth_state_string AuthError = ''error''"

record httpAuthenticator =
  au_state :: AuthState
  au_lastErr :: "goerr option"
  au_phoneCh :: "string chan"
  au_codeCh :: "string chan"
  au_passwdCh :: "string chan"

definition newHTTPAuthenticator :: httpAuthenticator where
  "newHTTPAuthenticator =
     \<lparr>au_state = AuthIdle, au_lastErr = None,
      au_phoneCh = make_chan 1, au_codeCh = make_chan 1, au_passwdCh = make_chan 1\<rparr>"

definition setState :: "AuthState \<Rightarrow> goerr option \<Rightarrow> httpAuthenticator \<Rightarrow> httpAuthenticator" where
  "setState st err a = a\<lparr>au_state := st, au_lastErr := err\<rparr>"

definition Status :: "httpAuthenticator \<Rightarrow> AuthState \<times> goerr option" where
  "Status a = (au_state a, au_lastErr a)"

definition trySend :: "string chan \<Rightarrow> string \<Rightarrow> chan_panic + (bool \<times> string chan)" where
  "trySend ch v = chan_try_send ch v"

definition SubmitPhone :: "string \<Rightarrow> httpAuthenticator \<Rightarrow> chan_panic + (bool \<times> httpAuthenticator)" where
  "SubmitPhone p a =
     (case trySend (au_phoneCh a) p of Inl e \<Rightarrow> Inl e | Inr (ok, ch) \<Rightarrow> Inr (ok, a\<lparr>au_phoneCh := ch\<rparr>))"

definition SubmitCode :: "string \<Rightarrow> httpAuthenticator \<Rightarrow> chan_panic + (bool \<times> httpAuthenticator)" where
  "SubmitCode c a =
     (case trySend (au_codeCh a) c of Inl e \<Rightarrow> Inl e | Inr (ok, ch) \<Rightarrow> Inr (ok, a\<lparr>au_codeCh := ch\<rparr>))"

definition SubmitPassword :: "string \<Rightarrow> httpAuthenticator \<Rightarrow> chan_panic + (bool \<times> httpAuthenticator)" where
  "SubmitPassword p a =
     (case trySend (au_passwdCh a) p of Inl e \<Rightarrow> Inl e | Inr (ok, ch) \<Rightarrow> Inr (ok, a\<lparr>au_passwdCh := ch\<rparr>))"

text \<open>The methods of \<open>Bridge\<close> the handlers call: an error when the value was not taken.\<close>

definition submit_result :: "string \<Rightarrow> bool \<times> 'a \<Rightarrow> goerr option \<times> 'a" where
  "submit_result msg r = (if fst r then None else Some (ErrNew msg), snd r)"

definition Bridge_SubmitPhone :: "string \<Rightarrow> httpAuthenticator \<Rightarrow> chan_panic + (goerr option \<times> httpAuthenticator)" where
  "Bridge_SubmitPhone p a = map_sum id (submit_result ''no phone prompt pending'') (SubmitPhone p a)"

definition Bridge_SubmitCode :: "string \<Rightarrow> httpAuthenticator \<Rightarrow> chan_panic + (goerr option \<times> httpAuthenticator)" where
  "Bridge_SubmitCode c a = map_sum id (submit_result ''no code prompt pending'') (SubmitCode c a)"

definition Bridge_SubmitPassword :: "string \<Rightarrow> httpAuthenticator \<Rightarrow> chan_panic + (goerr option \<times> httpAuthenticator)" where
  "Bridge_SubmitPassword p a = map_sum id (submit_result ''no password prompt pending'') (SubmitPassword p a)"

text \<open>
  The two methods of the interface that only a flow with registration calls: the terms are accepted
  without asking, and a registration, which would name the new user, is refused.
\<close>

definition AcceptTermsOfService :: "goerr option" where
  "AcceptTermsOfService = None"

definition SignUp :: "(string \<times> string) result" where
  "SignUp = Inl (ErrNew ''signup not supported; register the account on an official client first'')"

section \<open>The login loop\<close>

text \<open>What the loop relies on of the Telegram library: \<open>tgerr.Is\<close> and two sentinel errors.\<close>

record auth_env =
  ae_tgerr_Is :: "goerr \<Rightarrow> string list \<Rightarrow> bool"
  ae_ErrPasswordAuthNeeded :: goerr
  ae_ErrPasswordInvalid :: goerr

definition recoverablePhoneErrs :: "string list" where
  "recoverablePhoneErrs =
     [''PHONE_NUMBER_INVALID'', ''PHONE_NUMBER_BANNED'', ''PHONE_NUMBER_FLOOD'',
      ''PHONE_NUMBER_OCCUPIED'', ''PHONE_NUMBER_UNOCCUPIED'', ''PHONE_PASSWORD_FLOOD'',
      ''PHONE_CODE_EXPIRED'', ''PHONE_CODE_EMPTY'', ''AUTH_RESTART'']"

text \<open>The answer of \<open>SendCode\<close>: the expected type with its code hash, or another one.\<close>

datatype sent_code = AuthSentCode string | OtherSentCode string

text \<open>
  Where the login goroutine is. \<open>Enter*\<close> is before the \<open>setState\<close> of a prompt method, \<open>Wait*\<close> in
  its \<open>select\<close>, \<open>Rpc*\<close> in a call to Telegram; \<open>Returned\<close> holds what \<open>runAuth\<close> returned and the
  last two what \<open>Run\<close> did with it.
\<close>

datatype auth_pc =
    RpcStatus
  | EnterPhone
  | WaitPhone
  | RpcSendCode string
  | EnterCode string string
  | WaitCode string string
  | RpcSignIn string string string
  | EnterPassword
  | WaitPassword
  | RpcPassword string
  | Returned "goerr option"
  | RunAuthorized
  | RunFailed goerr

type_synonym auth_cont = "auth_pc \<times> httpAuthenticator"

definition after_status :: "bool result \<Rightarrow> httpAuthenticator \<Rightarrow> auth_cont" where
  "after_status r a =
     (case r of
        Inl err \<Rightarrow> (Returned (Some (ErrWrap ''auth status'' err)), a)
      | Inr authorized \<Rightarrow> (if authorized then (Returned None, a) else (EnterPhone, a)))"

definition after_send_code :: "auth_env \<Rightarrow> string \<Rightarrow> sent_code result \<Rightarrow> httpAuthenticator \<Rightarrow> auth_cont" where
  "after_send_code E phone r a =
     (case r of
        Inl err \<Rightarrow>
          (if ae_tgerr_Is E err recoverablePhoneErrs
           then (EnterPhone, setState AuthNeedPhone (Some err) a)
           else (Returned (Some (ErrWrap ''send code'' err)), a))
      | Inr (AuthSentCode hash) \<Rightarrow> (EnterCode phone hash, a)
      | Inr (OtherSentCode t) \<Rightarrow> (Returned (Some (ErrNew (''unexpected sent code type '' @ t))), a))"

text \<open>What \<open>runAuth\<close> does with an error of \<open>signInWithCodeRetry\<close>.\<close>

definition sign_in_failed :: "auth_env \<Rightarrow> goerr \<Rightarrow> httpAuthenticator \<Rightarrow> auth_cont" where
  "sign_in_failed E err a =
     (if errors_Is err (ae_ErrPasswordAuthNeeded E) then (EnterPassword, a)
      else if ae_tgerr_Is E err recoverablePhoneErrs
      then (EnterPhone, setState AuthNeedPhone (Some err) a)
      else (Returned (Some (ErrWrap ''sign in'' err)), a))"

text \<open>The answer of \<open>SignIn\<close> in \<open>signInWithCodeRetry\<close>; its return value goes to \<open>runAuth\<close>.\<close>

definition after_sign_in ::
  "auth_env \<Rightarrow> string \<Rightarrow> string \<Rightarrow> goerr option \<Rightarrow> httpAuthenticator \<Rightarrow> auth_cont" where
  "after_sign_in E phone hash r a =
     (case r of
        None \<Rightarrow> (Returned None, a)
      | Some err \<Rightarrow>
          (if ae_tgerr_Is E err [''PHONE_CODE_INVALID'']
           then (EnterCode phone hash, setState AuthNeedCode (Some err) a)
           else sign_in_failed E err a))"

definition after_password :: "auth_env \<Rightarrow> goerr option \<Rightarrow> httpAuthenticator \<Rightarrow> auth_cont" where
  "after_password E r a =
     (case r of
        None \<Rightarrow> (Returned None, a)
      | Some err \<Rightarrow>
          (if errors_Is err (ae_ErrPasswordInvalid E)
           then (EnterPassword, setState AuthNeedPass (Some err) a)
           else (Returned (Some (ErrWrap ''sign in with password'' err)), a)))"

text \<open>The two arms of the \<open>select\<close> in \<open>Phone\<close>, \<open>Code\<close> and \<open>Password\<close>.\<close>

definition prompt_recv :: "string chan \<Rightarrow> (string \<times> string chan) option" where
  "prompt_recv ch =
     (case chan_recv ch of
        None \<Rightarrow> None
      | Some (None, ch') \<Rightarrow> Some ('''', ch')
      | Some (Some v, ch') \<Rightarrow> Some (v, ch'))"

fun prompt_cancelled :: "auth_env \<Rightarrow> auth_pc \<Rightarrow> goerr \<Rightarrow> httpAuthenticator \<Rightarrow> auth_cont option" where
  "prompt_cancelled E WaitPhone e a = Some (Returned (Some (ErrWrap ''get phone'' e)), a)"
| "prompt_cancelled E (WaitCode phone hash) e a = Some (sign_in_failed E (ErrWrap ''get code'' e) a)"
| "prompt_cancelled E WaitPassword e a = Some (Returned (Some (ErrWrap ''get password'' e)), a)"
| "prompt_cancelled E _ e a = None"

fun prompt_received :: "auth_pc \<Rightarrow> httpAuthenticator \<Rightarrow> auth_cont option" where
  "prompt_received WaitPhone a =
     map_option (\<lambda>(p, ch). (RpcSendCode p, a\<lparr>au_phoneCh := ch\<rparr>)) (prompt_recv (au_phoneCh a))"
| "prompt_received (WaitCode phone hash) a =
     map_option (\<lambda>(c, ch). (RpcSignIn phone c hash, a\<lparr>au_codeCh := ch\<rparr>)) (prompt_recv (au_codeCh a))"
| "prompt_received WaitPassword a =
     map_option (\<lambda>(p, ch). (RpcPassword p, a\<lparr>au_passwdCh := ch\<rparr>)) (prompt_recv (au_passwdCh a))"
| "prompt_received _ a = None"

text \<open>The steps that only set the state: entering a prompt, and \<open>Run\<close> after \<open>runAuth\<close> returned.\<close>

fun auth_proceed :: "auth_pc \<Rightarrow> httpAuthenticator \<Rightarrow> auth_cont option" where
  "auth_proceed EnterPhone a = Some (WaitPhone, setState AuthNeedPhone None a)"
| "auth_proceed (EnterCode phone hash) a = Some (WaitCode phone hash, setState AuthNeedCode None a)"
| "auth_proceed EnterPassword a = Some (WaitPassword, setState AuthNeedPass None a)"
| "auth_proceed (Returned (Some err)) a =
     Some (RunFailed (ErrWrap ''auth'' err), setState AuthError (Some err) a)"
| "auth_proceed (Returned None) a = Some (RunAuthorized, setState AuthAuthorized None a)"
| "auth_proceed _ a = None"

section \<open>The system\<close>

text \<open>
  What can happen next: an answer of Telegram, the end of the context, the login goroutine
  running on or taking a submitted value, or a handler submitting one.
\<close>

datatype auth_ev =
    EvStatus "bool result"
  | EvSendCode "sent_code result"
  | EvSignIn "goerr option"
  | EvPassword "goerr option"
  | EvDone goerr
  | EvProceed
  | EvTake
  | EvSubmitPhone string
  | EvSubmitCode string
  | EvSubmitPassword string

text \<open>The calls to Telegram with their arguments and answers, oldest first: ghost state.\<close>

datatype auth_call =
    CallStatus "bool result"
  | CallSendCode string "sent_code result"
  | CallSignIn string string string "goerr option"
  | CallPassword string "goerr option"

record auth_sys =
  as_pc :: auth_pc
  as_auth :: httpAuthenticator
  as_calls :: "auth_call list"
  as_phones :: "string list"
  as_codes :: "string list"
  as_passwds :: "string list"

definition auth_start :: auth_sys where
  "auth_start = \<lparr>as_pc = RpcStatus, as_auth = newHTTPAuthenticator, as_calls = [],
     as_phones = [], as_codes = [], as_passwds = []\<rparr>"

definition goto :: "auth_sys \<Rightarrow> auth_cont \<Rightarrow> auth_sys" where
  "goto s k = s\<lparr>as_pc := fst k, as_auth := snd k\<rparr>"

definition answered :: "auth_call \<Rightarrow> auth_sys \<Rightarrow> auth_sys" where
  "answered c s = s\<lparr>as_calls := as_calls s @ [c]\<rparr>"

definition auth_answer :: "auth_env \<Rightarrow> auth_sys \<Rightarrow> auth_ev \<Rightarrow> auth_sys option" where
  "auth_answer E s ev =
     (case (as_pc s, ev) of
        (RpcStatus, EvStatus r) \<Rightarrow> Some (answered (CallStatus r) (goto s (after_status r (as_auth s))))
      | (RpcSendCode p, EvSendCode r) \<Rightarrow>
          Some (answered (CallSendCode p r) (goto s (after_send_code E p r (as_auth s))))
      | (RpcSignIn p c h, EvSignIn r) \<Rightarrow>
          Some (answered (CallSignIn p c h r) (goto s (after_sign_in E p h r (as_auth s))))
      | (RpcPassword p, EvPassword r) \<Rightarrow>
          Some (answered (CallPassword p r) (goto s (after_password E r (as_auth s))))
      | _ \<Rightarrow> None)"

fun auth_submit :: "auth_sys \<Rightarrow> auth_ev \<Rightarrow> auth_sys option" where
  "auth_submit s (EvSubmitPhone v) =
     (case SubmitPhone v (as_auth s) of
        Inl _ \<Rightarrow> None
      | Inr (ok, a) \<Rightarrow> Some (s\<lparr>as_auth := a, as_phones := as_phones s @ (if ok then [v] else [])\<rparr>))"
| "auth_submit s (EvSubmitCode v) =
     (case SubmitCode v (as_auth s) of
        Inl _ \<Rightarrow> None
      | Inr (ok, a) \<Rightarrow> Some (s\<lparr>as_auth := a, as_codes := as_codes s @ (if ok then [v] else [])\<rparr>))"
| "auth_submit s (EvSubmitPassword v) =
     (case SubmitPassword v (as_auth s) of
        Inl _ \<Rightarrow> None
      | Inr (ok, a) \<Rightarrow> Some (s\<lparr>as_auth := a, as_passwds := as_passwds s @ (if ok then [v] else [])\<rparr>))"
| "auth_submit s _ = None"

fun auth_step :: "auth_env \<Rightarrow> auth_sys \<Rightarrow> auth_ev \<Rightarrow> auth_sys option" where
  "auth_step E s EvProceed = map_option (goto s) (auth_proceed (as_pc s) (as_auth s))"
| "auth_step E s EvTake = map_option (goto s) (prompt_received (as_pc s) (as_auth s))"
| "auth_step E s (EvDone e) =
     (if e = ErrCanceled \<or> e = ErrDeadline
      then map_option (goto s) (prompt_cancelled E (as_pc s) e (as_auth s)) else None)"
| "auth_step E s (EvSubmitPhone v) = auth_submit s (EvSubmitPhone v)"
| "auth_step E s (EvSubmitCode v) = auth_submit s (EvSubmitCode v)"
| "auth_step E s (EvSubmitPassword v) = auth_submit s (EvSubmitPassword v)"
| "auth_step E s ev = auth_answer E s ev"

fun auth_run :: "auth_env \<Rightarrow> auth_sys \<Rightarrow> auth_ev list \<Rightarrow> auth_sys option" where
  "auth_run E s [] = Some s"
| "auth_run E s (ev # evs) = (case auth_step E s ev of None \<Rightarrow> None | Some s' \<Rightarrow> auth_run E s' evs)"

text \<open>The states the system reaches from a new authenticator.\<close>

inductive auth_reach :: "auth_env \<Rightarrow> auth_sys \<Rightarrow> bool" for E where
  start: "auth_reach E auth_start"
| step: "auth_reach E s \<Longrightarrow> auth_step E s ev = Some t \<Longrightarrow> auth_reach E t"

section \<open>Case analysis of a step\<close>

lemma auth_stepE:
  assumes "auth_step E s ev = Some t"
  obtains (proceed) k where "ev = EvProceed" "auth_proceed (as_pc s) (as_auth s) = Some k" "t = goto s k"
  | (take) k where "ev = EvTake" "prompt_received (as_pc s) (as_auth s) = Some k" "t = goto s k"
  | (cancel) e k where "ev = EvDone e" "e = ErrCanceled \<or> e = ErrDeadline"
      "prompt_cancelled E (as_pc s) e (as_auth s) = Some k" "t = goto s k"
  | (phone) v ok ch where "ev = EvSubmitPhone v" "trySend (au_phoneCh (as_auth s)) v = Inr (ok, ch)"
      "t = s\<lparr>as_auth := (as_auth s)\<lparr>au_phoneCh := ch\<rparr>, as_phones := as_phones s @ (if ok then [v] else [])\<rparr>"
  | (code) v ok ch where "ev = EvSubmitCode v" "trySend (au_codeCh (as_auth s)) v = Inr (ok, ch)"
      "t = s\<lparr>as_auth := (as_auth s)\<lparr>au_codeCh := ch\<rparr>, as_codes := as_codes s @ (if ok then [v] else [])\<rparr>"
  | (passwd) v ok ch where "ev = EvSubmitPassword v" "trySend (au_passwdCh (as_auth s)) v = Inr (ok, ch)"
      "t = s\<lparr>as_auth := (as_auth s)\<lparr>au_passwdCh := ch\<rparr>, as_passwds := as_passwds s @ (if ok then [v] else [])\<rparr>"
  | (status) r where "as_pc s = RpcStatus" "t = answered (CallStatus r) (goto s (after_status r (as_auth s)))"
  | (sent) p r where "as_pc s = RpcSendCode p"
      "t = answered (CallSendCode p r) (goto s (after_send_code E p r (as_auth s)))"
  | (signed) p c h r where "as_pc s = RpcSignIn p c h"
      "t = answered (CallSignIn p c h r) (goto s (after_sign_in E p h r (as_auth s)))"
  | (checked) p r where "as_pc s = RpcPassword p"
      "t = answered (CallPassword p r) (goto s (after_password E r (as_auth s)))"
  using assms
  by (cases ev)
    (auto simp: SubmitPhone_def SubmitCode_def SubmitPassword_def auth_answer_def
      split: if_splits sum.splits prod.splits auth_pc.splits)

lemma goto_simps [simp]:
  "as_pc (goto s k) = fst k" "as_auth (goto s k) = snd k" "as_calls (goto s k) = as_calls s"
  "as_phones (goto s k) = as_phones s" "as_codes (goto s k) = as_codes s" "as_passwds (goto s k) = as_passwds s"
  by (simp_all add: goto_def)

lemma answered_simps [simp]:
  "as_pc (answered c s) = as_pc s" "as_auth (answered c s) = as_auth s"
  "as_calls (answered c s) = as_calls s @ [c]"
  "as_phones (answered c s) = as_phones s" "as_codes (answered c s) = as_codes s"
  "as_passwds (answered c s) = as_passwds s"
  by (simp_all add: answered_def)

lemma setState_simps [simp]:
  "au_state (setState st e a) = st" "au_lastErr (setState st e a) = e"
  "au_phoneCh (setState st e a) = au_phoneCh a" "au_codeCh (setState st e a) = au_codeCh a"
  "au_passwdCh (setState st e a) = au_passwdCh a"
  by (simp_all add: setState_def)

lemmas auth_after_defs =
  after_status_def after_send_code_def after_sign_in_def after_password_def sign_in_failed_def

text \<open>Only the prompts and the submissions touch the channels.\<close>

lemma after_chans [simp]:
  "au_phoneCh (snd (after_status b a)) = au_phoneCh a" "au_codeCh (snd (after_status b a)) = au_codeCh a"
  "au_passwdCh (snd (after_status b a)) = au_passwdCh a"
  "au_phoneCh (snd (after_send_code E p r a)) = au_phoneCh a" "au_codeCh (snd (after_send_code E p r a)) = au_codeCh a"
  "au_passwdCh (snd (after_send_code E p r a)) = au_passwdCh a"
  "au_phoneCh (snd (after_sign_in E p h q a)) = au_phoneCh a" "au_codeCh (snd (after_sign_in E p h q a)) = au_codeCh a"
  "au_passwdCh (snd (after_sign_in E p h q a)) = au_passwdCh a"
  "au_phoneCh (snd (after_password E q a)) = au_phoneCh a" "au_codeCh (snd (after_password E q a)) = au_codeCh a"
  "au_passwdCh (snd (after_password E q a)) = au_passwdCh a"
  "au_phoneCh (snd (sign_in_failed E e a)) = au_phoneCh a" "au_codeCh (snd (sign_in_failed E e a)) = au_codeCh a"
  "au_passwdCh (snd (sign_in_failed E e a)) = au_passwdCh a"
  by (auto simp: auth_after_defs split: sum.splits sent_code.splits option.splits)

lemma proceed_chans:
  assumes "auth_proceed pc a = Some k"
  shows "au_phoneCh (snd k) = au_phoneCh a" "au_codeCh (snd k) = au_codeCh a" "au_passwdCh (snd k) = au_passwdCh a"
  using assms by (cases "(pc, a)" rule: auth_proceed.cases; force)+

lemma cancelled_chans:
  assumes "prompt_cancelled E pc e a = Some k"
  shows "au_phoneCh (snd k) = au_phoneCh a" "au_codeCh (snd k) = au_codeCh a" "au_passwdCh (snd k) = au_passwdCh a"
  using assms by (cases "(E, pc, e, a)" rule: prompt_cancelled.cases; force)+

section \<open>The values handed over\<close>

text \<open>Phones, codes and passwords that went into calls to Telegram, and the one about to.\<close>

fun call_phone :: "auth_call \<Rightarrow> string list" where
  "call_phone (CallSendCode p r) = [p]"
| "call_phone _ = []"

fun call_code :: "auth_call \<Rightarrow> string list" where
  "call_code (CallSignIn p c h r) = [c]"
| "call_code _ = []"

fun call_passwd :: "auth_call \<Rightarrow> string list" where
  "call_passwd (CallPassword p r) = [p]"
| "call_passwd _ = []"

fun pc_phone :: "auth_pc \<Rightarrow> string list" where
  "pc_phone (RpcSendCode p) = [p]"
| "pc_phone _ = []"

fun pc_code :: "auth_pc \<Rightarrow> string list" where
  "pc_code (RpcSignIn p c h) = [c]"
| "pc_code _ = []"

fun pc_passwd :: "auth_pc \<Rightarrow> string list" where
  "pc_passwd (RpcPassword p) = [p]"
| "pc_passwd _ = []"

definition used_phones :: "auth_sys \<Rightarrow> string list" where
  "used_phones s = concat (map call_phone (as_calls s)) @ pc_phone (as_pc s)"

definition used_codes :: "auth_sys \<Rightarrow> string list" where
  "used_codes s = concat (map call_code (as_calls s)) @ pc_code (as_pc s)"

definition used_passwds :: "auth_sys \<Rightarrow> string list" where
  "used_passwds s = concat (map call_passwd (as_calls s)) @ pc_passwd (as_pc s)"

lemmas used_defs = used_phones_def used_codes_def used_passwds_def

definition prompt_chan :: "string chan \<Rightarrow> bool" where
  "prompt_chan c \<longleftrightarrow> ch_cap c = 1 \<and> \<not> ch_closed c \<and> chan_ok c"

definition fifo_inv :: "auth_sys \<Rightarrow> bool" where
  "fifo_inv s \<longleftrightarrow>
     prompt_chan (au_phoneCh (as_auth s)) \<and> prompt_chan (au_codeCh (as_auth s))
   \<and> prompt_chan (au_passwdCh (as_auth s))
   \<and> used_phones s @ ch_buf (au_phoneCh (as_auth s)) = as_phones s
   \<and> used_codes s @ ch_buf (au_codeCh (as_auth s)) = as_codes s
   \<and> used_passwds s @ ch_buf (au_passwdCh (as_auth s)) = as_passwds s"

lemma prompt_send:
  assumes "prompt_chan c" and "trySend c v = Inr (ok, c')"
  shows "prompt_chan c'" "ch_buf c' = ch_buf c @ (if ok then [v] else [])" "ok \<longleftrightarrow> ch_buf c = []"
  using assms by (auto simp: trySend_def prompt_chan_def chan_try_send_def chan_ok_def split: if_splits)

lemma prompt_recvE:
  assumes "prompt_chan c" and "prompt_recv c = Some (v, c')"
  shows "prompt_chan c'" "ch_buf c = v # ch_buf c'"
  using assms
  by (auto simp: prompt_recv_def prompt_chan_def chan_recv_def chan_ok_def
      split: option.splits list.splits if_splits)

text \<open>No continuation but that of a prompt starts with a call that uses a submitted value.\<close>

lemma after_pc [simp]:
  "pc_phone (fst (after_status b a)) = []" "pc_code (fst (after_status b a)) = []" "pc_passwd (fst (after_status b a)) = []"
  "pc_phone (fst (after_send_code E p r a)) = []" "pc_code (fst (after_send_code E p r a)) = []"
  "pc_passwd (fst (after_send_code E p r a)) = []"
  "pc_phone (fst (after_sign_in E p h q a)) = []" "pc_code (fst (after_sign_in E p h q a)) = []"
  "pc_passwd (fst (after_sign_in E p h q a)) = []"
  "pc_phone (fst (after_password E q a)) = []" "pc_code (fst (after_password E q a)) = []"
  "pc_passwd (fst (after_password E q a)) = []"
  "pc_phone (fst (sign_in_failed E e a)) = []" "pc_code (fst (sign_in_failed E e a)) = []"
  "pc_passwd (fst (sign_in_failed E e a)) = []"
  by (auto simp: auth_after_defs split: sum.splits sent_code.splits option.splits)

lemma proceed_pc:
  assumes "auth_proceed pc a = Some k"
  shows "pc_phone (fst k) = [] \<and> pc_code (fst k) = [] \<and> pc_passwd (fst k) = []
       \<and> pc_phone pc = [] \<and> pc_code pc = [] \<and> pc_passwd pc = []"
  using assms by (cases "(pc, a)" rule: auth_proceed.cases) auto

lemma cancelled_pc:
  assumes "prompt_cancelled E pc e a = Some k"
  shows "pc_phone (fst k) = [] \<and> pc_code (fst k) = [] \<and> pc_passwd (fst k) = []
       \<and> pc_phone pc = [] \<and> pc_code pc = [] \<and> pc_passwd pc = []"
  using assms by (cases "(E, pc, e, a)" rule: prompt_cancelled.cases) auto

lemma fifo_start: "fifo_inv auth_start"
  by (simp add: fifo_inv_def auth_start_def newHTTPAuthenticator_def used_defs prompt_chan_def) (simp add: make_chan_def)

lemma fifo_take:
  assumes "fifo_inv s" and "prompt_received (as_pc s) (as_auth s) = Some k"
  shows "fifo_inv (goto s k)"
proof (cases "as_pc s")
  case WaitPhone
  with assms show ?thesis by (auto simp: fifo_inv_def used_defs dest: prompt_recvE)
next
  case (WaitCode p h)
  with assms show ?thesis by (auto simp: fifo_inv_def used_defs dest: prompt_recvE)
next
  case WaitPassword
  with assms show ?thesis by (auto simp: fifo_inv_def used_defs dest: prompt_recvE)
qed (use assms in simp_all)

lemma fifo_step:
  assumes "auth_step E s ev = Some t" and inv: "fifo_inv s"
  shows "fifo_inv t"
  using assms(1)
proof (cases rule: auth_stepE)
  case (proceed k)
  then show ?thesis using inv proceed_chans [OF proceed(2)] proceed_pc [OF proceed(2)]
    by (simp add: fifo_inv_def used_defs)
next
  case (take k)
  then show ?thesis using fifo_take [OF inv] by simp
next
  case (cancel e k)
  then show ?thesis using inv cancelled_chans [OF cancel(3)] cancelled_pc [OF cancel(3)]
    by (simp add: fifo_inv_def used_defs)
next
  case (phone v ok ch)
  then show ?thesis using inv prompt_send [OF _ phone(2)] by (auto simp: fifo_inv_def used_defs)
next
  case (code v ok ch)
  then show ?thesis using inv prompt_send [OF _ code(2)] by (auto simp: fifo_inv_def used_defs)
next
  case (passwd v ok ch)
  then show ?thesis using inv prompt_send [OF _ passwd(2)] by (auto simp: fifo_inv_def used_defs)
qed (use inv in \<open>simp_all add: fifo_inv_def used_defs\<close>)

lemma fifo_reach: "auth_reach E s \<Longrightarrow> fifo_inv s"
  by (induction rule: auth_reach.induct) (auto intro: fifo_start fifo_step)

section \<open>The calls and the state shown\<close>

text \<open>A call with which Telegram accepted the login.\<close>

fun login_ok :: "auth_call \<Rightarrow> bool" where
  "login_ok (CallStatus r) = (r = Inr True)"
| "login_ok (CallSendCode p r) = False"
| "login_ok (CallSignIn p c h r) = (r = None)"
| "login_ok (CallPassword p r) = (r = None)"

definition login_inv :: "auth_sys \<Rightarrow> bool" where
  "login_inv s \<longleftrightarrow>
     ((\<exists>c \<in> set (as_calls s). login_ok c) \<longleftrightarrow> as_pc s = Returned None \<or> as_pc s = RunAuthorized)"

text \<open>The phone number and code hash of the last \<open>SendCode\<close>, if it succeeded.\<close>

fun sent_by :: "auth_call \<Rightarrow> (string \<times> string) option \<Rightarrow> (string \<times> string) option" where
  "sent_by (CallSendCode p (Inr (AuthSentCode h))) x = Some (p, h)"
| "sent_by (CallSendCode p _) x = None"
| "sent_by _ x = x"

definition last_sent :: "auth_call list \<Rightarrow> (string \<times> string) option" where
  "last_sent cs = fold sent_by cs None"

fun pc_session :: "auth_pc \<Rightarrow> (string \<times> string) option" where
  "pc_session (EnterCode p h) = Some (p, h)"
| "pc_session (WaitCode p h) = Some (p, h)"
| "pc_session (RpcSignIn p c h) = Some (p, h)"
| "pc_session _ = None"

definition sign_ins_ok :: "auth_call list \<Rightarrow> bool" where
  "sign_ins_ok cs \<longleftrightarrow>
     (\<forall>i p c h r. i < length cs \<longrightarrow> cs ! i = CallSignIn p c h r \<longrightarrow> last_sent (take i cs) = Some (p, h))"

definition session_inv :: "auth_sys \<Rightarrow> bool" where
  "session_inv s \<longleftrightarrow>
     (\<forall>x. pc_session (as_pc s) = Some x \<longrightarrow> last_sent (as_calls s) = Some x) \<and> sign_ins_ok (as_calls s)"

text \<open>What \<open>Status\<close> shows at each point of the login.\<close>

fun shown_ok :: "auth_pc \<Rightarrow> AuthState \<times> goerr option \<Rightarrow> bool" where
  "shown_ok RpcStatus x = (x = (AuthIdle, None))"
| "shown_ok EnterPhone x = (x = (AuthIdle, None) \<or> (fst x = AuthNeedPhone \<and> snd x \<noteq> None))"
| "shown_ok WaitPhone x = (x = (AuthNeedPhone, None))"
| "shown_ok (RpcSendCode p) x = (x = (AuthNeedPhone, None))"
| "shown_ok (EnterCode p h) x = (x = (AuthNeedPhone, None) \<or> (fst x = AuthNeedCode \<and> snd x \<noteq> None))"
| "shown_ok (WaitCode p h) x = (x = (AuthNeedCode, None))"
| "shown_ok (RpcSignIn p c h) x = (x = (AuthNeedCode, None))"
| "shown_ok EnterPassword x = (x = (AuthNeedCode, None) \<or> (fst x = AuthNeedPass \<and> snd x \<noteq> None))"
| "shown_ok WaitPassword x = (x = (AuthNeedPass, None))"
| "shown_ok (RpcPassword p) x = (x = (AuthNeedPass, None))"
| "shown_ok (Returned r) x = (fst x \<noteq> AuthAuthorized \<and> fst x \<noteq> AuthError)"
| "shown_ok RunAuthorized x = (x = (AuthAuthorized, None))"
| "shown_ok (RunFailed e) x = (\<exists>e'. x = (AuthError, Some e') \<and> e = ErrWrap ''auth'' e')"

definition shown_inv :: "auth_sys \<Rightarrow> bool" where
  "shown_inv s \<longleftrightarrow> shown_ok (as_pc s) (Status (as_auth s))"

lemma last_sent_snoc [simp]: "last_sent (cs @ [c]) = sent_by c (last_sent cs)"
  by (simp add: last_sent_def)

lemma sign_ins_snoc:
  "sign_ins_ok (cs @ [c]) \<longleftrightarrow>
     sign_ins_ok cs \<and> (\<forall>p v h r. c = CallSignIn p v h r \<longrightarrow> last_sent cs = Some (p, h))"
proof -
  have "sign_ins_ok (cs @ [c]) \<longleftrightarrow>
      (\<forall>i < length cs. \<forall>p v h r. cs ! i = CallSignIn p v h r \<longrightarrow> last_sent (take i cs) = Some (p, h))
      \<and> (\<forall>p v h r. c = CallSignIn p v h r \<longrightarrow> last_sent cs = Some (p, h))"
    unfolding sign_ins_ok_def by (auto simp: nth_append less_Suc_eq)
  then show ?thesis unfolding sign_ins_ok_def by blast
qed

lemma login_step:
  assumes "auth_step E s ev = Some t" and inv: "login_inv s"
  shows "login_inv t"
  using assms(1)
proof (cases rule: auth_stepE)
  case (proceed k)
  then show ?thesis using inv
    by (cases "(as_pc s, as_auth s)" rule: auth_proceed.cases) (auto simp: login_inv_def)
next
  case (take k)
  then show ?thesis using inv
    by (cases "(as_pc s, as_auth s)" rule: prompt_received.cases) (auto simp: login_inv_def)
next
  case (cancel e k)
  then show ?thesis using inv
    by (cases "(E, as_pc s, e, as_auth s)" rule: prompt_cancelled.cases)
      (auto simp: login_inv_def sign_in_failed_def split: if_splits)
next
  case (status r)
  then show ?thesis using inv by (auto simp: login_inv_def after_status_def split: sum.splits)
next
  case (sent p r)
  then show ?thesis using inv
    by (auto simp: login_inv_def after_send_code_def split: sum.splits sent_code.splits)
next
  case (signed p c h r)
  then show ?thesis using inv
    by (auto simp: login_inv_def after_sign_in_def sign_in_failed_def split: option.splits)
next
  case (checked p r)
  then show ?thesis using inv by (auto simp: login_inv_def after_password_def split: option.splits)
qed (use inv in \<open>simp_all add: login_inv_def\<close>)

lemma session_step:
  assumes "auth_step E s ev = Some t" and inv: "session_inv s"
  shows "session_inv t"
  using assms(1)
proof (cases rule: auth_stepE)
  case (proceed k)
  then show ?thesis using inv
    by (cases "(as_pc s, as_auth s)" rule: auth_proceed.cases) (auto simp: session_inv_def)
next
  case (take k)
  then show ?thesis using inv
    by (cases "(as_pc s, as_auth s)" rule: prompt_received.cases) (auto simp: session_inv_def)
next
  case (cancel e k)
  then show ?thesis using inv
    by (cases "(E, as_pc s, e, as_auth s)" rule: prompt_cancelled.cases)
      (auto simp: session_inv_def sign_in_failed_def split: if_splits)
next
  case (status r)
  then show ?thesis using inv
    by (auto simp: session_inv_def after_status_def sign_ins_snoc split: sum.splits)
next
  case (sent p r)
  then show ?thesis using inv
    by (auto simp: session_inv_def after_send_code_def sign_ins_snoc split: sum.splits sent_code.splits)
next
  case (signed p c h r)
  then show ?thesis using inv
    by (auto simp: session_inv_def after_sign_in_def sign_in_failed_def sign_ins_snoc split: option.splits)
next
  case (checked p r)
  then show ?thesis using inv
    by (auto simp: session_inv_def after_password_def sign_ins_snoc split: option.splits)
qed (use inv in \<open>simp_all add: session_inv_def\<close>)

lemma shown_step:
  assumes "auth_step E s ev = Some t" and inv: "shown_inv s"
  shows "shown_inv t"
  using assms(1)
proof (cases rule: auth_stepE)
  case (proceed k)
  then show ?thesis using inv
    by (cases "(as_pc s, as_auth s)" rule: auth_proceed.cases) (auto simp: shown_inv_def Status_def)
next
  case (take k)
  then show ?thesis using inv
    by (cases "(as_pc s, as_auth s)" rule: prompt_received.cases) (auto simp: shown_inv_def Status_def)
next
  case (cancel e k)
  then show ?thesis using inv
    by (cases "(E, as_pc s, e, as_auth s)" rule: prompt_cancelled.cases)
      (auto simp: shown_inv_def Status_def sign_in_failed_def split: if_splits)
next
  case (status r)
  then show ?thesis using inv
    by (auto simp: shown_inv_def Status_def after_status_def split: sum.splits)
next
  case (sent p r)
  then show ?thesis using inv
    by (auto simp: shown_inv_def Status_def after_send_code_def split: sum.splits sent_code.splits)
next
  case (signed p c h r)
  then show ?thesis using inv
    by (auto simp: shown_inv_def Status_def after_sign_in_def sign_in_failed_def split: option.splits)
next
  case (checked p r)
  then show ?thesis using inv
    by (auto simp: shown_inv_def Status_def after_password_def split: option.splits)
qed (use inv in \<open>simp_all add: shown_inv_def Status_def\<close>)

lemma auth_reach_inv: "auth_reach E s \<Longrightarrow> login_inv s \<and> session_inv s \<and> shown_inv s"
proof (induction rule: auth_reach.induct)
  case start
  show ?case
    by (simp add: auth_start_def newHTTPAuthenticator_def login_inv_def session_inv_def shown_inv_def
        Status_def sign_ins_ok_def)
next
  case (step s ev t)
  then show ?case using login_step session_step shown_step by blast
qed

section \<open>Progress\<close>

lemma auth_run_reach: "auth_run E s evs = Some t \<Longrightarrow> auth_reach E s \<Longrightarrow> auth_reach E t"
  by (induction evs arbitrary: s) (auto intro: auth_reach.step split: option.splits)

text \<open>The continuation that submits the value 1 where one is awaited.\<close>

fun plain_ev :: "auth_ev \<Rightarrow> bool" where
  "plain_ev (EvSubmitPhone v) = (v = ''1'')"
| "plain_ev (EvSubmitCode v) = (v = ''1'')"
| "plain_ev (EvSubmitPassword v) = (v = ''1'')"
| "plain_ev _ = True"

definition can_finish :: "auth_env \<Rightarrow> auth_sys \<Rightarrow> bool" where
  "can_finish E s \<longleftrightarrow> (\<exists>evs t. auth_run E s evs = Some t \<and> list_all plain_ev evs \<and> as_pc t = RunAuthorized)"

lemma can_finishI: "as_pc s = RunAuthorized \<Longrightarrow> can_finish E s"
  unfolding can_finish_def by (rule exI [of _ "[]"]) simp

lemma can_finish_step:
  assumes "auth_step E s ev = Some t" and "plain_ev ev" and "can_finish E t"
  shows "can_finish E s"
proof -
  obtain evs u where "auth_run E t evs = Some u" "list_all plain_ev evs" "as_pc u = RunAuthorized"
    using assms(3) by (auto simp: can_finish_def)
  with assms(1,2) have "auth_run E s (ev # evs) = Some u" "list_all plain_ev (ev # evs)" by simp_all
  with \<open>as_pc u = RunAuthorized\<close> show ?thesis unfolding can_finish_def by blast
qed

lemma finish_returned: "as_pc s = Returned None \<Longrightarrow> can_finish E s"
  by (rule can_finish_step [of _ _ EvProceed], simp, simp, rule can_finishI) simp

lemma finish_sign_in: "as_pc s = RpcSignIn p c h \<Longrightarrow> can_finish E s"
  by (rule can_finish_step [of _ _ "EvSignIn None"], simp add: auth_answer_def, simp, rule finish_returned)
    (simp add: after_sign_in_def)

lemma finish_rpc_password: "as_pc s = RpcPassword p \<Longrightarrow> can_finish E s"
  by (rule can_finish_step [of _ _ "EvPassword None"], simp add: auth_answer_def, simp, rule finish_returned)
    (simp add: after_password_def)

lemma prompt_take: "prompt_chan c \<Longrightarrow> ch_buf c \<noteq> [] \<Longrightarrow> \<exists>v c'. prompt_recv c = Some (v, c')"
  by (cases "ch_buf c") (auto simp: prompt_recv_def chan_recv_def)

lemma prompt_fill:
  "prompt_chan c \<Longrightarrow> ch_buf c = [] \<Longrightarrow> \<exists>c'. trySend c v = Inr (True, c') \<and> prompt_chan c' \<and> ch_buf c' = [v]"
  using prompt_send [of c v] by (auto simp: trySend_def prompt_chan_def chan_try_send_def chan_ok_def)

lemma finish_wait_code_full:
  assumes "as_pc s = WaitCode p h" and "fifo_inv s" and "ch_buf (au_codeCh (as_auth s)) \<noteq> []"
  shows "can_finish E s"
proof -
  have "prompt_chan (au_codeCh (as_auth s))" using assms(2) by (simp add: fifo_inv_def)
  from prompt_take [OF this assms(3)] obtain v c' where r: "prompt_recv (au_codeCh (as_auth s)) = Some (v, c')"
    by blast
  with assms(1) have st: "auth_step E s EvTake = Some (goto s (RpcSignIn p v h, (as_auth s)\<lparr>au_codeCh := c'\<rparr>))"
    by simp
  show ?thesis by (rule can_finish_step [OF st _ finish_sign_in]) simp_all
qed

lemma finish_wait_code:
  assumes "as_pc s = WaitCode p h" and "fifo_inv s"
  shows "can_finish E s"
proof (cases "ch_buf (au_codeCh (as_auth s)) = []")
  case True
  have "prompt_chan (au_codeCh (as_auth s))" using assms(2) by (simp add: fifo_inv_def)
  from prompt_fill [OF this True, of "''1''"] obtain c' where
    c': "trySend (au_codeCh (as_auth s)) ''1'' = Inr (True, c')" "ch_buf c' = [''1'']" by blast
  then have st: "auth_step E s (EvSubmitCode ''1'') =
      Some (s\<lparr>as_auth := (as_auth s)\<lparr>au_codeCh := c'\<rparr>, as_codes := as_codes s @ [''1'']\<rparr>)"
    by (simp add: SubmitCode_def)
  show ?thesis
    by (rule can_finish_step [OF st _ finish_wait_code_full]) (use assms fifo_step [OF st assms(2)] c' in simp_all)
next
  case False
  then show ?thesis using assms by (auto intro: finish_wait_code_full)
qed

lemma finish_enter_code: "as_pc s = EnterCode p h \<Longrightarrow> fifo_inv s \<Longrightarrow> can_finish E s"
  by (rule can_finish_step [of _ _ EvProceed], simp, simp, rule finish_wait_code)
    (auto intro: fifo_step [of E s EvProceed])

lemma finish_send_code: "as_pc s = RpcSendCode p \<Longrightarrow> fifo_inv s \<Longrightarrow> can_finish E s"
  by (rule can_finish_step [of _ _ "EvSendCode (Inr (AuthSentCode []))"], simp add: auth_answer_def, simp,
      rule finish_enter_code)
    (auto simp: after_send_code_def auth_answer_def
      intro: fifo_step [of E s "EvSendCode (Inr (AuthSentCode []))"])

lemma finish_wait_phone_full:
  assumes "as_pc s = WaitPhone" and "fifo_inv s" and "ch_buf (au_phoneCh (as_auth s)) \<noteq> []"
  shows "can_finish E s"
proof -
  have "prompt_chan (au_phoneCh (as_auth s))" using assms(2) by (simp add: fifo_inv_def)
  from prompt_take [OF this assms(3)] obtain v c' where r: "prompt_recv (au_phoneCh (as_auth s)) = Some (v, c')"
    by blast
  with assms(1) have st: "auth_step E s EvTake = Some (goto s (RpcSendCode v, (as_auth s)\<lparr>au_phoneCh := c'\<rparr>))"
    by simp
  show ?thesis by (rule can_finish_step [OF st _ finish_send_code]) (use fifo_step [OF st assms(2)] in simp_all)
qed

lemma finish_wait_phone:
  assumes "as_pc s = WaitPhone" and "fifo_inv s"
  shows "can_finish E s"
proof (cases "ch_buf (au_phoneCh (as_auth s)) = []")
  case True
  have "prompt_chan (au_phoneCh (as_auth s))" using assms(2) by (simp add: fifo_inv_def)
  from prompt_fill [OF this True, of "''1''"] obtain c' where
    c': "trySend (au_phoneCh (as_auth s)) ''1'' = Inr (True, c')" "ch_buf c' = [''1'']" by blast
  then have st: "auth_step E s (EvSubmitPhone ''1'') =
      Some (s\<lparr>as_auth := (as_auth s)\<lparr>au_phoneCh := c'\<rparr>, as_phones := as_phones s @ [''1'']\<rparr>)"
    by (simp add: SubmitPhone_def)
  show ?thesis
    by (rule can_finish_step [OF st _ finish_wait_phone_full]) (use assms fifo_step [OF st assms(2)] c' in simp_all)
next
  case False
  then show ?thesis using assms by (auto intro: finish_wait_phone_full)
qed

lemma finish_enter_phone: "as_pc s = EnterPhone \<Longrightarrow> fifo_inv s \<Longrightarrow> can_finish E s"
  by (rule can_finish_step [of _ _ EvProceed], simp, simp, rule finish_wait_phone)
    (auto intro: fifo_step [of E s EvProceed])

lemma finish_wait_password_full:
  assumes "as_pc s = WaitPassword" and "fifo_inv s" and "ch_buf (au_passwdCh (as_auth s)) \<noteq> []"
  shows "can_finish E s"
proof -
  have "prompt_chan (au_passwdCh (as_auth s))" using assms(2) by (simp add: fifo_inv_def)
  from prompt_take [OF this assms(3)] obtain v c' where r: "prompt_recv (au_passwdCh (as_auth s)) = Some (v, c')"
    by blast
  with assms(1) have st: "auth_step E s EvTake = Some (goto s (RpcPassword v, (as_auth s)\<lparr>au_passwdCh := c'\<rparr>))"
    by simp
  show ?thesis by (rule can_finish_step [OF st _ finish_rpc_password]) simp_all
qed

lemma finish_wait_password:
  assumes "as_pc s = WaitPassword" and "fifo_inv s"
  shows "can_finish E s"
proof (cases "ch_buf (au_passwdCh (as_auth s)) = []")
  case True
  have "prompt_chan (au_passwdCh (as_auth s))" using assms(2) by (simp add: fifo_inv_def)
  from prompt_fill [OF this True, of "''1''"] obtain c' where
    c': "trySend (au_passwdCh (as_auth s)) ''1'' = Inr (True, c')" "ch_buf c' = [''1'']" by blast
  then have st: "auth_step E s (EvSubmitPassword ''1'') =
      Some (s\<lparr>as_auth := (as_auth s)\<lparr>au_passwdCh := c'\<rparr>, as_passwds := as_passwds s @ [''1'']\<rparr>)"
    by (simp add: SubmitPassword_def)
  show ?thesis
    by (rule can_finish_step [OF st _ finish_wait_password_full]) (use assms fifo_step [OF st assms(2)] c' in simp_all)
next
  case False
  then show ?thesis using assms by (auto intro: finish_wait_password_full)
qed

lemma finish_enter_password: "as_pc s = EnterPassword \<Longrightarrow> fifo_inv s \<Longrightarrow> can_finish E s"
  by (rule can_finish_step [of _ _ EvProceed], simp, simp, rule finish_wait_password)
    (auto intro: fifo_step [of E s EvProceed])

lemma finish_status: "as_pc s = RpcStatus \<Longrightarrow> can_finish E s"
  by (rule can_finish_step [of _ _ "EvStatus (Inr True)"], simp add: auth_answer_def, simp, rule finish_returned)
    (simp add: after_status_def)

lemmas finish_rules =
  finish_status finish_enter_phone finish_wait_phone finish_send_code finish_enter_code finish_wait_code
  finish_sign_in finish_enter_password finish_wait_password finish_rpc_password finish_returned can_finishI

section \<open>Properties\<close>

text \<open>A library that recognises errors by their text, for the examples.\<close>

definition text_env :: auth_env where
  "text_env = \<lparr>ae_tgerr_Is = (\<lambda>e ts. error_text e \<in> set ts),
     ae_ErrPasswordAuthNeeded = ErrExt ''2FA required'', ae_ErrPasswordInvalid = ErrExt ''invalid password''\<rparr>"

text \<open>A login with a rejected phone number, a mistyped code and a two-factor password.\<close>

definition sample_login :: "auth_ev list" where
  "sample_login =
     [EvStatus (Inr False), EvProceed, EvSubmitPhone ''+1'', EvTake,
      EvSendCode (Inl (ErrExt ''PHONE_NUMBER_INVALID'')), EvProceed, EvSubmitPhone ''+2'', EvTake,
      EvSendCode (Inr (AuthSentCode ''h'')), EvProceed, EvSubmitCode ''11'', EvTake,
      EvSignIn (Some (ErrExt ''PHONE_CODE_INVALID'')), EvProceed, EvSubmitCode ''12'', EvTake,
      EvSignIn (Some (ErrExt ''2FA required'')), EvProceed, EvSubmitPassword ''pw'', EvTake,
      EvPassword None, EvProceed]"

definition sample_calls :: "auth_call list" where
  "sample_calls =
     [CallStatus (Inr False), CallSendCode ''+1'' (Inl (ErrExt ''PHONE_NUMBER_INVALID'')),
      CallSendCode ''+2'' (Inr (AuthSentCode ''h'')),
      CallSignIn ''+2'' ''11'' ''h'' (Some (ErrExt ''PHONE_CODE_INVALID'')),
      CallSignIn ''+2'' ''12'' ''h'' (Some (ErrExt ''2FA required'')), CallPassword ''pw'' None]"

lemmas auth_eval =
  auth_start_def newHTTPAuthenticator_def make_chan_def auth_answer_def auth_after_defs goto_def answered_def
  setState_def SubmitPhone_def SubmitCode_def SubmitPassword_def trySend_def chan_try_send_def
  prompt_recv_def chan_recv_def text_env_def recoverablePhoneErrs_def

lemma sample_login_run:
  "\<exists>s. auth_run text_env auth_start sample_login = Some s \<and> as_pc s = RunAuthorized
     \<and> as_calls s = sample_calls \<and> as_phones s = [''+1'', ''+2''] \<and> as_codes s = [''11'', ''12'']
     \<and> as_passwds s = [''pw'']"
  by (simp add: sample_login_def sample_calls_def auth_eval)

lemma sample_login_reach:
  "\<exists>s. auth_reach text_env s \<and> as_pc s = RunAuthorized
     \<and> as_calls s = sample_calls \<and> as_phones s = [''+1'', ''+2''] \<and> as_codes s = [''11'', ''12'']
     \<and> as_passwds s = [''pw'']"
  using sample_login_run auth_run_reach [OF _ auth_reach.start] by blast

text \<open>
  C9: The login is over with success exactly when Telegram accepted it: \<open>Status\<close> shows
  \<open>authorized\<close> only after \<open>runAuth\<close> returned nil, and \<open>runAuth\<close> has returned nil exactly when one of
  its calls reported an authorized session, a completed sign-in or a correct password. A failed
  run shows \<open>error\<close> with the error \<open>Run\<close> wraps.
\<close>

theorem auth_authorized_only_by_telegram:
  assumes "auth_reach E s"
  shows "((\<exists>c \<in> set (as_calls s). login_ok c) \<longleftrightarrow> as_pc s = Returned None \<or> as_pc s = RunAuthorized)
    \<and> (fst (Status (as_auth s)) = AuthAuthorized \<longleftrightarrow> as_pc s = RunAuthorized)
    \<and> (fst (Status (as_auth s)) = AuthError \<longleftrightarrow> (\<exists>e. as_pc s = RunFailed (ErrWrap ''auth'' e)
          \<and> snd (Status (as_auth s)) = Some e))"
proof -
  have "login_inv s" "shown_ok (as_pc s) (Status (as_auth s))"
    using auth_reach_inv [OF assms] by (simp_all add: shown_inv_def)
  then show ?thesis unfolding login_inv_def by (cases "as_pc s") auto
qed

theorem auth_authorized_only_by_telegram_witness:
  "\<exists>s. auth_run text_env auth_start sample_login = Some s \<and> Status (as_auth s) = (AuthAuthorized, None)
    \<and> (\<exists>c \<in> set sample_calls. login_ok c)"
proof -
  obtain s where s: "auth_run text_env auth_start sample_login = Some s" "as_pc s = RunAuthorized"
    "as_calls s = sample_calls" using sample_login_run by blast
  have "auth_reach text_env s" by (rule auth_run_reach [OF s(1) auth_reach.start])
  from auth_authorized_only_by_telegram [OF this] auth_reach_inv [OF this] s
  have "Status (as_auth s) = (AuthAuthorized, None) \<and> (\<exists>c \<in> set sample_calls. login_ok c)"
    by (simp add: shown_inv_def)
  with s(1) show ?thesis by blast
qed

text \<open>
  C19: Every value a \<open>Submit\<close> method accepted reaches Telegram at most once and in the order of
  acceptance: the phone numbers passed to \<open>SendCode\<close>, the codes passed to \<open>SignIn\<close> and the passwords,
  followed by the one about to be passed and the one still in the channel, are the accepted
  ones. At most one value waits, a second submission is refused, and no submission panics.
\<close>

theorem auth_inputs_in_order:
  assumes "auth_reach E s"
  shows "used_phones s @ ch_buf (au_phoneCh (as_auth s)) = as_phones s
    \<and> used_codes s @ ch_buf (au_codeCh (as_auth s)) = as_codes s
    \<and> used_passwds s @ ch_buf (au_passwdCh (as_auth s)) = as_passwds s
    \<and> (\<exists>a. SubmitPhone v (as_auth s) = Inr (ch_buf (au_phoneCh (as_auth s)) = [], a))
    \<and> (\<exists>a. SubmitCode v (as_auth s) = Inr (ch_buf (au_codeCh (as_auth s)) = [], a))
    \<and> (\<exists>a. SubmitPassword v (as_auth s) = Inr (ch_buf (au_passwdCh (as_auth s)) = [], a))"
proof -
  have sub: "\<exists>ch. trySend c v = Inr (ch_buf c = [], ch)" if "prompt_chan c" for c
    using that by (auto simp: trySend_def prompt_chan_def chan_try_send_def)
  have inv: "fifo_inv s" using assms by (rule fifo_reach)
  then have "prompt_chan (au_phoneCh (as_auth s))" "prompt_chan (au_codeCh (as_auth s))"
    "prompt_chan (au_passwdCh (as_auth s))" by (simp_all add: fifo_inv_def)
  from this [THEN sub] inv show ?thesis
    by (auto simp: fifo_inv_def SubmitPhone_def SubmitCode_def SubmitPassword_def)
qed

theorem auth_inputs_in_order_witness:
  "\<exists>s. auth_run text_env auth_start sample_login = Some s
    \<and> [''+1'', ''+2''] @ ch_buf (au_phoneCh (as_auth s)) = [''+1'', ''+2'']
    \<and> used_codes s @ ch_buf (au_codeCh (as_auth s)) = [''11'', ''12'']"
proof -
  obtain s where s: "auth_run text_env auth_start sample_login = Some s" "as_pc s = RunAuthorized"
    "as_calls s = sample_calls" "as_phones s = [''+1'', ''+2'']" "as_codes s = [''11'', ''12'']"
    using sample_login_run by blast
  have "auth_reach text_env s" by (rule auth_run_reach [OF s(1) auth_reach.start])
  from auth_inputs_in_order [OF this] s show ?thesis
    by (auto simp: used_phones_def sample_calls_def)
qed

text \<open>
  C29: Every \<open>SignIn\<close> uses the phone number and the code hash of the latest \<open>SendCode\<close>, which
  succeeded; retrying a mistyped code keeps both.
\<close>

theorem auth_sign_in_uses_last_code_hash:
  assumes "auth_reach E s" and "as_calls s = before @ CallSignIn phone code hash r # rest"
  shows "last_sent before = Some (phone, hash)"
proof -
  have "sign_ins_ok (as_calls s)" using auth_reach_inv [OF assms(1)] by (simp add: session_inv_def)
  then show ?thesis unfolding sign_ins_ok_def
    by (elim allE [of _ "length before"]) (simp add: assms(2))
qed

theorem auth_sign_in_uses_last_code_hash_witness:
  "last_sent (take 4 sample_calls) = Some (''+2'', ''h'')"
proof -
  obtain s where s: "auth_reach text_env s" "as_calls s = sample_calls" using sample_login_reach by blast
  have "as_calls s = take 4 sample_calls @
      CallSignIn ''+2'' ''12'' ''h'' (Some (ErrExt ''2FA required'')) # [CallPassword ''pw'' None]"
    unfolding s(2) by (simp add: sample_calls_def)
  with s(1) show ?thesis by (rule auth_sign_in_uses_last_code_hash)
qed

text \<open>
  Whenever the login waits for the user, \<open>Status\<close> names the value it waits for and shows no
  error: the error that \<open>setState\<close> recorded for a rejected value is cleared by the prompt that
  follows, before the user can answer it.
\<close>

theorem auth_prompt_shows_no_error:
  assumes "auth_reach E s"
  shows "(as_pc s = WaitPhone \<longrightarrow> Status (as_auth s) = (AuthNeedPhone, None))
    \<and> ((\<exists>phone hash. as_pc s = WaitCode phone hash) \<longrightarrow> Status (as_auth s) = (AuthNeedCode, None))
    \<and> (as_pc s = WaitPassword \<longrightarrow> Status (as_auth s) = (AuthNeedPass, None))"
proof -
  have "shown_ok (as_pc s) (Status (as_auth s))" using auth_reach_inv [OF assms] by (simp add: shown_inv_def)
  then show ?thesis by (cases "as_pc s") auto
qed

theorem auth_prompt_shows_no_error_witness:
  "\<exists>s. auth_run text_env auth_start (take 6 sample_login) = Some s \<and> as_pc s = WaitPhone
    \<and> as_calls s = take 2 sample_calls \<and> Status (as_auth s) = (AuthNeedPhone, None)"
proof -
  obtain s where s: "auth_run text_env auth_start (take 6 sample_login) = Some s" "as_pc s = WaitPhone"
    "as_calls s = take 2 sample_calls"
    by (simp add: sample_login_def sample_calls_def auth_eval)
  have "auth_reach text_env s" by (rule auth_run_reach [OF s(1) auth_reach.start])
  from auth_prompt_shows_no_error [OF this] s show ?thesis by blast
qed

text \<open>
  The login can always finish: from every reachable state that has not failed some continuation, by
  submissions and accepting answers, from wherever it stands, ends in the authorized state.
\<close>

lemma auth_can_finish:
  assumes "auth_reach E s" and "\<And>e. as_pc s \<noteq> Returned (Some e)" and "\<And>e. as_pc s \<noteq> RunFailed e"
  shows "\<exists>evs t. auth_run E s evs = Some t \<and> list_all plain_ev evs \<and> as_pc t = RunAuthorized"
proof -
  have inv: "fifo_inv s" using assms(1) by (rule fifo_reach)
  have "can_finish E s"
  proof (cases "as_pc s")
    case (Returned r)
    with assms(2) show ?thesis by (cases r) (auto intro: finish_returned)
  qed (use assms(3) inv in \<open>auto intro: finish_rules\<close>)
  then show ?thesis by (simp add: can_finish_def)
qed

text \<open>
  C30: \<open>runAuth\<close> gives up only when the context ends, the status call fails, \<open>SendCode\<close> answers
  with an unexpected type, or Telegram answers with an error that is not one of the user's
  mistakes (a recoverable phone error, an invalid code, a password being needed, an invalid
  password): a typo never ends the daemon.
\<close>

theorem auth_fails_only_on_fatal:
  assumes "auth_step E s ev = Some t" and "as_pc t = Returned (Some err)" and "as_pc s \<noteq> as_pc t"
  shows "ev = EvDone ErrCanceled \<or> ev = EvDone ErrDeadline
    \<or> (\<exists>e. ev = EvStatus (Inl e)) \<or> (\<exists>x. ev = EvSendCode (Inr (OtherSentCode x)))
    \<or> (\<exists>e. ev = EvSendCode (Inl e) \<and> \<not> ae_tgerr_Is E e recoverablePhoneErrs)
    \<or> (\<exists>e. ev = EvSignIn (Some e) \<and> \<not> ae_tgerr_Is E e [''PHONE_CODE_INVALID'']
          \<and> \<not> ae_tgerr_Is E e recoverablePhoneErrs \<and> \<not> errors_Is e (ae_ErrPasswordAuthNeeded E))
    \<or> (\<exists>e. ev = EvPassword (Some e) \<and> \<not> errors_Is e (ae_ErrPasswordInvalid E))"
proof (cases ev)
  case EvProceed
  with assms show ?thesis by (cases "(as_pc s, as_auth s)" rule: auth_proceed.cases) auto
next
  case EvTake
  with assms show ?thesis by (cases "(as_pc s, as_auth s)" rule: prompt_received.cases) auto
next
  case (EvDone e)
  with assms(1) show ?thesis by (auto split: if_splits)
qed (use assms in \<open>auto simp: auth_answer_def auth_after_defs SubmitPhone_def SubmitCode_def SubmitPassword_def
      split: auth_pc.splits sum.splits sent_code.splits option.splits if_splits\<close>)

theorem auth_fails_only_on_fatal_witness:
  "\<exists>t. auth_step text_env (auth_start\<lparr>as_pc := RpcSendCode ''+1''\<rparr>) (EvSendCode (Inl (ErrExt ''API_ID_INVALID''))) = Some t
     \<and> as_pc t = Returned (Some (ErrWrap ''send code'' (ErrExt ''API_ID_INVALID'')))
     \<and> \<not> ae_tgerr_Is text_env (ErrExt ''API_ID_INVALID'') recoverablePhoneErrs"
proof -
  let ?s = "auth_start\<lparr>as_pc := RpcSendCode ''+1''\<rparr>"
  obtain t where t: "auth_step text_env ?s (EvSendCode (Inl (ErrExt ''API_ID_INVALID''))) = Some t"
    "as_pc t = Returned (Some (ErrWrap ''send code'' (ErrExt ''API_ID_INVALID'')))"
    by (simp add: auth_eval)
  from auth_fails_only_on_fatal [OF t] t(2)
  have "\<not> ae_tgerr_Is text_env (ErrExt ''API_ID_INVALID'') recoverablePhoneErrs" by simp
  with t show ?thesis by (intro exI [of _ t] conjI)
qed

text \<open>
  A code is accepted while no prompt is waiting, even before the login began, and is later
  used for the first code prompt, whichever phone number it is for.
\<close>

theorem auth_early_code_is_used:
  "\<exists>s. auth_run E auth_start [EvSubmitCode code] = Some s \<and> as_codes s = [code] \<and> as_pc s = RpcStatus
    \<and> map_option as_pc (auth_run E s
        [EvStatus (Inr False), EvProceed, EvSubmitPhone phone, EvTake,
         EvSendCode (Inr (AuthSentCode hash)), EvProceed, EvTake]) = Some (RpcSignIn phone code hash)"
  by (simp add: auth_eval)

end
