(* ===== verification/Utf8.thy ===== *)
theory Utf8
  imports Go_Strings
begin

text \<open>
  UTF-8 as Go's package \<open>unicode/utf8\<close> sees it: which byte sequences are runes, the encoding of a
  rune, and the replacement of ill-formed bytes by U+FFFD, which is what encoding a string as JSON
  and decoding one both do.
\<close>

section \<open>Runes\<close>

text \<open>Well-formed UTF-8: the byte sequences of the Unicode standard.\<close>

definition cont :: "char \<Rightarrow> bool" where
  "cont c \<longleftrightarrow> 128 \<le> (of_char c :: nat) \<and> (of_char c :: nat) \<le> 191"

definition between :: "nat \<Rightarrow> char \<Rightarrow> nat \<Rightarrow> bool" where
  "between a c b \<longleftrightarrow> a \<le> (of_char c :: nat) \<and> (of_char c :: nat) \<le> b"

text \<open>The second byte of a rune of three and of four bytes, which excludes overlong forms, surrogates
  and numbers beyond U+10FFFF.\<close>

definition second3 :: "char \<Rightarrow> char \<Rightarrow> bool" where
  "second3 a b \<longleftrightarrow> between 224 a 239 \<and> between (if a = CHR 0xE0 then 160 else 128) b (if a = CHR 0xED then 159 else 191)"

definition second4 :: "char \<Rightarrow> char \<Rightarrow> bool" where
  "second4 a b \<longleftrightarrow> between 240 a 244 \<and> between (if a = CHR 0xF0 then 144 else 128) b (if a = CHR 0xF4 then 143 else 191)"

text \<open>The length of the rune a string starts with, 0 when its bytes are ill-formed.\<close>

definition rune_len :: "string \<Rightarrow> nat" where
  "rune_len s =
     (case s of
        [] \<Rightarrow> 0
      | [a] \<Rightarrow> if between 0 a 127 then 1 else 0
      | [a, b] \<Rightarrow> if between 0 a 127 then 1 else if between 194 a 223 \<and> cont b then 2 else 0
      | a # b # c # r \<Rightarrow>
          if between 0 a 127 then 1
          else if between 194 a 223 \<and> cont b then 2
          else if second3 a b \<and> cont c then 3
          else if second4 a b \<and> cont c \<and> r \<noteq> [] \<and> cont (hd r) then 4
          else 0)"

fun utf8_loop :: "nat \<Rightarrow> string \<Rightarrow> bool" where
  "utf8_loop n [] = True"
| "utf8_loop 0 (c # s) = False"
| "utf8_loop (Suc n) (c # s) = (rune_len (c # s) \<noteq> 0 \<and> utf8_loop n (drop (rune_len (c # s)) (c # s)))"

definition valid_utf8 :: "string \<Rightarrow> bool" where
  "valid_utf8 s = utf8_loop (length s) s"

text \<open>The four lengths, told apart by the first byte.\<close>

lemma rune_len_cases:
  assumes "rune_len s = n" and "n \<noteq> 0"
  obtains (one) a t where "s = a # t" "between 0 a 127" "n = 1"
  | (two) a b t where "s = a # b # t" "\<not> between 0 a 127" "between 194 a 223" "cont b" "n = 2"
  | (three) a b c t where "s = a # b # c # t" "\<not> between 0 a 127" "\<not> between 194 a 223" "second3 a b" "cont c" "n = 3"
  | (four) a b c d t where "s = a # b # c # d # t" "\<not> between 0 a 127" "\<not> between 194 a 223" "\<not> second3 a b"
      "second4 a b" "cont c" "cont d" "n = 4"
proof -
  have excl: "\<not> (between 194 a 223 \<and> second3 a b)" "\<not> (between 194 a 223 \<and> second4 a b)"
    "\<not> (second3 a b \<and> second4 a b)" for a b
    by (auto simp: second3_def second4_def between_def)
  show ?thesis
  proof (cases s)
    case (Cons a s1)
    show ?thesis
    proof (cases "between 0 a 127")
      case True
      then have "n = 1" using assms(1) Cons by (auto simp: rune_len_def split: list.splits)
      with Cons True show ?thesis by (rule one)
    next
      case False
      note A = False
      obtain b s2 where s2: "s1 = b # s2" using assms Cons False by (cases s1) (auto simp: rune_len_def)
      show ?thesis
      proof (cases "between 194 a 223 \<and> cont b")
        case True
        then have "n = 2" using assms(1) Cons s2 A by (auto simp: rune_len_def split: list.splits)
        with Cons s2 A True show ?thesis by (intro two [of a b s2]) simp_all
      next
        case False
        note B = False
        obtain c s3 where s3: "s2 = c # s3" using assms Cons s2 A B by (cases s2) (auto simp: rune_len_def)
        show ?thesis
        proof (cases "second3 a b \<and> cont c")
          case True
          then have "n = 3" using assms(1) Cons s2 s3 A B by (simp add: rune_len_def)
          with Cons s2 s3 A True excl(1) [of a b] show ?thesis by (intro three [of a b c s3]) simp_all
        next
          case False
          with assms Cons s2 s3 A B have four': "second4 a b" "cont c" "s3 \<noteq> []" "cont (hd s3)" "n = 4"
            by (simp_all add: rune_len_def split: if_splits)
          then obtain d t where "s3 = d # t" by (cases s3) auto
          with Cons s2 s3 A four' excl [of a b] show ?thesis by (intro four [of a b c d t]) auto
        qed
      qed
    qed
  qed (use assms in \<open>simp add: rune_len_def\<close>)
qed

lemma rune_len_1: "between 0 a 127 \<Longrightarrow> rune_len (a # t) = 1"
  by (auto simp: rune_len_def split: list.splits)

lemma rune_len_2: "\<not> between 0 a 127 \<Longrightarrow> between 194 a 223 \<Longrightarrow> cont b \<Longrightarrow> rune_len (a # b # t) = 2"
  by (auto simp: rune_len_def split: list.splits)

lemma rune_len_3:
  "\<not> between 0 a 127 \<Longrightarrow> \<not> between 194 a 223 \<Longrightarrow> second3 a b \<Longrightarrow> cont c \<Longrightarrow> rune_len (a # b # c # t) = 3"
  by (simp add: rune_len_def)

lemma rune_len_4:
  "\<not> between 0 a 127 \<Longrightarrow> \<not> between 194 a 223 \<Longrightarrow> \<not> second3 a b \<Longrightarrow> second4 a b \<Longrightarrow> cont c \<Longrightarrow> cont d \<Longrightarrow>
   rune_len (a # b # c # d # t) = 4"
  by (simp add: rune_len_def)

lemma rune_len_le: "rune_len s \<le> length s"
proof (cases "rune_len s = 0")
  case False
  with refl show ?thesis by (cases rule: rune_len_cases) auto
qed simp

lemma rune_len_ascii: "rune_len (c # s) = 1 \<longleftrightarrow> between 0 c 127"
proof
  assume "rune_len (c # s) = 1"
  then show "between 0 c 127" by (rule rune_len_cases) auto
qed (rule rune_len_1)

text \<open>Only the bytes of the rune itself count.\<close>

lemma rune_len_take:
  assumes "rune_len s = n" and "n \<noteq> 0"
  shows "rune_len (take n s @ r) = n"
  using assms by (cases rule: rune_len_cases) (auto simp: rune_len_1 rune_len_2 rune_len_3 rune_len_4)

lemma utf8_loop_more: "length s \<le> n \<Longrightarrow> utf8_loop n s = utf8_loop (length s) s"
proof (induction "length s" arbitrary: s n rule: less_induct)
  case less
  show ?case
  proof (cases s)
    case (Cons c t)
    obtain m where n: "n = Suc m" using less.prems Cons by (cases n) auto
    let ?u = "drop (rune_len s) s"
    show ?thesis
    proof (cases "rune_len s = 0")
      case False
      then have "length ?u < length s" by (simp add: Cons)
      from less.hyps [OF this, of m] less.hyps [OF this, of "length t"] less.prems False Cons n
      show ?thesis by simp
    qed (simp add: Cons n)
  qed simp
qed

lemma valid_utf8_Nil [simp]: "valid_utf8 []"
  by (simp add: valid_utf8_def)

lemma valid_utf8_Cons:
  "valid_utf8 (c # s) \<longleftrightarrow> rune_len (c # s) \<noteq> 0 \<and> valid_utf8 (drop (rune_len (c # s)) (c # s))"
proof (cases "rune_len (c # s) = 0")
  case False
  then have "length (drop (rune_len (c # s)) (c # s)) \<le> length s" by simp
  from utf8_loop_more [OF this] show ?thesis by (simp add: valid_utf8_def)
qed (simp add: valid_utf8_def)

section \<open>Replacing ill-formed bytes\<close>

text \<open>U+FFFD.\<close>

definition replacement :: string where
  "replacement = [CHR 0xEF, CHR 0xBF, CHR 0xBD]"

text \<open>\<open>[]rune(s)\<close> and back: every byte that does not belong to a rune becomes U+FFFD.\<close>

function to_valid :: "string \<Rightarrow> string" where
  "to_valid [] = []"
| "to_valid (c # s) =
     (if rune_len (c # s) = 0 then replacement @ to_valid s
      else take (rune_len (c # s)) (c # s) @ to_valid (drop (rune_len (c # s)) (c # s)))"
  by pat_completeness auto
termination by (relation "measure length") auto

declare to_valid.simps [simp del]

lemma to_valid_Nil [simp]: "to_valid [] = []"
  by (simp add: to_valid.simps)

lemma to_valid_id: "valid_utf8 s \<Longrightarrow> to_valid s = s"
proof (induction s rule: to_valid.induct)
  case (2 c s)
  then show ?case by (simp add: to_valid.simps(2) valid_utf8_Cons)
qed simp

lemma valid_utf8_rune:
  assumes "rune_len r = length r" and "r \<noteq> []"
  shows "valid_utf8 (r @ s) = valid_utf8 s"
proof -
  obtain c t where r: "r = c # t" using assms(2) by (cases r) auto
  have "rune_len (r @ s) = length r" using rune_len_take [of r "length r" s] assms by simp
  then show ?thesis using valid_utf8_Cons [of c "t @ s"] by (simp add: r)
qed

lemma replacement_rune: "rune_len replacement = length replacement" "replacement \<noteq> []"
  by (simp_all add: replacement_def rune_len_def between_def cont_def second3_def)

lemma take_rune:
  assumes "rune_len s \<noteq> 0"
  shows "rune_len (take (rune_len s) s) = length (take (rune_len s) s)" "take (rune_len s) s \<noteq> []"
proof -
  show "rune_len (take (rune_len s) s) = length (take (rune_len s) s)"
    using rune_len_take [OF refl assms, of "[]"] rune_len_le [of s] by simp
  show "take (rune_len s) s \<noteq> []" using assms rune_len_le [of s] by auto
qed

lemma to_valid_valid: "valid_utf8 (to_valid s)"
proof (induction s rule: to_valid.induct)
  case (2 c s)
  then show ?case using take_rune [of "c # s"] replacement_rune
    by (simp add: to_valid.simps(2) valid_utf8_rune)
qed simp

text \<open>A string survives unchanged exactly when it is well-formed.\<close>

lemma to_valid_eq_iff: "to_valid s = s \<longleftrightarrow> valid_utf8 s"
  using to_valid_id to_valid_valid by metis

lemma to_valid_Nil_iff [simp]: "to_valid s = [] \<longleftrightarrow> s = []"
  by (cases s) (auto simp: to_valid.simps replacement_def dest: take_rune(2))

text \<open>ASCII text is well-formed.\<close>

lemma valid_utf8_ascii: "\<forall>c \<in> set s. between 0 c 127 \<Longrightarrow> valid_utf8 s"
proof (induction s)
  case (Cons c s)
  then have "rune_len (c # s) = 1" by (intro rune_len_1) simp
  with Cons show ?case by (simp add: valid_utf8_Cons)
qed simp

section \<open>Encoding a rune\<close>

text \<open>\<open>utf8.AppendRune\<close>: a surrogate or a number beyond U+10FFFF becomes U+FFFD.\<close>

definition encode_rune :: "nat \<Rightarrow> string" where
  "encode_rune v =
     (if v < 0x80 then [char_of v]
      else if v < 0x800 then [char_of (0xC0 + v div 64), char_of (0x80 + v mod 64)]
      else if (0xD800 \<le> v \<and> v < 0xE000) \<or> 0x10FFFF < v then replacement
      else if v < 0x10000 then
        [char_of (0xE0 + v div 4096), char_of (0x80 + v div 64 mod 64), char_of (0x80 + v mod 64)]
      else
        [char_of (0xF0 + v div 262144), char_of (0x80 + v div 4096 mod 64),
         char_of (0x80 + v div 64 mod 64), char_of (0x80 + v mod 64)])"

end
