(* ===== verification/Peers.thy ===== *)
theory Peers
  imports Tg_Types Utf8
begin

text \<open>
  The helpers of \<open>internal/bridge/chats.go\<close>: the chat IDs of the bridge, the indexes over the
  lists of an answer of Telegram, one-line previews and display names. Go's maps are partial
  functions; building one is the loop of the code, later entries replacing earlier ones.
\<close>

section \<open>Chat IDs\<close>

fun peerToChatID :: "Peer \<Rightarrow> i64" where
  "peerToChatID (PeerUser u) = u"
| "peerToChatID (PeerChat c) = - c"
| "peerToChatID (PeerChannel c) = - 1000000000000 - c"
| "peerToChatID OtherPeer = 0"

definition msgKey :: "Peer \<Rightarrow> goint \<Rightarrow> string" where
  "msgKey p i = print_i64 (peerToChatID p) @ '':'' @ print_i64 i"

text \<open>
  The IDs Telegram hands out: positive, a basic group's at most \<open>10^12\<close> and a channel's within
  what the subtraction can hold.
\<close>

fun peer_in_range :: "Peer \<Rightarrow> bool" where
  "peer_in_range (PeerUser u) = (0 < sint u)"
| "peer_in_range (PeerChat c) = (0 < sint c \<and> sint c \<le> 10 ^ 12)"
| "peer_in_range (PeerChannel c) = (0 < sint c \<and> sint c \<le> 2 ^ 63 - 10 ^ 12)"
| "peer_in_range OtherPeer = False"

fun peer_int_id :: "Peer \<Rightarrow> int" where
  "peer_int_id (PeerUser u) = sint u"
| "peer_int_id (PeerChat c) = - sint c"
| "peer_int_id (PeerChannel c) = - (10 ^ 12) - sint c"
| "peer_int_id OtherPeer = 0"

lemma sint_word_of_int_i64:
  "- (2 ^ 63) \<le> i \<Longrightarrow> i < 2 ^ 63 \<Longrightarrow> sint (word_of_int i :: i64) = i"
  by (simp add: sint_sbintrunc' signed_take_bit_int_eq_self)

lemma peer_id_no_wrap:
  assumes "peer_in_range p"
  shows "sint (peerToChatID p) = peer_int_id p"
proof (cases p)
  case (PeerChat c)
  have "peerToChatID p = word_of_int (- sint c)" by (simp add: PeerChat)
  then show ?thesis using assms PeerChat sint_word_of_int_i64 [of "- sint c"] by simp
next
  case (PeerChannel c)
  have "peerToChatID p = word_of_int (- (10 ^ 12) - sint c)" by (simp add: PeerChannel)
  then show ?thesis using assms PeerChannel sint_word_of_int_i64 [of "- (10 ^ 12) - sint c"] by simp
qed (use assms in simp_all)

lemma msgKey_inject: "msgKey p i = msgKey q j \<longleftrightarrow> peerToChatID p = peerToChatID q \<and> i = j"
proof
  assume eq: "msgKey p i = msgKey q j"
  have split: "takeWhile (\<lambda>c. c \<noteq> CHR '':'') (msgKey r k) = print_i64 (peerToChatID r)"
    "dropWhile (\<lambda>c. c \<noteq> CHR '':'') (msgKey r k) = '':'' @ print_i64 k" for r k
    using print_i64_no_colon [of "peerToChatID r"]
    by (auto simp: msgKey_def takeWhile_append dropWhile_append)
  from arg_cong [OF eq, of "takeWhile (\<lambda>c. c \<noteq> CHR '':'')"]
    arg_cong [OF eq, of "dropWhile (\<lambda>c. c \<noteq> CHR '':'')"]
  show "peerToChatID p = peerToChatID q \<and> i = j" by (simp add: split)
qed (simp add: msgKey_def)

section \<open>Indexes\<close>

fun index_messages_loop :: "MessageClass list \<Rightarrow> (string \<rightharpoonup> MessageClass) \<Rightarrow> string \<rightharpoonup> MessageClass" where
  "index_messages_loop [] out = out"
| "index_messages_loop (TheMessage m # ms) out =
     index_messages_loop ms (out(msgKey (msg_PeerID m) (msg_ID m) \<mapsto> TheMessage m))"
| "index_messages_loop (OtherMessage # ms) out = index_messages_loop ms out"

definition indexMessages :: "MessageClass list \<Rightarrow> string \<rightharpoonup> MessageClass" where
  "indexMessages ms = index_messages_loop ms Map.empty"

fun index_users_loop :: "UserClass list \<Rightarrow> (i64 \<rightharpoonup> tgUser) \<Rightarrow> i64 \<rightharpoonup> tgUser" where
  "index_users_loop [] out = out"
| "index_users_loop (TheUser u # us) out = index_users_loop us (out(usr_ID u \<mapsto> u))"
| "index_users_loop (OtherUser # us) out = index_users_loop us out"

definition indexUsers :: "UserClass list \<Rightarrow> i64 \<rightharpoonup> tgUser" where
  "indexUsers us = index_users_loop us Map.empty"

fun index_chats_loop :: "ChatClass list \<Rightarrow> (i64 \<rightharpoonup> ChatClass) \<Rightarrow> i64 \<rightharpoonup> ChatClass" where
  "index_chats_loop [] out = out"
| "index_chats_loop (TheChat c # cs) out = index_chats_loop cs (out(grp_ID c \<mapsto> TheChat c))"
| "index_chats_loop (TheChannel c # cs) out = index_chats_loop cs (out(chn_ID c \<mapsto> TheChannel c))"
| "index_chats_loop (OtherChat # cs) out = index_chats_loop cs out"

definition indexChats :: "ChatClass list \<Rightarrow> i64 \<rightharpoonup> ChatClass" where
  "indexChats cs = index_chats_loop cs Map.empty"

text \<open>An index is the association list of the entries, latest first.\<close>

fun message_entry :: "MessageClass \<Rightarrow> (string \<times> MessageClass) list" where
  "message_entry (TheMessage m) = [(msgKey (msg_PeerID m) (msg_ID m), TheMessage m)]"
| "message_entry OtherMessage = []"

fun user_entry :: "UserClass \<Rightarrow> (i64 \<times> tgUser) list" where
  "user_entry (TheUser u) = [(usr_ID u, u)]"
| "user_entry OtherUser = []"

fun chat_entry :: "ChatClass \<Rightarrow> (i64 \<times> ChatClass) list" where
  "chat_entry (TheChat c) = [(grp_ID c, TheChat c)]"
| "chat_entry (TheChannel c) = [(chn_ID c, TheChannel c)]"
| "chat_entry OtherChat = []"

lemma indexMessages_eq: "indexMessages ms = map_of (rev (concat (map message_entry ms)))"
proof -
  have "index_messages_loop ms out = out ++ map_of (rev (concat (map message_entry ms)))" for out
  proof (induction ms arbitrary: out)
    case (Cons x xs)
    then show ?case by (cases x) (auto simp: fun_eq_iff map_add_def split: option.splits)
  qed simp
  then show ?thesis by (simp add: indexMessages_def)
qed

lemma indexUsers_eq: "indexUsers us = map_of (rev (concat (map user_entry us)))"
proof -
  have "index_users_loop us out = out ++ map_of (rev (concat (map user_entry us)))" for out
  proof (induction us arbitrary: out)
    case (Cons x xs)
    then show ?case by (cases x) (auto simp: fun_eq_iff map_add_def split: option.splits)
  qed simp
  then show ?thesis by (simp add: indexUsers_def)
qed

lemma indexChats_eq: "indexChats cs = map_of (rev (concat (map chat_entry cs)))"
proof -
  have "index_chats_loop cs out = out ++ map_of (rev (concat (map chat_entry cs)))" for out
  proof (induction cs arbitrary: out)
    case (Cons x xs)
    then show ?case by (cases x) (auto simp: fun_eq_iff map_add_def split: option.splits)
  qed simp
  then show ?thesis by (simp add: indexChats_def)
qed

lemma indexMessages_Some:
  assumes "indexMessages ms k = Some m"
  obtains mm where "m = TheMessage mm" "TheMessage mm \<in> set ms" "k = msgKey (msg_PeerID mm) (msg_ID mm)"
proof -
  from assms have "(k, m) \<in> set (concat (map message_entry ms))"
    unfolding indexMessages_eq by (auto dest: map_of_SomeD)
  then obtain x where x: "x \<in> set ms" "(k, m) \<in> set (message_entry x)" by auto
  from x(2) obtain mm where "x = TheMessage mm" "m = TheMessage mm" "k = msgKey (msg_PeerID mm) (msg_ID mm)"
    by (cases x) auto
  with that x(1) show ?thesis by blast
qed

lemma indexUsers_Some: "indexUsers us i = Some u \<Longrightarrow> TheUser u \<in> set us \<and> usr_ID u = i"
proof -
  assume "indexUsers us i = Some u"
  then have "(i, u) \<in> set (concat (map user_entry us))"
    unfolding indexUsers_eq by (auto dest: map_of_SomeD)
  then obtain x where x: "x \<in> set us" "(i, u) \<in> set (user_entry x)" by auto
  from x(2) have "x = TheUser u" "usr_ID u = i" by (cases x; simp)+
  with x(1) show ?thesis by simp
qed

lemma indexChats_Some:
  assumes "indexChats cs i = Some c"
  shows "c \<in> set cs \<and> ((\<exists>g. c = TheChat g \<and> grp_ID g = i) \<or> (\<exists>h. c = TheChannel h \<and> chn_ID h = i))"
proof -
  from assms have "(i, c) \<in> set (concat (map chat_entry cs))"
    unfolding indexChats_eq by (auto dest: map_of_SomeD)
  then obtain x where x: "x \<in> set cs" "(i, c) \<in> set (chat_entry x)" by auto
  from x(2) have "c = x" "(\<exists>g. x = TheChat g \<and> grp_ID g = i) \<or> (\<exists>h. x = TheChannel h \<and> chn_ID h = i)"
    by (cases x; auto)+
  with x(1) show ?thesis by blast
qed

section \<open>Text\<close>

text \<open>The three bytes of the ellipsis the source appends.\<close>

definition ellipsis :: string where
  "ellipsis = [CHR 0xE2, CHR 0x80, CHR 0xA6]"

definition truncate_preview :: "string \<Rightarrow> nat \<Rightarrow> string" where
  "truncate_preview s n =
     (let s' = replace_newlines s in
      if length s' \<le> n then s' else take (n - 1) s' @ ellipsis)"

definition full_name :: "tgUser \<Rightarrow> string" where
  "full_name u = strings_TrimSpace (usr_FirstName u @ '' '' @ usr_LastName u)"

definition resolveName :: "tgEntities \<Rightarrow> Peer \<Rightarrow> string" where
  "resolveName e p =
     (case p of
        PeerUser i \<Rightarrow> (case ent_Users e i of Some u \<Rightarrow> full_name u | None \<Rightarrow> '''')
      | PeerChat i \<Rightarrow> (case ent_Chats e i of Some c \<Rightarrow> grp_Title c | None \<Rightarrow> '''')
      | PeerChannel i \<Rightarrow> (case ent_Channels e i of Some c \<Rightarrow> chn_Title c | None \<Rightarrow> '''')
      | OtherPeer \<Rightarrow> '''')"

lemma truncate_fits: "length s \<le> n \<Longrightarrow> truncate_preview s n = replace_newlines s"
  by (simp add: truncate_preview_def)

section \<open>Properties\<close>

text \<open>
  C35: On the IDs Telegram hands out, chat IDs are unambiguous: different peers have different
  ones, users have positive ones, basic groups those down to \<open>-10^12\<close> and channels the ones below.
\<close>

theorem peer_chat_id_inject:
  assumes "peer_in_range p" and "peer_in_range q"
  shows "(peerToChatID p = peerToChatID q \<longleftrightarrow> p = q)
    \<and> (0 < sint (peerToChatID p) \<longleftrightarrow> (\<exists>u. p = PeerUser u))
    \<and> (sint (peerToChatID p) < - (10 ^ 12) \<longleftrightarrow> (\<exists>c. p = PeerChannel c))"
proof -
  have "p = q" if "peerToChatID p = peerToChatID q"
  proof -
    have "peer_int_id p = peer_int_id q"
      using that peer_id_no_wrap [OF assms(1)] peer_id_no_wrap [OF assms(2)] by simp
    then show ?thesis using assms that by (cases p; cases q) simp_all
  qed
  moreover have "(0 < sint (peerToChatID p) \<longleftrightarrow> (\<exists>u. p = PeerUser u))
    \<and> (sint (peerToChatID p) < - (10 ^ 12) \<longleftrightarrow> (\<exists>c. p = PeerChannel c))"
    unfolding peer_id_no_wrap [OF assms(1)] using assms(1) by (cases p) auto
  ultimately show ?thesis by blast
qed

theorem peer_chat_id_inject_witness:
  "peerToChatID (PeerChat 77) \<noteq> peerToChatID (PeerChannel 77) \<and> sint (peerToChatID (PeerChannel 77)) < - (10 ^ 12)"
  using peer_chat_id_inject [of "PeerChannel 77" "PeerChat 77"] by simp

text \<open>
  A preview is the text with its line breaks replaced by spaces when that has at most
  \<open>n\<close> bytes, and otherwise its first \<open>n - 1\<close> bytes and an ellipsis: never a line break, and at most
  \<open>n + 2\<close> bytes.
\<close>

theorem truncate_preview_bound:
  assumes "1 \<le> n"
  shows "length (truncate_preview s n) \<le> n + 2 \<and> CHR 0x0A \<notin> set (truncate_preview s n)
    \<and> (length s \<le> n \<longrightarrow> truncate_preview s n = replace_newlines s)
    \<and> (n < length s \<longrightarrow> (\<exists>rest. replace_newlines s = take (n - 1) (truncate_preview s n) @ rest \<and> rest \<noteq> []))"
proof -
  have nl: "CHR 0x0A \<notin> set (replace_newlines s)" by (auto simp: replace_newlines_def)
  then have "CHR 0x0A \<notin> set (truncate_preview s n)"
    by (auto simp: truncate_preview_def Let_def ellipsis_def dest: in_set_takeD)
  moreover have "length (truncate_preview s n) \<le> n + 2"
    using assms by (simp add: truncate_preview_def Let_def ellipsis_def)
  moreover have "\<exists>rest. replace_newlines s = take (n - 1) (truncate_preview s n) @ rest \<and> rest \<noteq> []" if "n < length s"
    using that assms by (intro exI [of _ "drop (n - 1) (replace_newlines s)"]) (simp add: truncate_preview_def Let_def min_def)
  ultimately show ?thesis by (simp add: truncate_fits)
qed

theorem truncate_preview_bound_witness:
  "length (truncate_preview (replicate 100 (CHR 0x0A)) 80) \<le> 82"
  using truncate_preview_bound [of 80 "replicate 100 (CHR 0x0A)"] by simp

text \<open>
  A preview is cut by bytes: it can end in half a rune, so a well-formed text gives an
  ill-formed preview.
\<close>

definition split_sample :: string where
  "split_sample = replicate 78 (CHR ''a'') @ [CHR 0xC3, CHR 0xA9, CHR ''b'', CHR ''c'']"

lemma truncate_splits_rune: "valid_utf8 split_sample \<and> \<not> valid_utf8 (truncate_preview split_sample 80)"
  by code_simp

end
