(* ===== verification/Bridge_State.thy ===== *)
theory Bridge_State
  imports Config Broker Media_Cache Media_Summary Media_Key Auth_Flow Peers
begin

text \<open>
  The \<open>Bridge\<close> of \<open>internal/bridge/bridge.go\<close>: its fields, \<open>New\<close>, \<open>waitReady\<close>, the peer cache
  of \<open>chats.go\<close> with its interface locale, and the calls to Telegram. Telegram is an argument:
  a record of functions from the calls made so far and a request to an answer. Every call is
  recorded in a ghost field, so that a property can say which calls an operation makes.
\<close>

section \<open>Events and calls to Telegram\<close>

record Event =
  ev_Type :: string
  ev_ChatID :: i64
  ev_MsgID :: goint
  ev_From :: string
  ev_FromID :: i64
  ev_Text :: string
  ev_Media :: "MediaSummary option"
  ev_Ts :: i64
  ev_ReplyTo :: goint

datatype rpc =
    RpcGetDialogs goint
  | RpcGetHistory InputPeer goint goint
  | RpcChannelsReadHistory i64 i64 goint
  | RpcMessagesReadHistory InputPeer goint
  | RpcText InputPeer string
  | RpcDownload i64 i64 bytes string

record telegram =
  tele_GetDialogs :: "rpc list \<Rightarrow> goint \<Rightarrow> DialogsResponse result"
  tele_GetHistory :: "rpc list \<Rightarrow> InputPeer \<Rightarrow> goint \<Rightarrow> goint \<Rightarrow> HistoryResponse result"
  tele_ChannelsReadHistory :: "rpc list \<Rightarrow> i64 \<Rightarrow> i64 \<Rightarrow> goint \<Rightarrow> goerr option"
  tele_MessagesReadHistory :: "rpc list \<Rightarrow> InputPeer \<Rightarrow> goint \<Rightarrow> goerr option"
  tele_Text :: "rpc list \<Rightarrow> InputPeer \<Rightarrow> string \<Rightarrow> UpdatesClass result"
  tele_wait :: "rpc list \<Rightarrow> goerr + tgUser"

section \<open>The bridge\<close>

record Bridge =
  bg_cfg :: Config
  bg_auth :: httpAuthenticator
  bg_clientReady :: bool
  bg_self :: "tgUser option"
  bg_events :: "Event broker"
  bg_peerCache :: "i64 \<rightharpoonup> InputPeer"
  bg_mediaKey :: bytes
  bg_mediaCache :: mediaCache
  bg_disk :: disk
  bg_rpcs :: "rpc list"

text \<open>
  What the operating system does while \<open>New\<close> runs: creating the session directory, opening the
  update database, the random source and the write of a new key, and the cache directory.
\<close>

record new_io =
  ni_mkdir :: "goerr option"
  ni_bolt :: "goerr option"
  ni_key :: key_file
  ni_rand :: "(nat \<Rightarrow> byte) result"
  ni_write :: write_outcome
  ni_cache_mkdir :: "goerr option"
  ni_listing :: "dirent list result"
  ni_disk :: disk

text \<open>
  The result of \<open>New\<close> with the key file and whether the database is left open. The path of the
  key file is only used in an error text; what \<open>filepath.Join\<close> cleans of it is left out.
\<close>

definition New :: "Config \<Rightarrow> new_io \<Rightarrow> Bridge result \<times> key_file \<times> bool" where
  "New cfg io =
     (case ni_mkdir io of Some e \<Rightarrow> (Inl (ErrWrap ''create session dir'' e), ni_key io, False)
      | None \<Rightarrow>
        (case ni_bolt io of Some e \<Rightarrow> (Inl (ErrWrap ''open updates db'' e), ni_key io, False)
         | None \<Rightarrow>
           (case loadOrCreateMediaKey (tg_SessionDir (cfg_Telegram cfg) @ ''/media.key'') (ni_rand io) (ni_write io) (ni_key io) of
              (Inl e, kf) \<Rightarrow> (Inl (ErrWrap ''media key'' e), kf, False)
            | (Inr mediaKey, kf) \<Rightarrow>
              (case newMediaCache (media_CacheDir (cfg_Media cfg)) (media_MaxBytes (cfg_Media cfg))
                      (ni_cache_mkdir io) (ni_listing io) (ni_disk io) of
                 Inl e \<Rightarrow> (Inl (ErrWrap ''media cache'' e), kf, False)
               | Inr (mc, d) \<Rightarrow>
                   (Inr \<lparr>bg_cfg = cfg, bg_auth = newHTTPAuthenticator, bg_clientReady = False,
                         bg_self = None, bg_events = newBroker 64, bg_peerCache = Map.empty,
                         bg_mediaKey = mediaKey, bg_mediaCache = mc, bg_disk = d, bg_rpcs = []\<rparr>,
                    kf, True)))))"

definition AuthStatus :: "Bridge \<Rightarrow> AuthState \<times> goerr option" where
  [simp]: "AuthStatus b = Status (bg_auth b)"

definition Self :: "Bridge \<Rightarrow> tgUser option" where
  "Self b = bg_self b"

text \<open>
  \<open>waitReady\<close>: returns at once when the client runs and is logged in; otherwise it polls until the
  context ends, with its error, or until another goroutine has finished the start-up.
\<close>

definition waitReady :: "telegram \<Rightarrow> Bridge \<Rightarrow> goerr option \<times> Bridge" where
  "waitReady T b =
     (if bg_clientReady b \<and> Self b \<noteq> None then (None, b)
      else case tele_wait T (bg_rpcs b) of
        Inl e \<Rightarrow> (Some e, b)
      | Inr self \<Rightarrow> (None, b\<lparr>bg_clientReady := True, bg_self := Some self\<rparr>))"

section \<open>Calls\<close>

definition MessagesGetDialogs :: "telegram \<Rightarrow> goint \<Rightarrow> Bridge \<Rightarrow> DialogsResponse result \<times> Bridge" where
  "MessagesGetDialogs T limit b =
     (tele_GetDialogs T (bg_rpcs b) limit, b\<lparr>bg_rpcs := bg_rpcs b @ [RpcGetDialogs limit]\<rparr>)"

definition MessagesGetHistory ::
  "telegram \<Rightarrow> InputPeer \<Rightarrow> goint \<Rightarrow> goint \<Rightarrow> Bridge \<Rightarrow> HistoryResponse result \<times> Bridge" where
  "MessagesGetHistory T p limit offset b =
     (tele_GetHistory T (bg_rpcs b) p limit offset, b\<lparr>bg_rpcs := bg_rpcs b @ [RpcGetHistory p limit offset]\<rparr>)"

definition ChannelsReadHistory :: "telegram \<Rightarrow> i64 \<Rightarrow> i64 \<Rightarrow> goint \<Rightarrow> Bridge \<Rightarrow> goerr option \<times> Bridge" where
  "ChannelsReadHistory T c h maxID b =
     (tele_ChannelsReadHistory T (bg_rpcs b) c h maxID,
      b\<lparr>bg_rpcs := bg_rpcs b @ [RpcChannelsReadHistory c h maxID]\<rparr>)"

definition MessagesReadHistory :: "telegram \<Rightarrow> InputPeer \<Rightarrow> goint \<Rightarrow> Bridge \<Rightarrow> goerr option \<times> Bridge" where
  "MessagesReadHistory T p maxID b =
     (tele_MessagesReadHistory T (bg_rpcs b) p maxID,
      b\<lparr>bg_rpcs := bg_rpcs b @ [RpcMessagesReadHistory p maxID]\<rparr>)"

definition sender_Text :: "telegram \<Rightarrow> InputPeer \<Rightarrow> string \<Rightarrow> Bridge \<Rightarrow> UpdatesClass result \<times> Bridge" where
  "sender_Text T p t b =
     (tele_Text T (bg_rpcs b) p t, b\<lparr>bg_rpcs := bg_rpcs b @ [RpcText p t]\<rparr>)"

lemmas call_defs =
  MessagesGetDialogs_def MessagesGetHistory_def ChannelsReadHistory_def MessagesReadHistory_def sender_Text_def

section \<open>The peer cache\<close>

definition cachePeer :: "i64 \<Rightarrow> InputPeer \<Rightarrow> Bridge \<Rightarrow> Bridge" where
  "cachePeer chatID peer b = b\<lparr>bg_peerCache := (bg_peerCache b)(chatID \<mapsto> peer)\<rparr>"

text \<open>The chat a peer belongs to.\<close>

fun input_chat_id :: "InputPeer \<Rightarrow> i64" where
  "input_chat_id (InputPeerUser u h) = u"
| "input_chat_id (InputPeerChat c) = - c"
| "input_chat_id (InputPeerChannel c h) = - 1000000000000 - c"

text \<open>
  What the chat operations rely on of the cache: a look-up returns what was stored last. A
  sequence of stores then overwrites from the left, and keeps any property of the entries.
\<close>

locale peer_store =
  fixes get :: "'s \<Rightarrow> i64 \<Rightarrow> InputPeer option" and put :: "i64 \<Rightarrow> InputPeer \<Rightarrow> 's \<Rightarrow> 's"
  assumes get_put: "get (put i p s) j = (if j = i then Some p else get s j)"
begin

definition put_all :: "(i64 \<times> InputPeer) list \<Rightarrow> 's \<Rightarrow> 's" where
  "put_all ps s = fold (\<lambda>(i, p). put i p) ps s"

lemma put_all_simps [simp]:
  "put_all [] s = s" "put_all ((i, p) # ps) s = put_all ps (put i p s)"
  by (simp_all add: put_all_def)

lemma get_put_all: "get (put_all ps s) j = (case map_of (rev ps) j of None \<Rightarrow> get s j | Some p \<Rightarrow> Some p)"
  by (induction ps arbitrary: s) (auto simp: get_put map_add_def split: option.splits)

lemma put_all_keeps:
  assumes "\<And>i p. get s i = Some p \<Longrightarrow> P i p" and "\<And>i p. (i, p) \<in> set ps \<Longrightarrow> P i p"
  shows "get (put_all ps s) i = Some p \<Longrightarrow> P i p"
  using assms by (auto simp: get_put_all split: option.splits dest!: map_of_SomeD)

lemma put_all_dom: "(\<exists>p. get (put_all ps s) i = Some p) \<longleftrightarrow> i \<in> fst ` set ps \<or> (\<exists>p. get s i = Some p)"
  by (auto simp: get_put_all map_of_eq_None_iff split: option.splits dest!: map_of_SomeD) (force simp: image_iff)+

end

interpretation peers: peer_store bg_peerCache cachePeer
  by unfold_locales (simp add: cachePeer_def)

text \<open>Every cached peer belongs to the chat it is cached for.\<close>

definition peers_ok :: "Bridge \<Rightarrow> bool" where
  "peers_ok b \<longleftrightarrow> (\<forall>i p. bg_peerCache b i = Some p \<longrightarrow> input_chat_id p = i)"

lemma peers_ok_put_all:
  assumes "peers_ok b" and "\<And>i p. (i, p) \<in> set ps \<Longrightarrow> input_chat_id p = i"
  shows "peers_ok (peers.put_all ps b)"
  unfolding peers_ok_def
  using peers.put_all_keeps [of b "\<lambda>i p. input_chat_id p = i" ps] assms unfolding peers_ok_def by blast

lemma peers_put_all_frame [simp]:
  "bg_cfg (peers.put_all ps b) = bg_cfg b" "bg_auth (peers.put_all ps b) = bg_auth b"
  "bg_clientReady (peers.put_all ps b) = bg_clientReady b" "bg_self (peers.put_all ps b) = bg_self b"
  "bg_events (peers.put_all ps b) = bg_events b" "bg_mediaKey (peers.put_all ps b) = bg_mediaKey b"
  "bg_mediaCache (peers.put_all ps b) = bg_mediaCache b" "bg_disk (peers.put_all ps b) = bg_disk b"
  "bg_rpcs (peers.put_all ps b) = bg_rpcs b"
  by (induction ps arbitrary: b) (auto simp: cachePeer_def)

lemma waitReady_frame:
  "waitReady T b = (r, b') \<Longrightarrow>
     bg_rpcs b' = bg_rpcs b \<and> bg_peerCache b' = bg_peerCache b \<and> bg_cfg b' = bg_cfg b
   \<and> bg_events b' = bg_events b \<and> bg_mediaKey b' = bg_mediaKey b \<and> bg_mediaCache b' = bg_mediaCache b
   \<and> bg_disk b' = bg_disk b \<and> bg_auth b' = bg_auth b"
  by (auto simp: waitReady_def split: if_splits sum.splits)

lemma waitReady_ready: "waitReady T b = (None, b') \<Longrightarrow> bg_clientReady b' \<and> bg_self b' \<noteq> None"
  by (auto simp: waitReady_def Self_def split: if_splits sum.splits)

lemma waitReady_again: "bg_clientReady b \<and> bg_self b \<noteq> None \<Longrightarrow> waitReady T b = (None, b)"
  by (simp add: waitReady_def Self_def)

text \<open>
  \<open>New\<close> returns a bridge exactly with the database left open: every failure closes it again
  or comes before it was opened. A new bridge has an empty peer cache, no subscriber, a 32-byte
  media key stored in the key file, and a media cache whose index, list and total agree.
\<close>

theorem New_spec:
  assumes "New cfg io = (r, kf, db_open)"
  shows "(db_open \<longleftrightarrow> is_ok r)
    \<and> (\<forall>b. r = Inr b \<longrightarrow> peers_ok b \<and> br_subs (bg_events b) = [] \<and> length (bg_mediaKey b) = 32
        \<and> kf = KeyFile (bg_mediaKey b) \<and> cache_inv (bg_mediaCache b) \<and> Self b = None)"
proof -
  have key: "length k = 32 \<and> f' = KeyFile k" if "loadOrCreateMediaKey p rnd w f = (Inr k, f')" for p rnd w f f' k
    using that by (cases w)
      (auto simp: loadOrCreateMediaKey_def mediaKeySize_def rand_Read_def split: key_file.splits sum.splits if_splits)
  show ?thesis
    using assms unfolding New_def
    by (auto simp: peers_ok_def newBroker_def Self_def split: option.splits sum.splits prod.splits
        dest: key newMediaCache_inv(1))
qed

definition sample_cfg :: Config where
  "sample_cfg = \<lparr>cfg_Listen = '':8443'', cfg_TLS = \<lparr>tls_Auto = True, tls_CertPath = ''c'', tls_KeyPath = ''k'', tls_Hosts = []\<rparr>,
     cfg_Telegram = \<lparr>tg_APIID = 1, tg_APIHash = ''h'', tg_SessionDir = ''s''\<rparr>,
     cfg_Clients = [\<lparr>cl_Name = ''a'', cl_Token = ''ta'', cl_AllowedChats = [7]\<rparr>,
                    \<lparr>cl_Name = ''b'', cl_Token = ''tb'', cl_AllowedChats = [8]\<rparr>],
     cfg_Media = \<lparr>media_CacheDir = ''m'', media_MaxBytes = 100\<rparr>, cfg_LogLevel = ''info''\<rparr>"

definition sample_new_io :: new_io where
  "sample_new_io = \<lparr>ni_mkdir = None, ni_bolt = None, ni_key = KeyAbsent, ni_rand = Inr (\<lambda>_. 3), ni_write = WriteOk,
     ni_cache_mkdir = None, ni_listing = Inr [], ni_disk = \<lparr>files = Map.empty, stuck = (\<lambda>_. False)\<rparr>\<rparr>"

lemma New_sample: "\<exists>b kf. New sample_cfg sample_new_io = (Inr b, kf, True)"
proof -
  obtain mc d where "new_evict (empty_cache ''m'' 100) (ni_disk sample_new_io) = (mc, d)"
    by (cases "new_evict (empty_cache ''m'' 100) (ni_disk sample_new_io)")
  then show ?thesis
    by (auto simp: New_def sample_new_io_def sample_cfg_def loadOrCreateMediaKey_def rand_Read_def newMediaCache_def
        empty_cache_def split: prod.splits)
qed

theorem New_spec_witness:
  "\<exists>b kf. New sample_cfg sample_new_io = (Inr b, kf, True) \<and> length (bg_mediaKey b) = 32 \<and> kf = KeyFile (bg_mediaKey b)"
proof -
  obtain b kf op where n: "New sample_cfg sample_new_io = (Inr b, kf, op)" using New_sample by blast
  from New_spec [OF n] n show ?thesis by auto
qed

end
