(* ===== verification/Chats.thy ===== *)
theory Chats
  imports Bridge_State
begin

text \<open>
  The chat operations of \<open>internal/bridge/chats.go\<close> and \<open>send.go\<close>: \<open>ListChats\<close>, \<open>GetMessages\<close>,
  \<open>MarkRead\<close>, \<open>SendText\<close>, \<open>resolvePeer\<close> and \<open>warmPeerCache\<close>, and \<open>extractMessageID\<close> of \<open>media.go\<close>.
  Each is a function of Telegram, its arguments and the bridge, and returns a result or an error
  with the new bridge.
\<close>

record Chat =
  chat_ID :: i64
  chat_Type :: string
  chat_Title :: string
  chat_Unread :: goint
  chat_LastMsg :: string
  chat_LastTs :: i64
  chat_Username :: string

record Message =
  out_ID :: goint
  out_ChatID :: i64
  out_From :: string
  out_FromID :: i64
  out_Text :: string
  out_Ts :: i64
  out_Out :: bool
  out_ReplyTo :: goint
  out_Media :: "MediaSummary option"

section \<open>Listing chats\<close>

definition clamp_limit :: "int \<Rightarrow> goint \<Rightarrow> goint \<Rightarrow> goint" where
  "clamp_limit most dflt limit = (if sint limit \<le> 0 \<or> most < sint limit then dflt else limit)"

text \<open>
  The switch on the type of a dialog's peer: the chat with its title and user name, and the
  peer to cache if the answer describes it; \<open>None\<close> for other types, which are skipped.
\<close>

definition dialog_chat ::
  "(i64 \<rightharpoonup> tgUser) \<Rightarrow> (i64 \<rightharpoonup> ChatClass) \<Rightarrow> Peer \<Rightarrow> Chat \<Rightarrow> (Chat \<times> (i64 \<times> InputPeer) list) option" where
  "dialog_chat userByID chatByID p c =
     (case p of
        PeerUser i \<Rightarrow>
          (let c1 = c\<lparr>chat_ID := i, chat_Type := ''user''\<rparr> in
           case userByID i of
             Some u \<Rightarrow>
               Some (c1\<lparr>chat_Title := full_name u, chat_Username := usr_Username u\<rparr>,
                     [(chat_ID c1, InputPeerUser (usr_ID u) (usr_AccessHash u))])
           | None \<Rightarrow> Some (c1, []))
      | PeerChat i \<Rightarrow>
          (let c1 = c\<lparr>chat_ID := - i, chat_Type := ''group''\<rparr> in
           case chatByID i of
             Some (TheChat ch) \<Rightarrow>
               Some (c1\<lparr>chat_Title := grp_Title ch\<rparr>, [(chat_ID c1, InputPeerChat (grp_ID ch))])
           | _ \<Rightarrow> Some (c1, []))
      | PeerChannel i \<Rightarrow>
          (let c1 = c\<lparr>chat_ID := - 1000000000000 - i, chat_Type := ''channel''\<rparr> in
           case chatByID i of
             Some (TheChannel ch) \<Rightarrow>
               Some (c1\<lparr>chat_Title := chn_Title ch, chat_Username := chn_Username ch\<rparr>,
                     [(chat_ID c1, InputPeerChannel (chn_ID ch) (chn_AccessHash ch))])
           | _ \<Rightarrow> Some (c1, []))
      | OtherPeer \<Rightarrow> None)"

definition zero_chat :: "goint \<Rightarrow> Chat" where
  "zero_chat unread = \<lparr>chat_ID = 0, chat_Type = '''', chat_Title = '''', chat_Unread = unread,
     chat_LastMsg = '''', chat_LastTs = 0, chat_Username = ''''\<rparr>"

text \<open>The preview of the dialog's top message, if the answer contains it.\<close>

definition with_last :: "(string \<rightharpoonup> MessageClass) \<Rightarrow> Peer \<Rightarrow> goint \<Rightarrow> Chat \<Rightarrow> Chat" where
  "with_last msgByKey p topMsg c =
     (case msgByKey (msgKey p topMsg) of
        Some (TheMessage mm) \<Rightarrow>
          c\<lparr>chat_LastMsg := truncate_preview (msg_Message mm) 80, chat_LastTs := msg_Date mm\<rparr>
      | _ \<Rightarrow> c)"

text \<open>The loop over the dialogs of the answer.\<close>

fun dialogs_loop ::
  "(string \<rightharpoonup> MessageClass) \<Rightarrow> (i64 \<rightharpoonup> tgUser) \<Rightarrow> (i64 \<rightharpoonup> ChatClass) \<Rightarrow> DialogClass list
   \<Rightarrow> Bridge \<Rightarrow> Chat list \<times> Bridge" where
  "dialogs_loop M U C [] b = ([], b)"
| "dialogs_loop M U C (OtherDialog # ds) b = dialogs_loop M U C ds b"
| "dialogs_loop M U C (Dialog p unread topMsg # ds) b =
     (case dialog_chat U C p (zero_chat unread) of
        None \<Rightarrow> dialogs_loop M U C ds b
      | Some (c, ps) \<Rightarrow>
          (case dialogs_loop M U C ds (fold (\<lambda>(i, q). cachePeer i q) ps b) of
             (out, b') \<Rightarrow> (with_last M p topMsg c # out, b')))"

fun dialogs_fields ::
  "DialogsResponse \<Rightarrow> (DialogClass list \<times> MessageClass list \<times> UserClass list \<times> ChatClass list) result" where
  "dialogs_fields (MessagesDialogs d m u c) = Inr (d, m, u, c)"
| "dialogs_fields (MessagesDialogsSlice d m u c) = Inr (d, m, u, c)"
| "dialogs_fields (OtherDialogs t) = Inl (ErrNew (''unexpected dialogs response '' @ t))"

definition ListChats :: "telegram \<Rightarrow> goint \<Rightarrow> Bridge \<Rightarrow> Chat list result \<times> Bridge" where
  "ListChats T limit b =
     (case waitReady T b of
        (Some e, b1) \<Rightarrow> (Inl e, b1)
      | (None, b1) \<Rightarrow>
          (case MessagesGetDialogs T (clamp_limit 200 50 limit) b1 of
             (Inl e, b2) \<Rightarrow> (Inl (ErrWrap ''get dialogs'' e), b2)
           | (Inr res, b2) \<Rightarrow>
               (case dialogs_fields res of
                  Inl e \<Rightarrow> (Inl e, b2)
                | Inr (dialogs, messages, users, chats) \<Rightarrow>
                    (case dialogs_loop (indexMessages messages) (indexUsers users) (indexChats chats) dialogs b2 of
                       (out, b3) \<Rightarrow> (Inr out, b3)))))"

definition warmPeerCache :: "telegram \<Rightarrow> goint \<Rightarrow> Bridge \<Rightarrow> goerr option \<times> Bridge" where
  "warmPeerCache T limit b =
     (case ListChats T limit b of (Inl e, b') \<Rightarrow> (Some e, b') | (Inr _, b') \<Rightarrow> (None, b'))"

section \<open>Resolving a chat\<close>

definition resolvePeer :: "telegram \<Rightarrow> i64 \<Rightarrow> Bridge \<Rightarrow> InputPeer result \<times> Bridge" where
  "resolvePeer T chatID b =
     (case bg_peerCache b chatID of
        Some p \<Rightarrow> (Inr p, b)
      | None \<Rightarrow>
          (case ListChats T 200 b of
             (Inl e, b1) \<Rightarrow> (Inl e, b1)
           | (Inr _, b1) \<Rightarrow>
               (case bg_peerCache b1 chatID of
                  Some p \<Rightarrow> (Inr p, b1)
                | None \<Rightarrow> (Inl (ErrNew (''chat '' @ print_i64 chatID @ '' not found'')), b1))))"

section \<open>Reading, marking and sending\<close>

fun history_fields :: "HistoryResponse \<Rightarrow> (MessageClass list \<times> UserClass list) result" where
  "history_fields (MessagesMessages m u) = Inr (m, u)"
| "history_fields (MessagesMessagesSlice m u) = Inr (m, u)"
| "history_fields (MessagesChannelMessages m u) = Inr (m, u)"
| "history_fields (OtherHistory t) = Inl (ErrNew (''unexpected history response '' @ t))"

text \<open>The sender of a message: only a user's name is looked up.\<close>

definition with_sender :: "(i64 \<rightharpoonup> tgUser) \<Rightarrow> Peer option \<Rightarrow> Message \<Rightarrow> Message" where
  "with_sender userByID from msg =
     (case from of
        None \<Rightarrow> msg
      | Some p \<Rightarrow>
          (let msg1 = msg\<lparr>out_FromID := peerToChatID p\<rparr> in
           case p of
             PeerUser i \<Rightarrow> (case userByID i of Some u \<Rightarrow> msg1\<lparr>out_From := full_name u\<rparr> | None \<Rightarrow> msg1)
           | _ \<Rightarrow> msg1))"

definition reply_to :: "ReplyHeader option \<Rightarrow> goint" where
  "reply_to h = (case h of Some (MessageReplyHeader i) \<Rightarrow> i | _ \<Rightarrow> 0)"

definition history_message :: "bytes \<Rightarrow> i64 \<Rightarrow> (i64 \<rightharpoonup> tgUser) \<Rightarrow> tgMessage \<Rightarrow> Message" where
  "history_message key chatID userByID mm =
     (let msg = \<lparr>out_ID = msg_ID mm, out_ChatID = chatID, out_From = '''', out_FromID = 0,
                 out_Text = msg_Message mm, out_Ts = msg_Date mm, out_Out = msg_Out mm, out_ReplyTo = 0,
                 out_Media = None\<rparr>;
          msg1 = with_sender userByID (msg_FromID mm) msg
      in msg1\<lparr>out_ReplyTo := reply_to (msg_ReplyTo mm),
              out_Media := map_option (summarizeMedia key) (msg_Media mm)\<rparr>)"

fun history_loop :: "bytes \<Rightarrow> i64 \<Rightarrow> (i64 \<rightharpoonup> tgUser) \<Rightarrow> MessageClass list \<Rightarrow> Message list" where
  "history_loop key chatID U [] = []"
| "history_loop key chatID U (TheMessage mm # ms) = history_message key chatID U mm # history_loop key chatID U ms"
| "history_loop key chatID U (OtherMessage # ms) = history_loop key chatID U ms"

definition GetMessages :: "telegram \<Rightarrow> i64 \<Rightarrow> goint \<Rightarrow> goint \<Rightarrow> Bridge \<Rightarrow> Message list result \<times> Bridge" where
  "GetMessages T chatID limit beforeID b =
     (case waitReady T b of
        (Some e, b1) \<Rightarrow> (Inl e, b1)
      | (None, b1) \<Rightarrow>
          (case resolvePeer T chatID b1 of
             (Inl e, b2) \<Rightarrow> (Inl e, b2)
           | (Inr peer, b2) \<Rightarrow>
               (case MessagesGetHistory T peer (clamp_limit 100 30 limit) beforeID b2 of
                  (Inl e, b3) \<Rightarrow> (Inl (ErrWrap ''get history'' e), b3)
                | (Inr res, b3) \<Rightarrow>
                    (case history_fields res of
                       Inl e \<Rightarrow> (Inl e, b3)
                     | Inr (messages, users) \<Rightarrow>
                         (Inr (history_loop (bg_mediaKey b3) chatID (indexUsers users) messages), b3)))))"

definition MarkRead :: "telegram \<Rightarrow> i64 \<Rightarrow> goint \<Rightarrow> Bridge \<Rightarrow> goerr option \<times> Bridge" where
  "MarkRead T chatID upToID b =
     (case waitReady T b of
        (Some e, b1) \<Rightarrow> (Some e, b1)
      | (None, b1) \<Rightarrow>
          (case resolvePeer T chatID b1 of
             (Inl e, b2) \<Rightarrow> (Some e, b2)
           | (Inr (InputPeerChannel c h), b2) \<Rightarrow> ChannelsReadHistory T c h upToID b2
           | (Inr peer, b2) \<Rightarrow> MessagesReadHistory T peer upToID b2))"

text \<open>\<open>extractMessageID\<close>: the first update that carries an ID; a message that cannot be read is skipped.\<close>

fun updates_message_id :: "UpdateClass list \<Rightarrow> goint" where
  "updates_message_id [] = 0"
| "updates_message_id (UpdateNewMessage (TheMessage m) # us) = msg_ID m"
| "updates_message_id (UpdateNewChannelMessage (TheMessage m) # us) = msg_ID m"
| "updates_message_id (UpdateMessageID i # us) = i"
| "updates_message_id (_ # us) = updates_message_id us"

fun extractMessageID :: "UpdatesClass \<Rightarrow> goint" where
  "extractMessageID (UpdateShortSentMessage i) = i"
| "extractMessageID (Updates us) = updates_message_id us"
| "extractMessageID OtherUpdates = 0"

definition SendText :: "telegram \<Rightarrow> i64 \<Rightarrow> string \<Rightarrow> Bridge \<Rightarrow> goint result \<times> Bridge" where
  "SendText T chatID t b =
     (case waitReady T b of
        (Some e, b1) \<Rightarrow> (Inl e, b1)
      | (None, b1) \<Rightarrow>
          (case resolvePeer T chatID b1 of
             (Inl e, b2) \<Rightarrow> (Inl e, b2)
           | (Inr peer, b2) \<Rightarrow>
               (case sender_Text T peer t b2 of
                  (Inl e, b3) \<Rightarrow> (Inl (ErrWrap ''send'' e), b3)
                | (Inr upd, b3) \<Rightarrow> (Inr (extractMessageID upd), b3))))"

section \<open>What the loops compute\<close>

text \<open>The chats and cached peers of one dialog.\<close>

fun listed_dialog ::
  "(string \<rightharpoonup> MessageClass) \<Rightarrow> (i64 \<rightharpoonup> tgUser) \<Rightarrow> (i64 \<rightharpoonup> ChatClass) \<Rightarrow> DialogClass
   \<Rightarrow> (Chat \<times> (i64 \<times> InputPeer) list) list" where
  "listed_dialog M U C OtherDialog = []"
| "listed_dialog M U C (Dialog p unread t) =
     (case dialog_chat U C p (zero_chat unread) of
        None \<Rightarrow> [] | Some (c, ps) \<Rightarrow> [(with_last M p t c, ps)])"

lemma dialogs_loop_eq:
  "dialogs_loop M U C ds b =
     (map fst (concat (map (listed_dialog M U C) ds)),
      peers.put_all (concat (map snd (concat (map (listed_dialog M U C) ds)))) b)"
proof (induction ds arbitrary: b)
  case (Cons d ds)
  have app: "peers.put_all (xs @ ys) b = peers.put_all ys (peers.put_all xs b)" for xs ys b
    by (simp add: peers.put_all_def)
  show ?case
  proof (cases d)
    case (Dialog p unread t)
    then show ?thesis using Cons
      by (cases "dialog_chat U C p (zero_chat unread)")
        (simp_all add: split_beta app peers.put_all_def [symmetric] flip: peers.put_all_def)
  qed (use Cons in simp)
qed simp

lemma dialog_chat_Some:
  assumes "dialog_chat (indexUsers us) (indexChats cs) p c = Some (c', ps)"
  shows "chat_ID c' = peerToChatID p \<and> chat_Unread c' = chat_Unread c \<and> p \<noteq> OtherPeer
    \<and> chat_LastMsg c' = chat_LastMsg c \<and> chat_LastTs c' = chat_LastTs c
    \<and> (\<forall>i q. (i, q) \<in> set ps \<longrightarrow> i = chat_ID c' \<and> input_chat_id q = i)"
  using assms
  by (auto simp: dialog_chat_def Let_def split: Peer.splits option.splits ChatClass.splits
      dest!: indexUsers_Some indexChats_Some)

lemma dialog_chat_None: "dialog_chat U C p c = None \<longleftrightarrow> p = OtherPeer"
  by (auto simp: dialog_chat_def Let_def split: Peer.splits option.splits ChatClass.splits)

lemma with_last_fields [simp]:
  "chat_ID (with_last M p t c) = chat_ID c" "chat_Unread (with_last M p t c) = chat_Unread c"
  "chat_Type (with_last M p t c) = chat_Type c" "chat_Title (with_last M p t c) = chat_Title c"
  "chat_Username (with_last M p t c) = chat_Username c"
  by (auto simp: with_last_def split: option.splits MessageClass.splits)

lemma listed_dialog_mem:
  assumes "(c, ps) \<in> set (listed_dialog M (indexUsers us) (indexChats cs) d)"
  obtains p unread t c0 where "d = Dialog p unread t" "c = with_last M p t c0"
    "dialog_chat (indexUsers us) (indexChats cs) p (zero_chat unread) = Some (c0, ps)"
  using assms by (cases d) (auto split: option.splits)

section \<open>What the operations may touch\<close>

text \<open>The chat a call to Telegram is about.\<close>

fun rpc_chat :: "rpc \<Rightarrow> i64 option" where
  "rpc_chat (RpcGetDialogs l) = None"
| "rpc_chat (RpcGetHistory p l i) = Some (input_chat_id p)"
| "rpc_chat (RpcChannelsReadHistory c h i) = Some (- 1000000000000 - c)"
| "rpc_chat (RpcMessagesReadHistory p i) = Some (input_chat_id p)"
| "rpc_chat (RpcText p t) = Some (input_chat_id p)"
| "rpc_chat (RpcDownload i h f z) = None"

text \<open>
  \<open>acts_on chats b b'\<close>: \<open>b'\<close> comes from \<open>b\<close> by calls about these chats only, beside listings;
  the peer cache stays right, and everything but it, the start-up and the calls is as before.
\<close>

definition acts_on :: "i64 set \<Rightarrow> Bridge \<Rightarrow> Bridge \<Rightarrow> bool" where
  "acts_on chats b b' \<longleftrightarrow>
     peers_ok b'
   \<and> (\<exists>rs. bg_rpcs b' = bg_rpcs b @ rs \<and> (\<forall>r \<in> set rs. \<forall>i. rpc_chat r = Some i \<longrightarrow> i \<in> chats))
   \<and> bg_cfg b' = bg_cfg b \<and> bg_auth b' = bg_auth b \<and> bg_events b' = bg_events b
   \<and> bg_mediaKey b' = bg_mediaKey b \<and> bg_mediaCache b' = bg_mediaCache b \<and> bg_disk b' = bg_disk b"

lemma acts_on_refl: "peers_ok b \<Longrightarrow> acts_on chats b b"
  by (simp add: acts_on_def)

lemma acts_on_trans: "acts_on chats b b1 \<Longrightarrow> acts_on chats b1 b2 \<Longrightarrow> acts_on chats b b2"
  by (auto simp: acts_on_def)

lemma acts_on_mono: "acts_on chats b b' \<Longrightarrow> chats \<subseteq> chats' \<Longrightarrow> acts_on chats' b b'"
  unfolding acts_on_def by blast

lemma acts_on_call:
  "peers_ok b \<Longrightarrow> (\<And>i. rpc_chat r = Some i \<Longrightarrow> i \<in> chats) \<Longrightarrow> acts_on chats b (b\<lparr>bg_rpcs := bg_rpcs b @ [r]\<rparr>)"
  by (simp add: acts_on_def peers_ok_def)

lemma acts_on_ok: "acts_on chats b b' \<Longrightarrow> peers_ok b'"
  by (simp add: acts_on_def)

lemma acts_on_wait: "peers_ok b \<Longrightarrow> waitReady T b = (r, b') \<Longrightarrow> acts_on chats b b'"
  using waitReady_frame [of T b r b'] by (simp add: acts_on_def peers_ok_def)

lemma acts_on_put_all:
  "peers_ok b \<Longrightarrow> (\<And>i p. (i, p) \<in> set ps \<Longrightarrow> input_chat_id p = i) \<Longrightarrow> acts_on chats b (peers.put_all ps b)"
  using peers_ok_put_all [of b ps] by (simp add: acts_on_def)

lemma acts_on_dialogs:
  assumes "peers_ok b" and "dialogs_loop M (indexUsers us) (indexChats cs) ds b = (out, b')"
  shows "acts_on chats b b'"
proof -
  let ?L = "concat (map (listed_dialog M (indexUsers us) (indexChats cs)) ds)"
  have b': "b' = peers.put_all (concat (map snd ?L)) b" using assms(2) by (simp add: dialogs_loop_eq)
  have "input_chat_id q = i" if "(i, q) \<in> set (concat (map snd ?L))" for i q
  proof -
    from that obtain c ps d where "(c, ps) \<in> set (listed_dialog M (indexUsers us) (indexChats cs) d)"
      "(i, q) \<in> set ps" by auto
    then show ?thesis by (elim listed_dialog_mem) (auto dest: dialog_chat_Some)
  qed
  with assms(1) show ?thesis unfolding b' by (intro acts_on_put_all)
qed

lemma ListChats_acts:
  assumes "peers_ok b" and "ListChats T limit b = (r, b')"
  shows "acts_on {} b b'"
proof -
  obtain e b1 where w: "waitReady T b = (e, b1)" by (cases "waitReady T b")
  note a1 = acts_on_wait [OF assms(1) w]
  let ?b2 = "b1\<lparr>bg_rpcs := bg_rpcs b1 @ [RpcGetDialogs (clamp_limit 200 50 limit)]\<rparr>"
  have a2: "acts_on {} b ?b2"
    by (rule acts_on_trans [OF a1 acts_on_call [OF acts_on_ok [OF a1]]]) simp
  have "acts_on {} b b'" if "dialogs_loop M (indexUsers us) (indexChats cs) ds ?b2 = (out, b')" for M us cs ds out
    by (rule acts_on_trans [OF a2 acts_on_dialogs [OF acts_on_ok [OF a2] that]])
  with a1 a2 assms(2) w show ?thesis
    by (auto simp: ListChats_def call_defs split: option.splits sum.splits prod.splits)
qed

lemma resolvePeer_acts:
  assumes "peers_ok b" and "resolvePeer T chatID b = (r, b')"
  shows "acts_on {} b b' \<and> (\<forall>p. r = Inr p \<longrightarrow> input_chat_id p = chatID)"
proof -
  have hit: "input_chat_id p = chatID" if "peers_ok x" "bg_peerCache x chatID = Some p" for x p
    using that by (simp add: peers_ok_def)
  show ?thesis
  proof (cases "bg_peerCache b chatID")
    case None
    obtain l b1 where l: "ListChats T 200 b = (l, b1)" by (cases "ListChats T 200 b")
    have "b' = b1" using None l assms(2) by (auto simp: resolvePeer_def split: sum.splits option.splits)
    with ListChats_acts [OF assms(1) l] None l assms(2) show ?thesis
      by (auto simp: resolvePeer_def split: sum.splits option.splits dest: acts_on_ok intro: hit)
  next
    case (Some p)
    then show ?thesis using assms by (auto simp: resolvePeer_def acts_on_refl intro: hit)
  qed
qed

text \<open>The shared beginning of the operations on one chat: waiting and resolving.\<close>

lemma wait_resolve_acts:
  assumes "peers_ok b" and "waitReady T b = (None, b1)" and "resolvePeer T chatID b1 = (r, b2)"
  shows "acts_on chats b b2 \<and> peers_ok b2 \<and> (\<forall>p. r = Inr p \<longrightarrow> input_chat_id p = chatID)"
proof -
  have a1: "acts_on {} b b1" by (rule acts_on_wait [OF assms(1,2)])
  note a2 = resolvePeer_acts [OF acts_on_ok [OF a1] assms(3)]
  have "acts_on {} b b2" using acts_on_trans [OF a1] a2 by blast
  then have "acts_on chats b b2" by (rule acts_on_mono) simp
  with a2 show ?thesis by (auto dest: acts_on_ok)
qed

lemma chat_call_acts:
  assumes "peers_ok b" and "waitReady T b = (None, b1)" and "resolvePeer T chatID b1 = (r, b2)"
    and "rpc_chat q = Some chatID"
  shows "acts_on {chatID} b (b2\<lparr>bg_rpcs := bg_rpcs b2 @ [q]\<rparr>)"
proof -
  have a: "acts_on {chatID} b b2" "peers_ok b2"
    using wait_resolve_acts [OF assms(1-3), of "{chatID}"] by simp_all
  show ?thesis by (rule acts_on_trans [OF a(1) acts_on_call [OF a(2)]]) (simp add: assms(4))
qed

lemma GetMessages_acts:
  assumes "peers_ok b" and "GetMessages T chatID limit beforeID b = (r, b')"
  shows "acts_on {chatID} b b'"
proof -
  obtain e b1 where w: "waitReady T b = (e, b1)" by (cases "waitReady T b")
  show ?thesis
  proof (cases e)
    case None
    obtain p b2 where p: "resolvePeer T chatID b1 = (p, b2)" by (cases "resolvePeer T chatID b1")
    note a = wait_resolve_acts [OF assms(1) w [unfolded None] p, of "{chatID}"]
    show ?thesis
    proof (cases p)
      case (Inr q)
      have "acts_on {chatID} b (b2\<lparr>bg_rpcs := bg_rpcs b2 @ [RpcGetHistory q (clamp_limit 100 30 limit) beforeID]\<rparr>)"
        by (rule chat_call_acts [OF assms(1) w [unfolded None] p]) (use a Inr in simp)
      then show ?thesis using assms(2) w None p Inr
        by (auto simp: GetMessages_def call_defs split: sum.splits)
    qed (use assms(2) w None p a in \<open>auto simp: GetMessages_def\<close>)
  qed (use assms w acts_on_wait [OF assms(1) w] in \<open>auto simp: GetMessages_def\<close>)
qed

lemma MarkRead_acts:
  assumes "peers_ok b" and "MarkRead T chatID upTo b = (r, b')"
  shows "acts_on {chatID} b b'"
proof -
  obtain e b1 where w: "waitReady T b = (e, b1)" by (cases "waitReady T b")
  show ?thesis
  proof (cases e)
    case None
    obtain p b2 where p: "resolvePeer T chatID b1 = (p, b2)" by (cases "resolvePeer T chatID b1")
    note a = wait_resolve_acts [OF assms(1) w [unfolded None] p, of "{chatID}"]
    show ?thesis
    proof (cases p)
      case (Inr q)
      have call: "acts_on {chatID} b (b2\<lparr>bg_rpcs := bg_rpcs b2 @ [x]\<rparr>)" if "rpc_chat x = Some chatID" for x
        by (rule chat_call_acts [OF assms(1) w [unfolded None] p that])
      let ?x = "case q of InputPeerChannel c h \<Rightarrow> RpcChannelsReadHistory c h upTo | _ \<Rightarrow> RpcMessagesReadHistory q upTo"
      have "rpc_chat ?x = Some (input_chat_id q)" by (cases q) simp_all
      moreover have "b' = b2\<lparr>bg_rpcs := bg_rpcs b2 @ [?x]\<rparr>"
        using assms(2) w None p Inr by (cases q) (simp_all add: MarkRead_def call_defs)
      moreover have "input_chat_id q = chatID" using a Inr by simp
      ultimately show ?thesis using call by simp
    qed (use assms(2) w None p a in \<open>auto simp: MarkRead_def\<close>)
  qed (use assms w acts_on_wait [OF assms(1) w] in \<open>auto simp: MarkRead_def\<close>)
qed

lemma SendText_acts:
  assumes "peers_ok b" and "SendText T chatID t b = (r, b')"
  shows "acts_on {chatID} b b'"
proof -
  obtain e b1 where w: "waitReady T b = (e, b1)" by (cases "waitReady T b")
  show ?thesis
  proof (cases e)
    case None
    obtain p b2 where p: "resolvePeer T chatID b1 = (p, b2)" by (cases "resolvePeer T chatID b1")
    note a = wait_resolve_acts [OF assms(1) w [unfolded None] p, of "{chatID}"]
    show ?thesis
    proof (cases p)
      case (Inr q)
      have "acts_on {chatID} b (b2\<lparr>bg_rpcs := bg_rpcs b2 @ [RpcText q t]\<rparr>)"
        by (rule chat_call_acts [OF assms(1) w [unfolded None] p]) (use a Inr in simp)
      then show ?thesis using assms(2) w None p Inr
        by (auto simp: SendText_def call_defs split: sum.splits)
    qed (use assms(2) w None p a in \<open>auto simp: SendText_def\<close>)
  qed (use assms w acts_on_wait [OF assms(1) w] in \<open>auto simp: SendText_def\<close>)
qed

section \<open>Results\<close>

lemma clamp_limit_bounds:
  assumes "0 < sint d" and "sint d \<le> m"
  shows "1 \<le> sint (clamp_limit m d limit) \<and> sint (clamp_limit m d limit) \<le> m"
  using assms by (auto simp: clamp_limit_def)

lemma ListChats_Inr:
  assumes "ListChats T limit b = (Inr cs, b')"
  obtains b1 res ds ms us chats where
    "waitReady T b = (None, b1)"
    "tele_GetDialogs T (bg_rpcs b) (clamp_limit 200 50 limit) = Inr res"
    "dialogs_fields res = Inr (ds, ms, us, chats)"
    "cs = map fst (concat (map (listed_dialog (indexMessages ms) (indexUsers us) (indexChats chats)) ds))"
    "b' = peers.put_all (concat (map snd (concat (map (listed_dialog (indexMessages ms) (indexUsers us) (indexChats chats)) ds))))
            (b1\<lparr>bg_rpcs := bg_rpcs b @ [RpcGetDialogs (clamp_limit 200 50 limit)]\<rparr>)"
proof -
  obtain e b1 where w: "waitReady T b = (e, b1)" by (cases "waitReady T b")
  have "bg_rpcs b1 = bg_rpcs b" using waitReady_frame [OF w] by simp
  with w assms that show ?thesis
    by (auto simp: ListChats_def call_defs dialogs_loop_eq split: option.splits sum.splits)
qed

text \<open>The dialogs that are listed, with their chat IDs and unread counts.\<close>

fun dialog_row :: "DialogClass \<Rightarrow> (i64 \<times> goint) list" where
  "dialog_row (Dialog p unread t) = (if p = OtherPeer then [] else [(peerToChatID p, unread)])"
| "dialog_row OtherDialog = []"

lemma listed_dialog_row:
  "map (\<lambda>x. (chat_ID (fst x), chat_Unread (fst x))) (listed_dialog M (indexUsers us) (indexChats cs) d) = dialog_row d"
proof (cases d)
  case (Dialog p unread t)
  show ?thesis
  proof (cases "dialog_chat (indexUsers us) (indexChats cs) p (zero_chat unread)")
    case None
    with dialog_chat_None [THEN iffD1, OF None] show ?thesis using Dialog by simp
  next
    case (Some y)
    obtain c ps where y: "y = (c, ps)" by (cases y)
    from dialog_chat_Some [OF Some [unfolded y]] show ?thesis
      using Dialog Some y by (simp add: zero_chat_def)
  qed
qed simp

text \<open>
  The sent texts among calls to Telegram.
\<close>

fun rpc_text :: "rpc \<Rightarrow> (InputPeer \<times> string) list" where
  "rpc_text (RpcText p t) = [(p, t)]"
| "rpc_text _ = []"

definition texts :: "rpc list \<Rightarrow> (InputPeer \<times> string) list" where
  "texts rs = concat (map rpc_text rs)"

text \<open>Waiting and resolving send nothing and make at most one call.\<close>

lemma ListChats_calls:
  assumes "ListChats T limit b = (r, b')"
  shows "bg_rpcs b' = bg_rpcs b \<or> bg_rpcs b' = bg_rpcs b @ [RpcGetDialogs (clamp_limit 200 50 limit)]"
proof -
  obtain e b1 where w: "waitReady T b = (e, b1)" by (cases "waitReady T b")
  have "bg_rpcs b1 = bg_rpcs b" using waitReady_frame [OF w] by simp
  with w assms show ?thesis
    by (auto simp: ListChats_def call_defs dialogs_loop_eq split: option.splits sum.splits)
qed

lemma resolvePeer_calls:
  assumes "resolvePeer T chatID b = (r, b')"
  shows "bg_rpcs b' = bg_rpcs b \<or> bg_rpcs b' = bg_rpcs b @ [RpcGetDialogs (clamp_limit 200 50 200)]"
proof -
  obtain l b1 where l: "ListChats T 200 b = (l, b1)" by (cases "ListChats T 200 b")
  with ListChats_calls [OF l] assms show ?thesis
    by (auto simp: resolvePeer_def split: option.splits sum.splits)
qed

lemma wait_resolve_texts:
  assumes "waitReady T b = (None, b1)" and "resolvePeer T chatID b1 = (r, b2)"
  shows "\<exists>rs. bg_rpcs b2 = bg_rpcs b @ rs \<and> texts rs = []"
  using waitReady_frame [OF assms(1)] resolvePeer_calls [OF assms(2)] by (auto simp: texts_def)

section \<open>Properties\<close>

text \<open>
  C7: The peer cache always maps a chat ID to that chat's own peer, and every operation on a
  chat calls Telegram only about the chat it was given, beside listing the dialogs; it changes
  nothing else of the bridge. So a client can only read, mark or write in the chat it names.
\<close>

theorem operations_stay_in_chat:
  assumes "peers_ok b"
  shows "acts_on {} b (snd (ListChats T limit b))
    \<and> acts_on {chatID} b (snd (GetMessages T chatID limit beforeID b))
    \<and> acts_on {chatID} b (snd (MarkRead T chatID upTo b))
    \<and> acts_on {chatID} b (snd (SendText T chatID t b))"
  using ListChats_acts [OF assms] GetMessages_acts [OF assms] MarkRead_acts [OF assms] SendText_acts [OF assms]
  by (metis prod.collapse)

text \<open>A Telegram with three dialogs, a basic group among them that shares its number with a channel.\<close>

definition sample_dialogs :: DialogsResponse where
  "sample_dialogs =
     MessagesDialogs [Dialog (PeerUser 7) 2 11, Dialog (PeerChat 9) 0 12, Dialog (PeerChannel 9) 1 13]
       [TheMessage \<lparr>msg_ID = 11, msg_PeerID = PeerUser 7, msg_FromID = None, msg_Message = ''hello'', msg_Date = 100,
          msg_Out = False, msg_ReplyTo = None, msg_Media = None\<rparr>]
       [TheUser \<lparr>usr_ID = 7, usr_AccessHash = 70, usr_FirstName = ''Ann'', usr_LastName = ''Lee'',
          usr_Username = ''ann'', usr_Phone = ''''\<rparr>]
       [TheChat \<lparr>grp_ID = 9, grp_Title = ''Family''\<rparr>,
        TheChannel \<lparr>chn_ID = 9, chn_AccessHash = 90, chn_Title = ''News'', chn_Username = ''news''\<rparr>]"

definition sample_telegram :: telegram where
  "sample_telegram = \<lparr>tele_GetDialogs = (\<lambda>_ _. Inr sample_dialogs),
     tele_GetHistory = (\<lambda>_ _ _ _. Inr (MessagesMessages
       [TheMessage \<lparr>msg_ID = 11, msg_PeerID = PeerUser 7, msg_FromID = Some (PeerUser 7), msg_Message = ''hello'',
          msg_Date = 100, msg_Out = False, msg_ReplyTo = Some (MessageReplyHeader 4), msg_Media = None\<rparr>, OtherMessage]
       [TheUser \<lparr>usr_ID = 7, usr_AccessHash = 70, usr_FirstName = ''Ann'', usr_LastName = ''Lee'',
          usr_Username = ''ann'', usr_Phone = ''''\<rparr>])),
     tele_ChannelsReadHistory = (\<lambda>_ _ _ _. None), tele_MessagesReadHistory = (\<lambda>_ _ _. None),
     tele_Text = (\<lambda>_ _ _. Inr (UpdateShortSentMessage 14)), tele_wait = (\<lambda>_. Inl ErrDeadline)\<rparr>"

definition sample_user :: tgUser where
  "sample_user = \<lparr>usr_ID = 1, usr_AccessHash = 0, usr_FirstName = ''Me'', usr_LastName = '''',
     usr_Username = ''me'', usr_Phone = ''+1''\<rparr>"

definition sample_bridge :: Bridge where
  "sample_bridge = \<lparr>bg_cfg = sample_cfg, bg_auth = newHTTPAuthenticator, bg_clientReady = True,
     bg_self = Some sample_user, bg_events = newBroker 64, bg_peerCache = Map.empty,
     bg_mediaKey = [], bg_mediaCache = empty_cache ''m'' 100,
     bg_disk = \<lparr>files = Map.empty, stuck = (\<lambda>_. False)\<rparr>, bg_rpcs = []\<rparr>"

lemma sample_bridge_ok: "peers_ok sample_bridge"
  by (simp add: peers_ok_def sample_bridge_def)

lemma sample_bridge_peers: "bg_peerCache sample_bridge = Map.empty"
  by (simp add: sample_bridge_def)

lemma sample_wait: "waitReady sample_telegram sample_bridge = (None, sample_bridge)"
  by (simp add: waitReady_def Self_def sample_bridge_def)

theorem operations_stay_in_chat_witness:
  "acts_on {7} sample_bridge (snd (SendText sample_telegram 7 ''hi'' sample_bridge))"
  using operations_stay_in_chat [OF sample_bridge_ok, of sample_telegram _ 7 _ _ "''hi''"] by blast

text \<open>
  C33: \<open>ListChats\<close> asks Telegram for 1 to 200 dialogs whatever limit it was given, and returns
  one entry per dialog of a known kind, in the order of the answer, each with the chat ID of the
  dialog's peer and its unread count.
\<close>

theorem list_chats_rows:
  assumes "ListChats T limit b = (Inr cs, b')"
  shows "\<exists>n res ds ms us chats. 1 \<le> sint n \<and> sint n \<le> 200 \<and> tele_GetDialogs T (bg_rpcs b) n = Inr res
    \<and> bg_rpcs b' = bg_rpcs b @ [RpcGetDialogs n] \<and> dialogs_fields res = Inr (ds, ms, us, chats)
    \<and> map (\<lambda>c. (chat_ID c, chat_Unread c)) cs = concat (map dialog_row ds)"
proof -
  from assms obtain b1 res ds ms us chats where l: "waitReady T b = (None, b1)"
    "tele_GetDialogs T (bg_rpcs b) (clamp_limit 200 50 limit) = Inr res" "dialogs_fields res = Inr (ds, ms, us, chats)"
    "cs = map fst (concat (map (listed_dialog (indexMessages ms) (indexUsers us) (indexChats chats)) ds))"
    "b' = peers.put_all (concat (map snd (concat (map (listed_dialog (indexMessages ms) (indexUsers us) (indexChats chats)) ds))))
            (b1\<lparr>bg_rpcs := bg_rpcs b @ [RpcGetDialogs (clamp_limit 200 50 limit)]\<rparr>)"
    by (rule ListChats_Inr)
  have "map (\<lambda>c. (chat_ID c, chat_Unread c)) cs = concat (map dialog_row ds)"
    unfolding l(4) map_map map_concat by (simp add: o_def listed_dialog_row)
  moreover have "bg_rpcs b' = bg_rpcs b @ [RpcGetDialogs (clamp_limit 200 50 limit)]" by (simp add: l(5))
  ultimately show ?thesis using l(2,3) clamp_limit_bounds [of 50 200 limit] by auto
qed

lemma sample_name: "strings_TrimSpace ''Ann Lee'' = ''Ann Lee''"
  by code_simp

lemma sample_list:
  "\<exists>cs b'. ListChats sample_telegram 10 sample_bridge = (Inr cs, b')
     \<and> cs \<noteq> [] \<and> chat_ID (hd cs) = 7 \<and> chat_LastMsg (hd cs) = ''hello''
     \<and> map chat_ID cs = [7, - 9, - 1000000000009] \<and> map chat_LastMsg cs = [''hello'', '''', '''']
     \<and> map chat_Title cs = [''Ann Lee'', '''', ''News'']
     \<and> bg_peerCache b' = [7 \<mapsto> InputPeerUser 7 70, - 1000000000009 \<mapsto> InputPeerChannel 9 90]"
proof -
  have idx: "indexMessages [TheMessage m] = [msgKey (msg_PeerID m) (msg_ID m) \<mapsto> TheMessage m]" for m
    by (simp add: indexMessages_def)
  have "tele_GetDialogs sample_telegram h n = Inr sample_dialogs" for h n by (simp add: sample_telegram_def)
  then show ?thesis
    by (simp add: ListChats_def sample_wait call_defs sample_dialogs_def idx indexUsers_def
        indexChats_def dialog_chat_def zero_chat_def with_last_def msgKey_inject full_name_def sample_name
        truncate_preview_def replace_newlines_def cachePeer_def sample_bridge_peers)
qed

theorem list_chats_rows_witness:
  "\<exists>cs b' n. ListChats sample_telegram 10 sample_bridge = (Inr cs, b') \<and> 1 \<le> sint n \<and> sint n \<le> 200
     \<and> bg_rpcs b' = [] @ [RpcGetDialogs n]"
proof -
  obtain cs b' where l: "ListChats sample_telegram 10 sample_bridge = (Inr cs, b')" using sample_list by blast
  from list_chats_rows [OF l] obtain n where "1 \<le> sint n" "sint n \<le> 200" "bg_rpcs b' = bg_rpcs sample_bridge @ [RpcGetDialogs n]"
    by blast
  moreover have "bg_rpcs sample_bridge = []" by (simp add: sample_bridge_def)
  ultimately show ?thesis using l by fastforce
qed

text \<open>
  C32: A preview is never another chat's: the last message shown with a chat is a message of the
  answer that belongs to this chat and is the dialog's top message, cut to a preview.
\<close>

theorem list_chats_preview:
  assumes "ListChats T limit b = (Inr cs, b')" and "c \<in> set cs" and "chat_LastMsg c \<noteq> ''''"
  shows "\<exists>n res ds ms us chats p unread t mm. tele_GetDialogs T (bg_rpcs b) n = Inr res
    \<and> dialogs_fields res = Inr (ds, ms, us, chats) \<and> Dialog p unread t \<in> set ds \<and> TheMessage mm \<in> set ms
    \<and> peerToChatID p = chat_ID c \<and> peerToChatID (msg_PeerID mm) = chat_ID c \<and> msg_ID mm = t
    \<and> chat_LastMsg c = truncate_preview (msg_Message mm) 80 \<and> chat_LastTs c = msg_Date mm"
proof -
  from assms(1) obtain b1 res ds ms us chats where l:
    "tele_GetDialogs T (bg_rpcs b) (clamp_limit 200 50 limit) = Inr res" "dialogs_fields res = Inr (ds, ms, us, chats)"
    "cs = map fst (concat (map (listed_dialog (indexMessages ms) (indexUsers us) (indexChats chats)) ds))"
    by (rule ListChats_Inr)
  with assms(2) obtain ps d where d: "d \<in> set ds" "(c, ps) \<in> set (listed_dialog (indexMessages ms) (indexUsers us) (indexChats chats) d)"
    by auto
  from d(2) obtain p unread t c0 where c: "d = Dialog p unread t" "c = with_last (indexMessages ms) p t c0"
    "dialog_chat (indexUsers us) (indexChats chats) p (zero_chat unread) = Some (c0, ps)"
    by (rule listed_dialog_mem)
  note c0 = dialog_chat_Some [OF c(3)]
  then have "chat_LastMsg c0 = ''''" by (simp add: zero_chat_def)
  with assms(3) c(2) obtain mm where mm: "indexMessages ms (msgKey p t) = Some (TheMessage mm)"
    "c = c0\<lparr>chat_LastMsg := truncate_preview (msg_Message mm) 80, chat_LastTs := msg_Date mm\<rparr>"
    by (auto simp: with_last_def split: option.splits MessageClass.splits)
  from mm(1) have "TheMessage mm \<in> set ms" "msgKey p t = msgKey (msg_PeerID mm) (msg_ID mm)"
    by (elim indexMessages_Some, simp)+
  then have "TheMessage mm \<in> set ms" "peerToChatID (msg_PeerID mm) = peerToChatID p" "msg_ID mm = t"
    by (simp_all add: msgKey_inject)
  moreover have "chat_ID c = peerToChatID p" "chat_LastMsg c = truncate_preview (msg_Message mm) 80" "chat_LastTs c = msg_Date mm"
    using c0 mm(2) by simp_all
  ultimately show ?thesis using l(1,2) d(1) c(1) by metis
qed

theorem list_chats_preview_witness:
  "\<exists>cs b' mm. ListChats sample_telegram 10 sample_bridge = (Inr cs, b') \<and> chat_ID (hd cs) = 7
     \<and> peerToChatID (msg_PeerID (mm :: tgMessage)) = 7 \<and> chat_LastMsg (hd cs) = truncate_preview (msg_Message mm) 80"
proof -
  obtain cs b' where l: "ListChats sample_telegram 10 sample_bridge = (Inr cs, b')"
    "cs \<noteq> []" "chat_ID (hd cs) = 7" "chat_LastMsg (hd cs) = ''hello''"
    using sample_list by (elim exE conjE) (erule (3) that)
  from l(2,4) have hd: "hd cs \<in> set cs" "chat_ID (hd cs) = 7" "chat_LastMsg (hd cs) \<noteq> ''''" using l(3) by simp_all
  from list_chats_preview [OF l(1) hd(1,3)] obtain mm :: tgMessage where
    "peerToChatID (msg_PeerID mm) = chat_ID (hd cs)" "chat_LastMsg (hd cs) = truncate_preview (msg_Message mm) 80"
    by blast
  with l(1) hd(2) show ?thesis by (intro exI [of _ cs] exI [of _ b'] exI [of _ mm]) simp
qed

text \<open>
  \<open>SendText\<close> sends at most once, and only the given text to the given chat. If it returns an
  ID the text was sent; if it returns an error after sending, the error is Telegram's answer.
\<close>

theorem send_text_once:
  assumes "peers_ok b" and "SendText T chatID t b = (r, b')"
  shows "\<exists>rs. bg_rpcs b' = bg_rpcs b @ rs
    \<and> ((texts rs = [] \<and> \<not> is_ok r)
       \<or> (\<exists>p h upd. texts rs = [(p, t)] \<and> input_chat_id p = chatID \<and> tele_Text T h p t = upd
            \<and> r = (case upd of Inl e \<Rightarrow> Inl (ErrWrap ''send'' e) | Inr u \<Rightarrow> Inr (extractMessageID u))))"
proof -
  obtain e b1 where w: "waitReady T b = (e, b1)" by (cases "waitReady T b")
  show ?thesis
  proof (cases e)
    case (Some x)
    then show ?thesis using assms(2) w waitReady_frame [OF w] by (auto simp: SendText_def texts_def)
  next
    case None
    obtain p b2 where p: "resolvePeer T chatID b1 = (p, b2)" by (cases "resolvePeer T chatID b1")
    obtain rs where rs: "bg_rpcs b2 = bg_rpcs b @ rs" "texts rs = []"
      using wait_resolve_texts [OF w [unfolded None] p] by blast
    show ?thesis
    proof (cases p)
      case (Inl x)
      then show ?thesis using assms(2) w None p rs by (auto simp: SendText_def)
    next
      case (Inr q)
      have "input_chat_id q = chatID"
        using wait_resolve_acts [OF assms(1) w [unfolded None] p] Inr by simp
      moreover have "bg_rpcs b' = bg_rpcs b @ rs @ [RpcText q t]"
        "r = (case tele_Text T (bg_rpcs b2) q t of Inl e \<Rightarrow> Inl (ErrWrap ''send'' e) | Inr u \<Rightarrow> Inr (extractMessageID u))"
        using assms(2) w None p Inr rs by (auto simp: SendText_def call_defs split: sum.splits)
      moreover have "texts (rs @ [RpcText q t]) = [(q, t)]" using rs(2) by (simp add: texts_def)
      ultimately show ?thesis by blast
    qed
  qed
qed

lemma sample_send:
  "\<exists>b'. SendText sample_telegram 7 ''hi'' sample_bridge = (Inr 14, b')"
proof -
  obtain cs b' where l: "ListChats sample_telegram 200 sample_bridge = (Inr cs, b')"
    "bg_peerCache b' 7 = Some (InputPeerUser 7 70)"
  proof -
    have "tele_GetDialogs sample_telegram h n = Inr sample_dialogs" for h n by (simp add: sample_telegram_def)
    then show ?thesis using that
      by (simp add: ListChats_def sample_wait call_defs sample_dialogs_def indexUsers_def indexChats_def
          dialog_chat_def cachePeer_def sample_bridge_peers split_beta)
  qed
  have "tele_Text sample_telegram h p t = Inr (UpdateShortSentMessage 14)" for h p t
    by (simp add: sample_telegram_def)
  then show ?thesis
    using l by (simp add: SendText_def sample_wait resolvePeer_def sample_bridge_peers call_defs)
qed

theorem send_text_once_witness:
  "\<exists>b' p. SendText sample_telegram 7 ''hi'' sample_bridge = (Inr 14, b') \<and> texts (bg_rpcs b') = [(p, ''hi'')]
     \<and> input_chat_id p = 7"
proof -
  obtain b' where s: "SendText sample_telegram 7 ''hi'' sample_bridge = (Inr 14, b')" using sample_send by blast
  from send_text_once [OF sample_bridge_ok s] s show ?thesis by (auto simp: sample_bridge_def)
qed

text \<open>
  C34: \<open>GetMessages\<close> asks for 1 to 100 messages of the named chat before the given message, and
  returns the readable ones of the answer in its order, each with its own ID and text and the
  named chat's ID.
\<close>

theorem get_messages_rows:
  assumes "peers_ok b" and "GetMessages T chatID limit beforeID b = (Inr out, b')"
  shows "\<exists>h p n res messages users. input_chat_id p = chatID \<and> 1 \<le> sint n \<and> sint n \<le> 100
    \<and> tele_GetHistory T h p n beforeID = Inr res \<and> history_fields res = Inr (messages, users)
    \<and> map (\<lambda>m. (out_ID m, out_ChatID m, out_Text m)) out
      = [(msg_ID mm, chatID, msg_Message mm). TheMessage mm \<leftarrow> messages]"
proof -
  have rows: "map (\<lambda>m. (out_ID m, out_ChatID m, out_Text m)) (history_loop key chatID U ms)
      = [(msg_ID mm, chatID, msg_Message mm). TheMessage mm \<leftarrow> ms]" for key U ms
    by (induction ms rule: history_loop.induct [of _ key chatID U])
      (auto simp: history_message_def with_sender_def Let_def split: option.splits Peer.splits)
  obtain e b1 where w: "waitReady T b = (e, b1)" by (cases "waitReady T b")
  with assms(2) have w: "waitReady T b = (None, b1)" by (auto simp: GetMessages_def split: option.splits)
  obtain p b2 where p: "resolvePeer T chatID b1 = (p, b2)" by (cases "resolvePeer T chatID b1")
  with assms(2) w obtain q where q: "p = Inr q" by (auto simp: GetMessages_def split: sum.splits)
  have "input_chat_id q = chatID" using wait_resolve_acts [OF assms(1) w p] q by simp
  moreover obtain res messages users where
    "tele_GetHistory T (bg_rpcs b2) q (clamp_limit 100 30 limit) beforeID = Inr res"
    "history_fields res = Inr (messages, users)"
    "out = history_loop (bg_mediaKey b2) chatID (indexUsers users) messages"
    using assms(2) w p q by (auto simp: GetMessages_def call_defs split: sum.splits)
  ultimately show ?thesis using rows clamp_limit_bounds [of 30 100 limit] by fastforce
qed

text \<open>The peer cache of the sample bridge after one listing.\<close>

lemma sample_refresh:
  "\<exists>cs b'. ListChats sample_telegram 200 sample_bridge = (Inr cs, b')
     \<and> bg_peerCache b' = [7 \<mapsto> InputPeerUser 7 70, - 1000000000009 \<mapsto> InputPeerChannel 9 90]"
proof -
  have "tele_GetDialogs sample_telegram h n = Inr sample_dialogs" for h n by (simp add: sample_telegram_def)
  then show ?thesis
    by (simp add: ListChats_def sample_wait call_defs sample_dialogs_def indexUsers_def indexChats_def
        dialog_chat_def cachePeer_def sample_bridge_peers split_beta)
qed

theorem get_messages_rows_witness:
  "\<exists>out b'. GetMessages sample_telegram 7 0 0 sample_bridge = (Inr out, b') \<and> map out_ChatID out = [7]
     \<and> map out_ID out = [11]"
proof -
  obtain cs b1 where l: "ListChats sample_telegram 200 sample_bridge = (Inr cs, b1)"
    "bg_peerCache b1 = [7 \<mapsto> InputPeerUser 7 70, - 1000000000009 \<mapsto> InputPeerChannel 9 90]"
    using sample_refresh by blast
  obtain ms us where res: "\<And>h p n i. tele_GetHistory sample_telegram h p n i = Inr (MessagesMessages ms us)"
    "[(msg_ID mm, 7, msg_Message mm). TheMessage mm \<leftarrow> ms] = [(11, 7 :: i64, ''hello'')]"
    by (simp add: sample_telegram_def)
  obtain out b' where g: "GetMessages sample_telegram 7 0 0 sample_bridge = (Inr out, b')"
    using l res(1) by (simp add: GetMessages_def sample_wait resolvePeer_def sample_bridge_peers call_defs)
  from get_messages_rows [OF sample_bridge_ok g] res
  have "map (\<lambda>m. (out_ID m, out_ChatID m, out_Text m)) out = [(11, 7, ''hello'')]" by auto
  then have "map out_ChatID out = [7]" "map out_ID out = [11]" by (auto simp: map_eq_Cons_conv)
  with g show ?thesis by (intro exI conjI)
qed

text \<open>
  A basic group and a channel of the same number share one entry of the index over the
  chats of an answer: with the channel later in the answer, the group is listed without its
  title, is not cached, and a message to it fails with \<open>not found\<close> though the listing shows it.
\<close>

theorem basic_group_shadowed:
  "\<exists>cs b' b''. ListChats sample_telegram 10 sample_bridge = (Inr cs, b')
    \<and> map chat_ID cs = [7, - 9, - 1000000000009] \<and> map chat_Title cs = [''Ann Lee'', '''', ''News'']
    \<and> SendText sample_telegram (- 9) ''hi'' sample_bridge = (Inl (ErrNew (''chat '' @ print_i64 (- 9) @ '' not found'')), b'')
    \<and> texts (bg_rpcs b'') = []"
proof -
  obtain cs b1 where l: "ListChats sample_telegram 200 sample_bridge = (Inr cs, b1)"
    "bg_peerCache b1 = [7 \<mapsto> InputPeerUser 7 70, - 1000000000009 \<mapsto> InputPeerChannel 9 90]"
    using sample_refresh by blast
  then have "resolvePeer sample_telegram (- 9) sample_bridge
      = (Inl (ErrNew (''chat '' @ print_i64 (- 9) @ '' not found'')), b1)"
    by (simp add: resolvePeer_def sample_bridge_peers)
  moreover have "texts (bg_rpcs b1) = []"
    using ListChats_calls [OF l(1)] by (auto simp: sample_bridge_def texts_def)
  ultimately have "SendText sample_telegram (- 9) ''hi'' sample_bridge
      = (Inl (ErrNew (''chat '' @ print_i64 (- 9) @ '' not found'')), b1) \<and> texts (bg_rpcs b1) = []"
    by (simp add: SendText_def sample_wait)
  then show ?thesis using sample_list by (elim exE conjE) (intro exI conjI)
qed

end
