(* ===== verification/Media_Fetch.thy ===== *)
theory Media_Fetch
  imports Chats
begin

text \<open>
  \<open>FetchMedia\<close> of \<open>internal/bridge/media.go\<close>: from the cache if the ID is there, otherwise after
  checking the ID, by a download into the cache. What the download writes and how it and the file
  operations end is an argument, a function of the requested location.
\<close>

type_synonym location = "i64 \<times> i64 \<times> bytes \<times> string"

text \<open>The result is \<open>None\<close> if decoding the ID panics.\<close>

definition FetchMedia ::
  "telegram \<Rightarrow> (location \<Rightarrow> put_io) \<Rightarrow> string \<Rightarrow> Bridge \<Rightarrow> ((string \<times> string) \<times> string) result option \<times> Bridge" where
  "FetchMedia T download mediaID b =
     (case cache_Get (bg_mediaCache b) mediaID of
        (Some (p, mime), c) \<Rightarrow> (Some (Inr (p, mime)), b\<lparr>bg_mediaCache := c\<rparr>)
      | (None, c) \<Rightarrow>
          (let b0 = b\<lparr>bg_mediaCache := c\<rparr> in
           case decodeMediaID (bg_mediaKey b0) mediaID of
             None \<Rightarrow> (None, b0)
           | Some (Inl e) \<Rightarrow> (Some (Inl e), b0)
           | Some (Inr ref) \<Rightarrow>
               (case waitReady T b0 of
                  (Some e, b1) \<Rightarrow> (Some (Inl e), b1)
                | (None, b1) \<Rightarrow>
                    (if ref_Kind ref = mediaKindPhoto then
                       (let loc = (ref_ID ref, ref_AccessHash ref, ref_FileRef ref, ref_ThumbSize ref);
                            mime = ''image/jpeg''; io = download loc
                        in case cache_Put (bg_mediaCache b1) (bg_disk b1) mediaID mime io of
                             (r, c2, d2) \<Rightarrow>
                               (Some (case r of Inl e \<Rightarrow> Inl e | Inr p \<Rightarrow> Inr (p, mime)),
                                b1\<lparr>bg_mediaCache := c2, bg_disk := d2,
                                   bg_rpcs := bg_rpcs b1 @
                                     (if io_open io = None
                                      then [RpcDownload (fst loc) (fst (snd loc)) (fst (snd (snd loc))) (snd (snd (snd loc)))]
                                      else [])\<rparr>))
                     else (Some (Inl (ErrNew (''unsupported media kind '' @ print_nat (unat (ref_Kind ref))))), b1)))))"

definition media_good :: "Bridge \<Rightarrow> bool" where
  "media_good b \<longleftrightarrow> cache_good (bg_mediaCache b, bg_disk b)"

lemma Get_media_good:
  "media_good b \<Longrightarrow> cache_Get (bg_mediaCache b) i = (r, c) \<Longrightarrow> media_good (b\<lparr>bg_mediaCache := c\<rparr>)"
  by (simp add: media_good_def good_Get)

lemma decode_total: "decodeMediaID key s \<noteq> None"
  using unmarshal_no_panic by (auto simp: decodeMediaID_def Let_def split: sum.splits)

text \<open>A miss with a good ID ends in the cache's \<open>Put\<close>.\<close>

lemma FetchMedia_miss:
  assumes "cache_Get (bg_mediaCache b) mediaID = (None, c)" and "decodeMediaID (bg_mediaKey b) mediaID = Some (Inr ref)"
    and "waitReady T (b\<lparr>bg_mediaCache := c\<rparr>) = (None, b1)" and "ref_Kind ref = mediaKindPhoto"
    and "cache_Put (bg_mediaCache b1) (bg_disk b1) mediaID ''image/jpeg''
      (download (ref_ID ref, ref_AccessHash ref, ref_FileRef ref, ref_ThumbSize ref)) = (r, c2, d2)"
  shows "FetchMedia T download mediaID b =
    (Some (case r of Inl e \<Rightarrow> Inl e | Inr p \<Rightarrow> Inr (p, ''image/jpeg'')),
     b1\<lparr>bg_mediaCache := c2, bg_disk := d2,
        bg_rpcs := bg_rpcs b1 @
          (if io_open (download (ref_ID ref, ref_AccessHash ref, ref_FileRef ref, ref_ThumbSize ref)) = None
           then [RpcDownload (ref_ID ref) (ref_AccessHash ref) (ref_FileRef ref) (ref_ThumbSize ref)] else [])\<rparr>)"
  using assms by (simp add: FetchMedia_def Let_def)

text \<open>The ways a fetch can go.\<close>

lemma FetchMedia_cases:
  assumes "FetchMedia T download mediaID b = (r, b')"
  obtains (hit) p mime c where "cache_Get (bg_mediaCache b) mediaID = (Some (p, mime), c)"
      "r = Some (Inr (p, mime))" "b' = b\<lparr>bg_mediaCache := c\<rparr>"
  | (refused) e c where "cache_Get (bg_mediaCache b) mediaID = (None, c)" "r = Some (Inl e)"
      "b' = b\<lparr>bg_mediaCache := c\<rparr> \<or> (\<exists>x. waitReady T (b\<lparr>bg_mediaCache := c\<rparr>) = (x, b'))"
      "\<And>ref. decodeMediaID (bg_mediaKey b) mediaID = Some (Inr ref) \<Longrightarrow>
         ref_Kind ref \<noteq> mediaKindPhoto \<or> (\<exists>x. waitReady T (b\<lparr>bg_mediaCache := c\<rparr>) = (Some x, b'))"
  | (fetched) c ref b1 q c2 d2 where "cache_Get (bg_mediaCache b) mediaID = (None, c)"
      "decodeMediaID (bg_mediaKey b) mediaID = Some (Inr ref)" "ref_Kind ref = mediaKindPhoto"
      "waitReady T (b\<lparr>bg_mediaCache := c\<rparr>) = (None, b1)"
      "cache_Put (bg_mediaCache b1) (bg_disk b1) mediaID ''image/jpeg''
         (download (ref_ID ref, ref_AccessHash ref, ref_FileRef ref, ref_ThumbSize ref)) = (q, c2, d2)"
proof -
  obtain g c where g: "cache_Get (bg_mediaCache b) mediaID = (g, c)" by (cases "cache_Get (bg_mediaCache b) mediaID")
  show ?thesis
  proof (cases g)
    case (Some x)
    then show ?thesis using assms g hit by (cases x) (auto simp: FetchMedia_def)
  next
    case None
    obtain d where d: "decodeMediaID (bg_mediaKey b) mediaID = Some d" using decode_total by blast
    obtain w b1 where w: "waitReady T (b\<lparr>bg_mediaCache := c\<rparr>) = (w, b1)"
      by (cases "waitReady T (b\<lparr>bg_mediaCache := c\<rparr>)")
    show ?thesis
    proof (cases d)
      case (Inl e)
      with assms g None d have "r = Some (Inl e)" "b' = b\<lparr>bg_mediaCache := c\<rparr>" by (simp_all add: FetchMedia_def)
      with g None d Inl show ?thesis by (intro refused) auto
    next
      case (Inr ref)
      show ?thesis
      proof (cases "w = None \<and> ref_Kind ref = mediaKindPhoto")
        case True
        obtain q c2 d2 where "cache_Put (bg_mediaCache b1) (bg_disk b1) mediaID ''image/jpeg''
           (download (ref_ID ref, ref_AccessHash ref, ref_FileRef ref, ref_ThumbSize ref)) = (q, c2, d2)"
          by (metis prod_cases3)
        with True g None d Inr w show ?thesis by (intro fetched) auto
      next
        case False
        then obtain e where "r = Some (Inl e)" "b' = b1" using assms g None d Inr w
          by (cases w) (auto simp: FetchMedia_def)
        with False g None d Inr w show ?thesis by (intro refused) auto
      qed
    qed
  qed
qed

section \<open>Properties\<close>

text \<open>
  C15: A fetch downloads only what the bridge itself offered: if it calls Telegram at all, the ID
  carries the bridge's signature and the requested location is the one signed in it. It never
  panics, whatever string the client sends.
\<close>

theorem fetch_media_authentic:
  assumes "FetchMedia T download mediaID b = (r, b')"
  shows "r \<noteq> None \<and> (bg_rpcs b' = bg_rpcs b
    \<or> (\<exists>ref. decodeMediaID (bg_mediaKey b) mediaID = Some (Inr ref) \<and> ref_Kind ref = mediaKindPhoto
         \<and> bg_rpcs b' = bg_rpcs b @ [RpcDownload (ref_ID ref) (ref_AccessHash ref) (ref_FileRef ref) (ref_ThumbSize ref)]))"
  using assms
proof (cases rule: FetchMedia_cases)
  case (hit p mime c)
  then show ?thesis by simp
next
  case (refused e c)
  then show ?thesis using waitReady_frame by fastforce
next
  case (fetched c ref b1 q c2 d2)
  have "bg_rpcs b1 = bg_rpcs b" using waitReady_frame [OF fetched(4)] by simp
  with FetchMedia_miss [where download = download, OF fetched(1,2,4,3,5)] assms fetched(2,3) show ?thesis by (auto split: if_splits)
qed

text \<open>
  Fetching the same media again, right after a successful fetch or after fetches of other
  media that hit the cache, is answered from the cache: the same path and type, no call to
  Telegram, and the file is on disk.
\<close>

theorem fetch_media_cached:
  assumes "media_good b" and "FetchMedia T download mediaID b = (Some (Inr (p, mime)), b1)"
  shows "\<exists>b2. FetchMedia T' download' mediaID b1 = (Some (Inr (p, mime)), b2)
    \<and> bg_rpcs b2 = bg_rpcs b1 \<and> bg_disk b2 = bg_disk b1 \<and> media_good b2 \<and> files (bg_disk b2) (snd p) \<noteq> None"
proof -
  have again: ?thesis
    if good1: "media_good b1" and hit1: "fst (store_get (bg_mediaCache b1, bg_disk b1) mediaID) = Some (p, mime)"
  proof -
    obtain c where c: "cache_Get (bg_mediaCache b1) mediaID = (Some (p, mime), c)"
      using hit1 by (metis store_get_fst fst_conv prod.collapse)
    have "store_content (bg_mediaCache b1, bg_disk b1) p \<noteq> None"
      by (rule store.get_hit [of _ mediaID p mime "(c, bg_disk b1)"])
        (use good1 c in \<open>simp_all add: media_good_def store_get_def\<close>)
    then have "files (bg_disk b1) (snd p) \<noteq> None" by (simp add: store_content_def split: if_splits)
    with c Get_media_good [OF good1 c] show ?thesis by (simp add: FetchMedia_def)
  qed
  from assms(2) show ?thesis
  proof (cases rule: FetchMedia_cases)
    case (hit q m c)
    then have "store_get (bg_mediaCache b, bg_disk b) mediaID = (Some (p, mime), (c, bg_disk b))"
      by (simp add: store_get_def)
    with store.get_again [OF assms(1) [unfolded media_good_def] this, of mediaID] hit Get_media_good [OF assms(1) hit(1)]
    show ?thesis by (intro again) simp_all
  next
    case (refused e c)
    then show ?thesis by simp
  next
    case (fetched c ref w q c2 d2)
    have "media_good (b\<lparr>bg_mediaCache := c\<rparr>)" by (rule Get_media_good [OF assms(1) fetched(1)])
    then have good: "cache_good (bg_mediaCache w, bg_disk w)"
      using waitReady_frame [OF fetched(4)] by (simp add: media_good_def)
    note run = FetchMedia_miss [where download = download, OF fetched(1,2,4,3,5)]
    from run assms(2) have q: "q = Inr p" "mime = ''image/jpeg''"
      and b1: "bg_mediaCache b1 = c2" "bg_disk b1 = d2" by (auto split: sum.splits)
    from fetched(5) q(1) have put: "store_put (bg_mediaCache w, bg_disk w) mediaID ''image/jpeg''
        (download (ref_ID ref, ref_AccessHash ref, ref_FileRef ref, ref_ThumbSize ref)) = (Inr p, (c2, d2))"
      by (simp add: store_put_def)
    show ?thesis
      by (rule again) (use store.put_good [OF good put] store.put_get [OF good put] q(2) b1 in \<open>simp_all add: media_good_def\<close>)
  qed
qed

lemma sample_fetch:
  "\<exists>p b1. FetchMedia sample_telegram (\<lambda>_. sample_io) (encodeMediaID [] sample_ref) sample_bridge
     = (Some (Inr (p, ''image/jpeg'')), b1) \<and> bg_rpcs b1 =
       [RpcDownload (ref_ID sample_ref) (ref_AccessHash sample_ref) (ref_FileRef sample_ref) (ref_ThumbSize sample_ref)]"
proof -
  let ?id = "encodeMediaID [] sample_ref"
  have get: "cache_Get (bg_mediaCache sample_bridge) ?id = (None, empty_cache ''m'' 100)"
    by (simp add: cache_Get_def sample_bridge_def) (simp add: empty_cache_def)
  have dec: "decodeMediaID (bg_mediaKey sample_bridge) ?id = Some (Inr sample_ref)"
    by (simp add: sample_bridge_def decode_sample)
  have same: "sample_bridge\<lparr>bg_mediaCache := empty_cache ''m'' 100\<rparr> = sample_bridge" by (simp add: sample_bridge_def)
  have kind: "ref_Kind sample_ref = mediaKindPhoto" by (simp add: sample_ref_def mediaKindPhoto_def)
  obtain p c d where put: "cache_Put (bg_mediaCache sample_bridge) (bg_disk sample_bridge) ?id ''image/jpeg'' sample_io = (Inr p, c, d)"
  proof -
    have "bg_mediaCache sample_bridge = empty_cache ''m'' 100" "bg_disk sample_bridge = no_files"
      by (simp_all add: sample_bridge_def no_files_def)
    then show ?thesis using that sample_Put [of "''m''" 100 ?id "''image/jpeg''"] by auto
  qed
  have rpcs: "bg_rpcs sample_bridge = []" "io_open sample_io = None" by (simp_all add: sample_bridge_def sample_io_def)
  have "waitReady sample_telegram (sample_bridge\<lparr>bg_mediaCache := empty_cache ''m'' 100\<rparr>) = (None, sample_bridge)"
    unfolding same by (rule sample_wait)
  from FetchMedia_miss [where download = "\<lambda>_. sample_io", OF get dec this kind put] rpcs show ?thesis by simp
qed

lemma sample_bridge_media: "media_good sample_bridge"
proof -
  have "cache_good (empty_cache ''m'' 100, no_files)" by (rule empty_cache_good)
  then show ?thesis by (simp add: media_good_def sample_bridge_def no_files_def)
qed

theorem fetch_media_authentic_witness:
  "\<exists>p b1 ref. FetchMedia sample_telegram (\<lambda>_. sample_io) (encodeMediaID [] sample_ref) sample_bridge = (Some (Inr p), b1)
     \<and> decodeMediaID [] (encodeMediaID [] sample_ref) = Some (Inr ref)
     \<and> bg_rpcs b1 = [] @ [RpcDownload (ref_ID ref) (ref_AccessHash ref) (ref_FileRef ref) (ref_ThumbSize ref)]"
proof -
  obtain p b1 where f: "FetchMedia sample_telegram (\<lambda>_. sample_io) (encodeMediaID [] sample_ref) sample_bridge
     = (Some (Inr p), b1)" and n: "bg_rpcs b1 \<noteq> []"
    using sample_fetch by (metis not_Cons_self2)
  have k: "bg_mediaKey sample_bridge = []" "bg_rpcs sample_bridge = []" by (simp_all add: sample_bridge_def)
  from fetch_media_authentic [OF f, unfolded k] n obtain ref where
    "decodeMediaID [] (encodeMediaID [] sample_ref) = Some (Inr ref)"
    "bg_rpcs b1 = [] @ [RpcDownload (ref_ID ref) (ref_AccessHash ref) (ref_FileRef ref) (ref_ThumbSize ref)]"
    by blast
  with f show ?thesis by (intro exI conjI)
qed

theorem fetch_media_cached_witness:
  "\<exists>p b1 b2. FetchMedia sample_telegram (\<lambda>_. sample_io) (encodeMediaID [] sample_ref) sample_bridge = (Some (Inr p), b1)
     \<and> FetchMedia sample_telegram (\<lambda>_. sample_io\<lparr>io_open := Some ErrCanceled\<rparr>) (encodeMediaID [] sample_ref) b1
       = (Some (Inr p), b2)"
proof -
  obtain p b1 where f: "FetchMedia sample_telegram (\<lambda>_. sample_io) (encodeMediaID [] sample_ref) sample_bridge
     = (Some (Inr (p, ''image/jpeg'')), b1)" using sample_fetch by blast
  from fetch_media_cached [OF sample_bridge_media f, of sample_telegram "\<lambda>_. sample_io\<lparr>io_open := Some ErrCanceled\<rparr>"]
  obtain b2 where "FetchMedia sample_telegram (\<lambda>_. sample_io\<lparr>io_open := Some ErrCanceled\<rparr>) (encodeMediaID [] sample_ref) b1
       = (Some (Inr (p, ''image/jpeg'')), b2)" by blast
  with f show ?thesis by (intro exI conjI)
qed

end
