(* ===== verification/Updates.thy ===== *)
theory Updates
  imports Chats
begin

text \<open>
  The update handlers of \<open>internal/bridge/bridge.go\<close>: \<open>handleNewMessage\<close>, \<open>handleNewChannelMessage\<close>,
  \<open>dispatchMessage\<close> and \<open>chatAllowed\<close>. A message of an update becomes an \<open>Event\<close> for the broker.
\<close>

definition chatAllowed :: "Bridge \<Rightarrow> i64 \<Rightarrow> bool" where
  "chatAllowed b chatID =
     (case cfg_Clients (bg_cfg b) of
        [] \<Rightarrow> True
      | cl # _ \<Rightarrow>
          (let allow = cl_AllowedChats cl
           in if allow = [] then True else slice_contains allow chatID))"

definition message_event :: "bytes \<Rightarrow> tgEntities \<Rightarrow> tgMessage \<Rightarrow> Event" where
  "message_event key e msg =
     (let ev = \<lparr>ev_Type = ''message'', ev_ChatID = peerToChatID (msg_PeerID msg), ev_MsgID = msg_ID msg,
                ev_From = '''', ev_FromID = 0, ev_Text = msg_Message msg, ev_Media = None,
                ev_Ts = msg_Date msg, ev_ReplyTo = 0\<rparr>;
          ev1 = (case msg_FromID msg of
                   Some fromID \<Rightarrow> ev\<lparr>ev_FromID := peerToChatID fromID, ev_From := resolveName e fromID\<rparr>
                 | None \<Rightarrow> ev\<lparr>ev_From := resolveName e (msg_PeerID msg)\<rparr>)
      in ev1\<lparr>ev_ReplyTo := reply_to (msg_ReplyTo msg),
             ev_Media := map_option (summarizeMedia key) (msg_Media msg)\<rparr>)"

definition dispatchMessage :: "tgEntities \<Rightarrow> MessageClass \<Rightarrow> Bridge \<Rightarrow> chan_panic + Bridge" where
  "dispatchMessage e m b =
     (case m of
        OtherMessage \<Rightarrow> Inr b
      | TheMessage msg \<Rightarrow>
          (if msg_Out msg then Inr b
           else if \<not> chatAllowed b (peerToChatID (msg_PeerID msg)) then Inr b
           else (case Publish (message_event (bg_mediaKey b) e msg) (bg_events b) of
                   Inl p \<Rightarrow> Inl p
                 | Inr ev \<Rightarrow> Inr (b\<lparr>bg_events := ev\<rparr>))))"

definition handleNewMessage :: "tgEntities \<Rightarrow> MessageClass \<Rightarrow> Bridge \<Rightarrow> chan_panic + Bridge" where
  "handleNewMessage e m b = dispatchMessage e m b"

definition handleNewChannelMessage :: "tgEntities \<Rightarrow> MessageClass \<Rightarrow> Bridge \<Rightarrow> chan_panic + Bridge" where
  "handleNewChannelMessage e m b = dispatchMessage e m b"

text \<open>The dispatcher with the two handlers \<open>Run\<close> registers: it drops the updates of every other kind.\<close>

definition on_update :: "tgEntities \<Rightarrow> UpdateClass \<Rightarrow> Bridge \<Rightarrow> chan_panic + Bridge" where
  "on_update e u b =
     (case u of
        UpdateNewMessage m \<Rightarrow> handleNewMessage e m b
      | UpdateNewChannelMessage m \<Rightarrow> handleNewChannelMessage e m b
      | _ \<Rightarrow> Inr b)"

text \<open>The message that reaches \<open>dispatchMessage\<close>; a service message stands for none.\<close>

definition update_message :: "UpdateClass \<Rightarrow> MessageClass" where
  "update_message u = (case u of UpdateNewMessage m \<Rightarrow> m | UpdateNewChannelMessage m \<Rightarrow> m | _ \<Rightarrow> OtherMessage)"

lemma on_update_dispatch: "on_update e u b = dispatchMessage e (update_message u) b"
  by (simp add: on_update_def update_message_def handleNewMessage_def handleNewChannelMessage_def dispatchMessage_def
      split: UpdateClass.split)

section \<open>What is published\<close>

text \<open>The events one message gives rise to: none or one.\<close>

definition events_of :: "Bridge \<Rightarrow> tgEntities \<Rightarrow> MessageClass \<Rightarrow> Event list" where
  "events_of b e m =
     (case m of
        TheMessage msg \<Rightarrow>
          if \<not> msg_Out msg \<and> chatAllowed b (peerToChatID (msg_PeerID msg))
          then [message_event (bg_mediaKey b) e msg] else []
      | OtherMessage \<Rightarrow> [])"

lemma message_event_fields [simp]:
  "ev_ChatID (message_event key e msg) = peerToChatID (msg_PeerID msg)"
  "ev_MsgID (message_event key e msg) = msg_ID msg" "ev_Text (message_event key e msg) = msg_Message msg"
  "ev_Type (message_event key e msg) = ''message''" "ev_Ts (message_event key e msg) = msg_Date msg"
  by (auto simp: message_event_def Let_def split: option.splits)

text \<open>A sequence of updates, handled in order by the update loop.\<close>

fun dispatch_all :: "(tgEntities \<times> MessageClass) list \<Rightarrow> Bridge \<Rightarrow> chan_panic + Bridge" where
  "dispatch_all [] b = Inr b"
| "dispatch_all ((e, m) # us) b =
     (case dispatchMessage e m b of Inl p \<Rightarrow> Inl p | Inr b' \<Rightarrow> dispatch_all us b')"

lemma events_of_frame:
  "bg_cfg b' = bg_cfg b \<Longrightarrow> bg_mediaKey b' = bg_mediaKey b \<Longrightarrow> events_of b' e m = events_of b e m"
  by (auto simp: events_of_def chatAllowed_def split: MessageClass.splits)

text \<open>The bridge's broker as a reachable state of the broker system.\<close>

definition events_reached :: "Bridge \<Rightarrow> Event broker_sys \<Rightarrow> bool" where
  "events_reached b s \<longleftrightarrow> broker_reach 64 s \<and> bs_calls s < 2 ^ 64 \<and> bs_broker s = bg_events b"

text \<open>The broker after a list of events, each offered to every subscriber.\<close>

definition offered_all :: "'e list \<Rightarrow> 'e broker \<Rightarrow> 'e broker" where
  "offered_all es br = br\<lparr>br_chans := (\<lambda>ref. if ref \<in> snd ` set (br_subs br)
     then map_option (\<lambda>c. foldl (\<lambda>c e. offered e c) c es) (br_chans br ref) else br_chans br ref)\<rparr>"

lemma offered_all_simps [simp]:
  "br_subs (offered_all es br) = br_subs br" "br_nextID (offered_all es br) = br_nextID br"
  "offered_all [] br = br" "offered_all (es @ fs) br = offered_all fs (offered_all es br)"
  by (simp_all add: offered_all_def option.map_ident option.map_comp comp_def fun_eq_iff cong: if_cong)

lemma foldl_offered:
  "ch_buf (foldl (\<lambda>c e. offered e c) c es) = ch_buf c @ take (ch_cap c - length (ch_buf c)) es"
proof (induction es arbitrary: c)
  case (Cons e es)
  then show ?case
    by (auto simp: take_Cons')
qed simp

lemma buffered_offered_all:
  assumes inv: "broker_inv m s" and ref: "ref \<in> snd ` set (br_subs (bs_broker s))"
  shows "buffered (offered_all es (bs_broker s)) ref =
    buffered (bs_broker s) ref @ take (m - length (buffered (bs_broker s) ref)) es"
proof -
  obtain sid where "(sid, ref) \<in> set (br_subs (bs_broker s))" using ref by force
  then have "sub_ok s (sid, ref)" using inv by (simp add: broker_inv_def all_subs_def)
  then obtain c where c: "br_chans (bs_broker s) ref = Some c" by (auto simp: sub_ok_def open_chan_def)
  have "chans_ok m (bs_broker s)" using inv by (simp add: broker_inv_def)
  then have "ch_cap c = m" using chans_okD [OF _ c] by blast
  with ref show ?thesis by (simp add: buffered_def offered_all_def c foldl_offered)
qed

lemma dispatch_step:
  assumes "events_reached b s"
  shows "\<exists>b' s'. dispatchMessage e m b = Inr b' \<and> events_reached b' s'
    \<and> bs_published s' = bs_published s @ events_of b e m \<and> bs_received s' = bs_received s
    \<and> b' = b\<lparr>bg_events := offered_all (events_of b e m) (bg_events b)\<rparr>"
proof -
  have s: "broker_reach 64 s" "bs_calls s < 2 ^ 64" "bs_broker s = bg_events b"
    using assms by (simp_all add: events_reached_def)
  show ?thesis
  proof (cases "events_of b e m")
    case Nil
    then have "dispatchMessage e m b = Inr b"
      by (auto simp: events_of_def dispatchMessage_def split: MessageClass.splits if_splits)
    with assms Nil show ?thesis by (intro exI [of _ b] exI [of _ s]) simp
  next
    case (Cons ev l)
    then obtain msg where m: "m = TheMessage msg" "\<not> msg_Out msg" "chatAllowed b (peerToChatID (msg_PeerID msg))"
      "events_of b e m = [message_event (bg_mediaKey b) e msg]"
      by (auto simp: events_of_def split: MessageClass.splits if_splits)
    let ?ev = "message_event (bg_mediaKey b) e msg"
    have pub: "Publish ?ev (bs_broker s) = Inr (offered_all [?ev] (bs_broker s))"
      using inv_Publish [OF reach_inv [OF s(1,2)], of ?ev] by (simp add: offered_all_def cong: if_cong)
    let ?br = "offered_all [?ev] (bs_broker s)"
    let ?s' = "s\<lparr>bs_broker := ?br, bs_published := bs_published s @ [?ev]\<rparr>"
    have "broker_reach 64 ?s'" by (rule broker_reach.step [OF s(1) broker_step.publish [OF pub]])
    then have "events_reached (b\<lparr>bg_events := ?br\<rparr>) ?s'" using s(2) by (simp add: events_reached_def)
    moreover have "dispatchMessage e m b = Inr (b\<lparr>bg_events := ?br\<rparr>)"
      using m pub s(3) by (simp add: dispatchMessage_def)
    ultimately show ?thesis using m(4) s(3)
      by (intro exI [of _ "b\<lparr>bg_events := ?br\<rparr>"] exI [of _ ?s']) simp
  qed
qed

lemma dispatch_all_steps:
  assumes "events_reached b s"
  shows "\<exists>b' s'. dispatch_all us b = Inr b' \<and> events_reached b' s'
    \<and> bs_published s' = bs_published s @ concat (map (\<lambda>(e, m). events_of b e m) us)
    \<and> bs_received s' = bs_received s
    \<and> b' = b\<lparr>bg_events := offered_all (concat (map (\<lambda>(e, m). events_of b e m) us)) (bg_events b)\<rparr>"
  using assms
proof (induction us arbitrary: b s)
  case Nil
  then show ?case by (intro exI [of _ b] exI [of _ s]) simp
next
  case (Cons u us)
  obtain e m where u: "u = (e, m)" by (cases u)
  from dispatch_step [OF Cons.prems, of e m] obtain b1 s1 where b1: "dispatchMessage e m b = Inr b1"
    "events_reached b1 s1" "bs_published s1 = bs_published s @ events_of b e m"
    "bs_received s1 = bs_received s" "b1 = b\<lparr>bg_events := offered_all (events_of b e m) (bg_events b)\<rparr>" by blast
  have same: "events_of b1 e' m' = events_of b e' m'" for e' m'
    by (rule events_of_frame) (simp_all add: b1(5))
  from Cons.IH [OF b1(2)] obtain b2 s2 where b2: "dispatch_all us b1 = Inr b2" "events_reached b2 s2"
    "bs_published s2 = bs_published s1 @ concat (map (\<lambda>(e, m). events_of b e m) us)"
    "bs_received s2 = bs_received s1"
    "b2 = b1\<lparr>bg_events := offered_all (concat (map (\<lambda>(e, m). events_of b e m) us)) (bg_events b1)\<rparr>"
    by (auto simp: same)
  have "b2 = b\<lparr>bg_events := offered_all (concat (map (\<lambda>(e, m). events_of b e m) (u # us))) (bg_events b)\<rparr>"
    unfolding b2(5) b1(5) by (simp add: u)
  with b1 b2 u show ?case by (intro exI [of _ b2] exI [of _ s2]) simp
qed

section \<open>Properties\<close>

text \<open>
  C22: Handling a sequence of updates never fails and changes nothing of the bridge but the
  buffers of the subscribers. Its events are, in order, one for each incoming message of a chat
  \<open>chatAllowed\<close> admits. Every subscriber's buffer ends with exactly these events as far as it has
  room for them (64 places), and all that a subscriber has received or still holds is a
  subsequence of what was published before followed by these events.
\<close>

theorem dispatch_publishes_allowed:
  assumes "events_reached b s"
  shows "\<exists>b' evs. dispatch_all us b = Inr b'
    \<and> evs = concat (map (\<lambda>(e, m). events_of b e m) us)
    \<and> (\<forall>ev. ev \<in> set evs \<longleftrightarrow> (\<exists>e msg. (e, TheMessage msg) \<in> set us \<and> \<not> msg_Out msg
          \<and> chatAllowed b (peerToChatID (msg_PeerID msg)) \<and> ev = message_event (bg_mediaKey b) e msg))
    \<and> b' = b\<lparr>bg_events := bg_events b'\<rparr> \<and> br_subs (bg_events b') = br_subs (bg_events b)
    \<and> (\<forall>ref \<in> snd ` set (br_subs (bg_events b)). buffered (bg_events b') ref =
          buffered (bg_events b) ref @ take (64 - length (buffered (bg_events b) ref)) evs)
    \<and> (\<forall>ref. ref \<notin> snd ` set (br_subs (bg_events b)) \<longrightarrow>
          br_chans (bg_events b') ref = br_chans (bg_events b) ref)
    \<and> (\<forall>ref. subseq (bs_received s ref @ buffered (bg_events b') ref) (bs_published s @ evs))"
proof -
  let ?evs = "concat (map (\<lambda>(e, m). events_of b e m) us)"
  from dispatch_all_steps [OF assms, of us] obtain b' s' where d: "dispatch_all us b = Inr b'"
    "events_reached b' s'" "bs_published s' = bs_published s @ ?evs"
    "bs_received s' = bs_received s" "b' = b\<lparr>bg_events := offered_all ?evs (bg_events b)\<rparr>" by blast
  have s: "broker_inv 64 s" "bs_broker s = bg_events b"
    using assms reach_inv [of 64 s] by (simp_all add: events_reached_def)
  have s': "broker_reach 64 s'" "bs_calls s' < 2 ^ 64" "bs_broker s' = bg_events b'"
    using d(2) by (simp_all add: events_reached_def)
  have log: "subseq (bs_received s ref @ buffered (bg_events b') ref) (bs_published s @ ?evs)" for ref
    using reach_log [OF s'(1,2)] d(3,4) s'(3) by (simp add: log_inv_def)
  have room: "buffered (bg_events b') ref =
      buffered (bg_events b) ref @ take (64 - length (buffered (bg_events b) ref)) ?evs"
    if "ref \<in> snd ` set (br_subs (bg_events b))" for ref
    using buffered_offered_all [OF s(1), of ref ?evs] that by (simp add: s(2) d(5))
  have "ev \<in> set (events_of b e m) \<longleftrightarrow> (\<exists>msg. m = TheMessage msg \<and> \<not> msg_Out msg
      \<and> chatAllowed b (peerToChatID (msg_PeerID msg)) \<and> ev = message_event (bg_mediaKey b) e msg)" for e m ev
    by (simp add: events_of_def split: MessageClass.splits) blast
  then have evs: "ev \<in> set ?evs \<longleftrightarrow> (\<exists>e msg. (e, TheMessage msg) \<in> set us \<and> \<not> msg_Out msg
      \<and> chatAllowed b (peerToChatID (msg_PeerID msg)) \<and> ev = message_event (bg_mediaKey b) e msg)" for ev
    by (simp add: case_prod_unfold Bex_def) (metis prod.collapse)
  have frame: "b' = b\<lparr>bg_events := bg_events b'\<rparr>" "br_subs (bg_events b') = br_subs (bg_events b)"
    "ref \<notin> snd ` set (br_subs (bg_events b)) \<Longrightarrow> br_chans (bg_events b') ref = br_chans (bg_events b) ref" for ref
    by (simp_all add: d(5) offered_all_def)
  show ?thesis
    by (intro exI [of _ b'] exI [of _ ?evs] conjI allI ballI impI d(1) refl evs frame room log)
qed

definition sample_entities :: tgEntities where
  "sample_entities = \<lparr>ent_Users = Map.empty, ent_Chats = Map.empty, ent_Channels = Map.empty\<rparr>"

definition incoming :: "Peer \<Rightarrow> string \<Rightarrow> MessageClass" where
  "incoming p t = TheMessage \<lparr>msg_ID = 21, msg_PeerID = p, msg_FromID = None, msg_Message = t, msg_Date = 5,
     msg_Out = False, msg_ReplyTo = None, msg_Media = None\<rparr>"

text \<open>The sample bridge with one subscriber, whose channel is empty.\<close>

definition subscribed_broker :: "Event broker" where
  "subscribed_broker = \<lparr>br_nextID = 1, br_subs = [(1, 0)], br_bufSize = 64,
     br_chans = [0 \<mapsto> make_chan 64], br_fresh = 1\<rparr>"

definition subscribed_sys :: "Event broker_sys" where
  "subscribed_sys = \<lparr>bs_broker = subscribed_broker, bs_pending = [], bs_calls = 1, bs_published = [],
     bs_received = (\<lambda>_. [])\<rparr>"

definition subscribed_bridge :: Bridge where
  "subscribed_bridge = sample_bridge\<lparr>bg_events := subscribed_broker\<rparr>"

lemma sample_events: "events_reached subscribed_bridge subscribed_sys"
  using reach_one_sub [of 64, where ?'e = Event]
  by (simp add: events_reached_def subscribed_bridge_def subscribed_sys_def subscribed_broker_def)

definition sample_updates :: "(tgEntities \<times> MessageClass) list" where
  "sample_updates = [(sample_entities, incoming (PeerUser 7) ''hi''), (sample_entities, OtherMessage),
     (sample_entities, incoming (PeerUser 8) ''ho'')]"

lemma sample_update_events:
  "map ev_Text (concat (map (\<lambda>(e, m). events_of subscribed_bridge e m) sample_updates)) = [''hi'']"
  by (simp add: sample_updates_def events_of_def incoming_def chatAllowed_def subscribed_bridge_def
      sample_bridge_def sample_cfg_def)

theorem dispatch_publishes_allowed_witness:
  "\<exists>b'. dispatch_all sample_updates subscribed_bridge = Inr b'
     \<and> map ev_Text (buffered (bg_events b') 0) = [''hi'']"
proof -
  have start: "0 \<in> snd ` set (br_subs (bg_events subscribed_bridge))"
    "buffered (bg_events subscribed_bridge) 0 = []"
    by (simp_all add: subscribed_bridge_def subscribed_broker_def buffered_def make_chan_def)
  from dispatch_publishes_allowed [OF sample_events, of sample_updates] obtain b' where
    b': "dispatch_all sample_updates subscribed_bridge = Inr b'"
    "\<forall>ref \<in> snd ` set (br_subs (bg_events subscribed_bridge)). buffered (bg_events b') ref =
       buffered (bg_events subscribed_bridge) ref @ take (64 - length (buffered (bg_events subscribed_bridge) ref))
         (concat (map (\<lambda>(e, m). events_of subscribed_bridge e m) sample_updates))"
    by blast
  have "map ev_Text (buffered (bg_events b') 0) = take 64 [''hi'']"
    unfolding bspec [OF b'(2) start(1)] start(2) list.size diff_zero append_Nil take_map [symmetric]
      sample_update_events by (rule refl)
  also have "take 64 [''hi''] = [''hi'']" by (rule take_all) simp
  finally have "map ev_Text (buffered (bg_events b') 0) = [''hi'']" .
  then show ?thesis by (intro exI [of _ b'] conjI b'(1))
qed

text \<open>
  Events are filtered by the allow-list of the first configured client for all devices: a
  message in a chat the first client may not see is published to nobody, even when another
  client's own allow-list names the chat.
\<close>

theorem first_client_filters_all:
  assumes "cfg_Clients (bg_cfg b) = cl # cls" and "cl_AllowedChats cl \<noteq> []"
    and "peerToChatID (msg_PeerID msg) \<notin> set (cl_AllowedChats cl)"
  shows "dispatchMessage e (TheMessage msg) b = Inr b"
  using assms by (simp add: dispatchMessage_def chatAllowed_def)

theorem first_client_filters_all_witness:
  "8 \<in> set (cl_AllowedChats (cfg_Clients sample_cfg ! 1))
   \<and> dispatchMessage sample_entities (incoming (PeerUser 8) ''hi'') sample_bridge = Inr sample_bridge"
  unfolding incoming_def
  by (intro conjI first_client_filters_all [of _ "hd (cfg_Clients sample_cfg)" "tl (cfg_Clients sample_cfg)"])
    (simp_all add: sample_bridge_def sample_cfg_def)

end
