(* ===== verification/Rate_Limit.thy ===== *)
theory Rate_Limit
  imports Complex_Main Prelude "HOL-Library.AList" "HOL-Library.Log_Nat" "HOL-Library.Signed_Division"
begin

text \<open>
  The per-address token bucket of \<open>internal/httpapi/ratelimit.go\<close>. Its numbers are float64:
  a value is a rational and every operation of the code rounds its exact result to 53 significant
  bits, ties to even. (The exponents met here are far from the ends of the range of float64.)
  Times are readings of the monotonic clock in nanoseconds.
\<close>

section \<open>Rounding to float64\<close>

definition pow2 :: "int \<Rightarrow> rat" where
  "pow2 e = (if 0 \<le> e then 2 ^ nat e else 1 / 2 ^ nat (- e))"

text \<open>The exponent of a positive rational, from the bit lengths of its numerator and denominator.\<close>

definition f64_expo :: "rat \<Rightarrow> int" where
  "f64_expo x =
     (case quotient_of x of (p, q) \<Rightarrow>
        (let e = int (floorlog 2 (nat p)) - int (floorlog 2 (nat q))
         in if pow2 e \<le> x then e else e - 1))"

definition round_half_even :: "rat \<Rightarrow> int" where
  "round_half_even x =
     (let f = \<lfloor>x\<rfloor>; d = x - of_int f
      in if d < 1 / 2 then f else if 1 / 2 < d then f + 1 else if even f then f else f + 1)"

definition f64_pos :: "rat \<Rightarrow> rat" where
  "f64_pos x = (let s = pow2 (52 - f64_expo x) in of_int (round_half_even (x * s)) / s)"

definition f64 :: "rat \<Rightarrow> rat" where
  "f64 x = (if x = 0 then 0 else if x < 0 then - f64_pos (- x) else f64_pos x)"

lemma pow2_pos [simp]: "0 < pow2 e"
  by (simp add: pow2_def)

lemma pow2_not_zero [simp]: "pow2 e \<noteq> 0"
  using pow2_pos [of e] by (simp del: pow2_pos)

lemma pow2_add: "pow2 (a + b) = pow2 a * pow2 b"
proof -
  have split: "pow2 e = 2 powi e" for e
    by (simp add: pow2_def power_int_def inverse_eq_divide power_one_over)
  show ?thesis by (simp add: split power_int_add)
qed

lemma pow2_simps [simp]: "pow2 0 = 1" "pow2 52 = 2 ^ 52" "pow2 1 = 2"
  by (simp_all add: pow2_def)

lemma floorlog_bounds:
  assumes "0 < n"
  shows "2 ^ (floorlog 2 n - 1) \<le> n" "n < 2 ^ floorlog 2 n" "1 \<le> floorlog 2 n"
  using assms floorlog_bounds [of n 2] by (auto simp: floorlog_def)

lemma f64_expo_le:
  assumes "0 < x"
  shows "pow2 (f64_expo x) \<le> x"
proof -
  obtain p q where pq: "quotient_of x = (p, q)" by (cases "quotient_of x")
  have q: "0 < q" using quotient_of_denom_pos [OF pq] .
  have x: "x = of_int p / of_int q" using quotient_of_div [OF pq] .
  then have p: "0 < p" using assms q by (simp add: zero_less_divide_iff)
  let ?a = "floorlog 2 (nat p)" and ?b = "floorlog 2 (nat q)"
  let ?e = "int ?a - int ?b"
  have a: "2 ^ (?a - 1) \<le> nat p" "1 \<le> ?a" and b: "nat q < 2 ^ ?b"
    using floorlog_bounds [of "nat p"] floorlog_bounds [of "nat q"] p q by simp_all
  have a': "(2 :: rat) ^ (?a - 1) \<le> of_int p"
  proof -
    have "(2 :: rat) ^ (?a - 1) = of_nat (2 ^ (?a - 1))" by simp
    also have "\<dots> \<le> of_nat (nat p)" using a(1) by (rule of_nat_mono)
    finally show ?thesis using p by simp
  qed
  have b': "of_int q \<le> (2 :: rat) ^ ?b"
  proof -
    have "(of_nat (nat q) :: rat) \<le> of_nat (2 ^ ?b)" using b by (intro of_nat_mono) simp
    then show ?thesis using q by simp
  qed
  have "pow2 (?e - 1) * pow2 (int ?b) = pow2 (int (?a - 1))"
    using a(2) by (simp flip: pow2_add add: of_nat_diff)
  then have "pow2 (?e - 1) * 2 ^ ?b = 2 ^ (?a - 1)" by (simp add: pow2_def)
  moreover have "pow2 (?e - 1) * of_int q \<le> pow2 (?e - 1) * 2 ^ ?b"
    using b' by (intro mult_left_mono) (simp_all add: less_imp_le)
  ultimately have "pow2 (?e - 1) * of_int q \<le> 2 ^ (?a - 1)" by simp
  then have "pow2 (?e - 1) * of_int q \<le> of_int p" by (rule order_trans [OF _ a'])
  then have "pow2 (?e - 1) \<le> x" using q by (simp add: x pos_le_divide_eq)
  then show ?thesis by (simp add: f64_expo_def pq Let_def)
qed

lemma round_half_even_near: "\<bar>of_int (round_half_even x) - x\<bar> \<le> 1 / 2"
proof -
  have "of_int \<lfloor>x\<rfloor> \<le> x" "x < of_int \<lfloor>x\<rfloor> + 1" by linarith+
  then show ?thesis
    by (cases "x - of_int \<lfloor>x\<rfloor> < 1 / 2"; cases "1 / 2 < x - of_int \<lfloor>x\<rfloor>"; cases "even \<lfloor>x\<rfloor>")
      (simp_all add: round_half_even_def Let_def abs_le_iff; linarith)+
qed

lemma f64_pos_error:
  assumes "0 < x"
  shows "\<bar>f64_pos x - x\<bar> \<le> x / 2 ^ 53"
proof -
  let ?s = "pow2 (52 - f64_expo x)"
  have "pow2 (f64_expo x) * ?s \<le> x * ?s"
    using f64_expo_le [OF assms] by (intro mult_right_mono) (simp_all add: less_imp_le)
  then have y: "2 ^ 52 \<le> x * ?s" by (simp flip: pow2_add)
  have s: "?s \<noteq> 0" "0 < ?s" by simp_all
  have "f64_pos x - x = (of_int (round_half_even (x * ?s)) - x * ?s) / ?s"
    using s(1) by (simp add: f64_pos_def Let_def diff_divide_distrib)
  then have "\<bar>f64_pos x - x\<bar> = \<bar>of_int (round_half_even (x * ?s)) - x * ?s\<bar> / ?s"
    using s(2) by (simp only: abs_divide abs_of_pos)
  also have "\<dots> \<le> (1 / 2) / ?s"
    by (intro divide_right_mono round_half_even_near) (simp add: less_imp_le)
  also have "\<dots> \<le> x / 2 ^ 53"
    using y by (simp add: field_simps)
  finally show ?thesis .
qed

text \<open>What the limiter relies on of the rounding: a relative error of at most \<open>2^-53\<close>.\<close>

locale float_rounding =
  fixes rnd :: "rat \<Rightarrow> rat"
  assumes error: "\<bar>rnd x - x\<bar> \<le> \<bar>x\<bar> / 2 ^ 53"
begin

lemma rnd_zero [simp]: "rnd 0 = 0"
  using error [of 0] by simp

lemma rnd_upper: "0 \<le> x \<Longrightarrow> rnd x \<le> x * (1 + 1 / 2 ^ 53)"
  using error [of x] by (simp add: algebra_simps abs_if split: if_splits)

lemma rnd_lower: "0 \<le> x \<Longrightarrow> x * (1 - 1 / 2 ^ 53) \<le> rnd x"
  using error [of x] by (simp add: algebra_simps abs_if split: if_splits)

lemma rnd_nonneg: "0 \<le> x \<Longrightarrow> 0 \<le> rnd x"
proof -
  assume "0 \<le> x"
  then have "0 \<le> x * (1 - 1 / 2 ^ 53)" by (intro mult_nonneg_nonneg) simp_all
  then show ?thesis using rnd_lower [OF \<open>0 \<le> x\<close>] by linarith
qed

text \<open>A chain of roundings of products and sums, bounded at once.\<close>

lemma rnd_upper_le: "0 \<le> x \<Longrightarrow> x \<le> y * (1 + 1 / 2 ^ 53) ^ n \<Longrightarrow> rnd x \<le> y * (1 + 1 / 2 ^ 53) ^ Suc n"
proof -
  assume "0 \<le> x" and le: "x \<le> y * (1 + 1 / 2 ^ 53) ^ n"
  have "rnd x \<le> x * (1 + 1 / 2 ^ 53)" by (rule rnd_upper) fact
  also have "\<dots> \<le> (y * (1 + 1 / 2 ^ 53) ^ n) * (1 + 1 / 2 ^ 53)" using le by (intro mult_right_mono) simp_all
  finally show ?thesis by (simp add: mult.assoc mult.commute)
qed

lemma rnd_lower_le: "0 \<le> y \<Longrightarrow> y * (1 - 1 / 2 ^ 53) ^ n \<le> x \<Longrightarrow> y * (1 - 1 / 2 ^ 53) ^ Suc n \<le> rnd x"
proof -
  assume y: "0 \<le> y" and le: "y * (1 - 1 / 2 ^ 53) ^ n \<le> x"
  have "0 \<le> y * (1 - 1 / 2 ^ 53) ^ n" using y by (intro mult_nonneg_nonneg zero_le_power) simp_all
  with le have x: "0 \<le> x" by linarith
  have "(y * (1 - 1 / 2 ^ 53) ^ n) * (1 - 1 / 2 ^ 53) \<le> x * (1 - 1 / 2 ^ 53)" using le by (intro mult_right_mono) simp_all
  also have "\<dots> \<le> rnd x" by (rule rnd_lower [OF x])
  finally show ?thesis by (simp add: mult.assoc mult.commute)
qed

end

interpretation ieee: float_rounding f64
proof unfold_locales
  fix x :: rat
  show "\<bar>f64 x - x\<bar> \<le> \<bar>x\<bar> / 2 ^ 53"
    using f64_pos_error [of x] f64_pos_error [of "- x"] by (auto simp: f64_def abs_if split: if_splits)
qed

section \<open>The limiter\<close>

record bucket =
  bk_tokens :: rat
  bk_last :: int

record rateLimiter =
  rl_rate :: rat
  rl_burst :: rat
  rl_buckets :: "(string \<times> bucket) list"

definition newRateLimiter :: "int \<Rightarrow> int \<Rightarrow> rateLimiter" where
  "newRateLimiter perMinute burst =
     \<lparr>rl_rate = f64 (f64 (of_int perMinute) / 60), rl_burst = f64 (of_int burst), rl_buckets = []\<rparr>"

text \<open>\<open>Duration.Seconds\<close>: whole seconds and the rest, converted apart.\<close>

definition duration_Seconds :: "int \<Rightarrow> rat" where
  "duration_Seconds d =
     f64 (f64 (of_int (d sdiv 1000000000)) + f64 (f64 (of_int (d smod 1000000000)) / 1000000000))"

text \<open>
  The bucket of an address, made if there is none; with more than 10000 buckets the one the range
  loop meets first goes, here the one at an arbitrary position.
\<close>

definition find_bucket :: "nat \<Rightarrow> int \<Rightarrow> string \<Rightarrow> rateLimiter \<Rightarrow> bucket \<times> rateLimiter" where
  "find_bucket i now ip r =
     (case map_of (rl_buckets r) ip of
        Some b \<Rightarrow> (b, r)
      | None \<Rightarrow>
          (let bs = rl_buckets r;
               bs' = (if 10000 < length bs then AList.delete (fst (bs ! (i mod length bs))) bs else bs);
               b = \<lparr>bk_tokens = rl_burst r, bk_last = now\<rparr>
           in (b, r\<lparr>rl_buckets := AList.update ip b bs'\<rparr>)))"

text \<open>
  \<open>b.tokens += elapsed * r.rate\<close>: Go may fuse the product and the sum into one operation that is
  rounded once, and does on arm64; on amd64 the product is rounded first.
\<close>

definition refill :: "bool \<Rightarrow> rateLimiter \<Rightarrow> int \<Rightarrow> bucket \<Rightarrow> rat" where
  "refill fused r now b =
     (let elapsed = duration_Seconds (now - bk_last b);
          x = elapsed * rl_rate r;
          t = f64 (bk_tokens b + (if fused then x else f64 x))
      in if rl_burst r < t then rl_burst r else t)"

text \<open>
  What the source leaves open: the position of the bucket the range loop meets first, and whether
  the refill is fused.
\<close>

type_synonym rl_choice = "nat \<times> bool"

definition allow :: "rl_choice \<Rightarrow> int \<Rightarrow> string \<Rightarrow> rateLimiter \<Rightarrow> bool \<times> rateLimiter" where
  "allow i now ip r =
     (case find_bucket (fst i) now ip r of
        (b, r1) \<Rightarrow>
          (let t = refill (snd i) r1 now b;
               store = (\<lambda>x. r1\<lparr>rl_buckets := AList.update ip \<lparr>bk_tokens = x, bk_last = now\<rparr> (rl_buckets r1)\<rparr>)
           in if t < 1 then (False, store t) else (True, store (f64 (t - 1)))))"

section \<open>One bucket\<close>

text \<open>The limiter of the auth routes: ten tokens a minute, at most five.\<close>

definition authRL :: rateLimiter where
  "authRL = newRateLimiter 10 5"

lemma f64_5: "f64 5 = 5" and f64_10: "f64 10 = 10"
  by code_simp+

lemma auth_rate:
  "1 / 6 * (1 - 1 / 2 ^ 53) \<le> f64 (10 / 60)" "f64 (10 / 60) \<le> 1 / 6 * (1 + 1 / 2 ^ 53)"
  using ieee.rnd_lower [of "10 / 60"] ieee.rnd_upper [of "10 / 60"] by simp_all

lemma authRL_fields:
  "rl_rate authRL = f64 (10 / 60)" "rl_burst authRL = 5" "rl_buckets authRL = []"
  by (simp_all add: authRL_def newRateLimiter_def f64_5 f64_10)

definition bucket_ok :: "bucket \<Rightarrow> bool" where
  "bucket_ok b \<longleftrightarrow> 0 \<le> bk_tokens b \<and> bk_tokens b \<le> 5"

text \<open>The seconds of a duration, exactly.\<close>

definition secs :: "int \<Rightarrow> rat" where
  "secs d = of_int d / 10 ^ 9"

lemma Seconds_bounds:
  assumes "0 \<le> d"
  shows "duration_Seconds d \<le> secs d * (1 + 1 / 2 ^ 53) ^ 3" "secs d * (1 - 1 / 2 ^ 53) ^ 3 \<le> duration_Seconds d"
    "0 \<le> duration_Seconds d"
proof -
  let ?s = "d div 10 ^ 9" and ?n = "d mod 10 ^ 9"
  have div: "d sdiv 1000000000 = ?s" "d smod 1000000000 = ?n"
    using assms by (cases "d = 0"; simp add: signed_divide_int_def signed_modulo_int_def sgn_if)+
  have nn: "(0 :: rat) \<le> of_int ?s" "(0 :: rat) \<le> of_int ?n" using assms by simp_all
  have "d = ?s * 10 ^ 9 + ?n" by simp
  then have "(of_int d :: rat) = of_int ?s * 10 ^ 9 + of_int ?n"
    by (metis of_int_add of_int_mult of_int_numeral of_int_power)
  then have exact: "secs d = of_int ?s + of_int ?n / 10 ^ 9" by (simp add: secs_def add_divide_distrib)
  let ?S = "f64 (of_int ?s)" and ?N = "f64 (f64 (of_int ?n) / 10 ^ 9)"
  have S: "?S \<le> of_int ?s * (1 + 1 / 2 ^ 53) ^ 1" "of_int ?s * (1 - 1 / 2 ^ 53) ^ 1 \<le> ?S"
    using ieee.rnd_upper [OF nn(1)] ieee.rnd_lower [OF nn(1)] by simp_all
  have N1: "f64 (of_int ?n) / 10 ^ 9 \<le> (of_int ?n / 10 ^ 9) * (1 + 1 / 2 ^ 53) ^ 1"
    "(of_int ?n / 10 ^ 9) * (1 - 1 / 2 ^ 53) ^ 1 \<le> f64 (of_int ?n) / 10 ^ 9" "0 \<le> f64 (of_int ?n) / 10 ^ 9"
    using ieee.rnd_upper [OF nn(2)] ieee.rnd_lower [OF nn(2)] ieee.rnd_nonneg [OF nn(2)] by simp_all
  have N: "?N \<le> (of_int ?n / 10 ^ 9) * (1 + 1 / 2 ^ 53) ^ Suc 1"
    "(of_int ?n / 10 ^ 9) * (1 - 1 / 2 ^ 53) ^ Suc 1 \<le> ?N"
    by (rule ieee.rnd_upper_le [OF N1(3,1)], rule ieee.rnd_lower_le [OF _ N1(2)]) (use nn in simp)
  have nonneg: "0 \<le> ?S + ?N" using ieee.rnd_nonneg [OF nn(1)] ieee.rnd_nonneg [OF N1(3)] by simp
  have "of_int ?s * (1 + 1 / 2 ^ 53) ^ 1 \<le> of_int ?s * ((1 + 1 / 2 ^ 53) ^ 2 :: rat)"
    using nn by (intro mult_left_mono power_increasing) simp_all
  with S N have up: "?S + ?N \<le> secs d * (1 + 1 / 2 ^ 53) ^ 2"
    by (simp add: exact distrib_right numeral_2_eq_2)
  have "of_int ?s * ((1 - 1 / 2 ^ 53) ^ 2 :: rat) \<le> of_int ?s * (1 - 1 / 2 ^ 53) ^ 1"
    using nn by (intro mult_left_mono power_decreasing) simp_all
  with S N have lo: "secs d * (1 - 1 / 2 ^ 53) ^ 2 \<le> ?S + ?N"
    by (simp add: exact distrib_right numeral_2_eq_2)
  have eq: "duration_Seconds d = f64 (?S + ?N)" by (simp add: duration_Seconds_def div)
  have "0 \<le> secs d" using assms by (simp add: secs_def)
  from ieee.rnd_upper_le [OF nonneg up] ieee.rnd_lower_le [OF this lo] ieee.rnd_nonneg [OF nonneg]
  show "duration_Seconds d \<le> secs d * (1 + 1 / 2 ^ 53) ^ 3" "secs d * (1 - 1 / 2 ^ 53) ^ 3 \<le> duration_Seconds d"
    "0 \<le> duration_Seconds d"
    by (simp_all only: eq numeral_3_eq_3 numeral_2_eq_2)
qed

lemma refill_bounds:
  assumes r: "rl_rate r = rl_rate authRL" "rl_burst r = 5" and b: "bucket_ok b" and now: "bk_last b \<le> now"
  shows "refill fused r now b \<le> min 5 (bk_tokens b + secs (now - bk_last b) / 6) + 1 / 2 ^ 47"
    "min 5 ((bk_tokens b + secs (now - bk_last b) / 6) * (1 - 1 / 2 ^ 53) ^ 6) \<le> refill fused r now b"
    "0 \<le> refill fused r now b" "refill fused r now b \<le> 5"
proof -
  let ?d = "now - bk_last b" and ?R = "f64 (10 / 60)"
  let ?X = "bk_tokens b + secs ?d / 6" and ?S = "duration_Seconds ?d"
  let ?Q = "if fused then ?S * ?R else f64 (?S * ?R)"
  have d: "0 \<le> ?d" using now by simp
  have E: "0 \<le> secs ?d" using d by (simp add: secs_def)
  have t: "0 \<le> bk_tokens b" "bk_tokens b \<le> 5" using b by (simp_all add: bucket_ok_def)
  have R: "0 \<le> ?R" by (rule ieee.rnd_nonneg) simp
  note S = Seconds_bounds [OF d]
  have P1: "?S * ?R \<le> secs ?d / 6 * (1 + 1 / 2 ^ 53) ^ 4"
  proof -
    have "?S * ?R \<le> (secs ?d * (1 + 1 / 2 ^ 53) ^ 3) * (1 / 6 * (1 + 1 / 2 ^ 53))"
      using S auth_rate(2) R E by (intro mult_mono) simp_all
    then show ?thesis by (simp add: eval_nat_numeral mult_ac)
  qed
  have P2: "secs ?d / 6 * (1 - 1 / 2 ^ 53) ^ 4 \<le> ?S * ?R"
  proof -
    have "(secs ?d * (1 - 1 / 2 ^ 53) ^ 3) * (1 / 6 * (1 - 1 / 2 ^ 53)) \<le> ?S * ?R"
      using S auth_rate(1) R E by (intro mult_mono) simp_all
    then show ?thesis by (simp add: eval_nat_numeral mult_ac)
  qed
  have P: "0 \<le> ?S * ?R" using S(3) R by simp
  have weaker: "secs ?d / 6 * (1 + 1 / 2 ^ 53) ^ 4 \<le> secs ?d / 6 * (1 + 1 / 2 ^ 53) ^ 5"
    "secs ?d / 6 * (1 - 1 / 2 ^ 53) ^ 5 \<le> secs ?d / 6 * (1 - 1 / 2 ^ 53) ^ 4"
    using E by (intro mult_left_mono power_increasing power_decreasing; simp)+
  have "f64 (?S * ?R) \<le> secs ?d / 6 * (1 + 1 / 2 ^ 53) ^ 5" "secs ?d / 6 * (1 - 1 / 2 ^ 53) ^ 5 \<le> f64 (?S * ?R)"
    using ieee.rnd_upper_le [OF P P1] ieee.rnd_lower_le [OF _ P2] E by (simp_all add: eval_nat_numeral)
  with P1 P2 weaker have Q: "?Q \<le> secs ?d / 6 * (1 + 1 / 2 ^ 53) ^ 5" "secs ?d / 6 * (1 - 1 / 2 ^ 53) ^ 5 \<le> ?Q"
    by (auto intro: order_trans)
  have "bk_tokens b * 1 \<le> bk_tokens b * (1 + 1 / 2 ^ 53) ^ 5" using t by (intro mult_left_mono) simp_all
  with Q have U: "bk_tokens b + ?Q \<le> ?X * (1 + 1 / 2 ^ 53) ^ 5" by (simp add: distrib_right)
  have "bk_tokens b * (1 - 1 / 2 ^ 53) ^ 5 \<le> bk_tokens b * 1"
    using t by (intro mult_left_mono power_le_one) simp_all
  with Q have L: "?X * (1 - 1 / 2 ^ 53) ^ 5 \<le> bk_tokens b + ?Q" by (simp add: distrib_right)
  let ?t = "f64 (bk_tokens b + ?Q)"
  have nn: "0 \<le> bk_tokens b + ?Q" using t P ieee.rnd_nonneg [OF P] by simp
  have U': "?t \<le> ?X * (1 + 1 / 2 ^ 53) ^ 6" using ieee.rnd_upper_le [OF nn U] by (simp add: eval_nat_numeral)
  have L': "?X * (1 - 1 / 2 ^ 53) ^ 6 \<le> ?t"
    using ieee.rnd_lower_le [OF _ L] t E by (simp add: eval_nat_numeral)
  have eq: "refill fused r now b = min 5 ?t" using r by (simp add: refill_def Let_def authRL_fields min_def)
  show "refill fused r now b \<le> 5" "0 \<le> refill fused r now b" using ieee.rnd_nonneg [OF nn] by (simp_all add: eq)
  show "min 5 (?X * (1 - 1 / 2 ^ 53) ^ 6) \<le> refill fused r now b" using L' by (simp add: eq min_def)
  show "refill fused r now b \<le> min 5 ?X + 1 / 2 ^ 47"
  proof (cases "5 \<le> ?X")
    case True
    then show ?thesis by (simp add: eq min_def)
  next
    case False
    have "?X * (1 + 1 / 2 ^ 53) ^ 6 \<le> ?X * (1 + 1 / 2 ^ 50)"
      using t E by (intro mult_left_mono) (simp_all add: power_numeral_reduce)
    with False have "?X * (1 + 1 / 2 ^ 53) ^ 6 \<le> ?X + 1 / 2 ^ 47" by (simp add: algebra_simps)
    with U' False show ?thesis by (simp add: eq min_def)
  qed
qed

section \<open>Runs\<close>

text \<open>A sequence of requests: the clock, the address, and the position of a bucket that may have to go.\<close>

type_synonym request_at = "int \<times> string \<times> rl_choice"

fun rl_run :: "request_at list \<Rightarrow> rateLimiter \<Rightarrow> (request_at \<times> bool) list \<times> rateLimiter" where
  "rl_run [] r = ([], r)"
| "rl_run ((now, ip, i) # qs) r =
     (case allow i now ip r of
        (ok, r1) \<Rightarrow> (case rl_run qs r1 of (out, r2) \<Rightarrow> (((now, ip, i), ok) # out, r2)))"

definition allowed_for :: "string \<Rightarrow> (request_at \<times> bool) list \<Rightarrow> nat" where
  "allowed_for ip out = length (filter (\<lambda>(q, ok). fst (snd q) = ip \<and> ok) out)"

definition rl_ok :: "rateLimiter \<Rightarrow> int \<Rightarrow> bool" where
  "rl_ok r now \<longleftrightarrow>
     rl_rate r = rl_rate authRL \<and> rl_burst r = 5 \<and> distinct (map fst (rl_buckets r))
   \<and> length (rl_buckets r) \<le> 10001
   \<and> (\<forall>ip b. map_of (rl_buckets r) ip = Some b \<longrightarrow> bucket_ok b \<and> bk_last b \<le> now)"

text \<open>The tokens an address has at a time, refilled exactly.\<close>

definition level :: "rateLimiter \<Rightarrow> string \<Rightarrow> int \<Rightarrow> rat" where
  "level r ip now =
     (case map_of (rl_buckets r) ip of
        None \<Rightarrow> 5
      | Some b \<Rightarrow> min 5 (bk_tokens b + secs (now - bk_last b) / 6))"

lemma rl_ok_later: "rl_ok r now \<Longrightarrow> now \<le> now' \<Longrightarrow> rl_ok r now'"
  unfolding rl_ok_def by (meson order_trans)

lemma rl_ok_authRL: "rl_ok authRL now"
  by (simp add: rl_ok_def authRL_fields)

lemma map_of_delete: "map_of (AList.delete k l) k' = (if k' = k then None else map_of l k')"
  by (simp add: AList.delete_conv fun_upd_def)

lemma length_delete_mem: "distinct (map fst l) \<Longrightarrow> k \<in> fst ` set l \<Longrightarrow> length (AList.delete k l) = length l - 1"
proof (induction l)
  case (Cons p l)
  show ?case
  proof (cases "fst p = k")
    case True
    then have "k \<notin> fst ` set l" using Cons.prems(1) by auto
    with True show ?thesis by (cases p) (simp add: AList.delete_idem)
  next
    case False
    with Cons have "k \<in> fst ` set l" "length (AList.delete k l) = length l - 1" by auto
    moreover from this(1) have "l \<noteq> []" by auto
    ultimately show ?thesis using False by (cases p; cases l) auto
  qed
qed simp

lemma length_update: "length (AList.update k v l) = (if k \<in> fst ` set l then length l else Suc (length l))"
  by (induction l) auto

text \<open>One request: the buckets of other addresses stay, or one of them goes when there are too many.\<close>

lemma find_bucket_ok:
  assumes ok: "rl_ok r now" and f: "find_bucket i now ip r = (b, r1)"
  shows "rl_ok r1 now" "map_of (rl_buckets r1) ip = Some b" "bucket_ok b" "bk_last b \<le> now"
    "min 5 (bk_tokens b + secs (now - bk_last b) / 6) \<le> level r ip now"
    "\<And>ip'. ip' \<noteq> ip \<Longrightarrow> map_of (rl_buckets r1) ip' = None \<or> map_of (rl_buckets r1) ip' = map_of (rl_buckets r) ip'"
    "\<And>ip'. ip' \<noteq> ip \<Longrightarrow> length (rl_buckets r) \<le> 10000 \<or> map_of (rl_buckets r) ip \<noteq> None
       \<Longrightarrow> map_of (rl_buckets r1) ip' = map_of (rl_buckets r) ip'"
    "fst ` set (rl_buckets r1) \<subseteq> insert ip (fst ` set (rl_buckets r))"
proof -
  have r: "rl_rate r = rl_rate authRL" "rl_burst r = 5" "distinct (map fst (rl_buckets r))"
    "length (rl_buckets r) \<le> 10001"
    and bk: "\<And>ip b. map_of (rl_buckets r) ip = Some b \<Longrightarrow> bucket_ok b \<and> bk_last b \<le> now"
    using ok by (auto simp: rl_ok_def)
  let ?g = "rl_ok r1 now \<and> map_of (rl_buckets r1) ip = Some b \<and> bucket_ok b \<and> bk_last b \<le> now
    \<and> min 5 (bk_tokens b + secs (now - bk_last b) / 6) \<le> level r ip now
    \<and> (\<forall>ip'. ip' \<noteq> ip \<longrightarrow> (map_of (rl_buckets r1) ip' = None \<or> map_of (rl_buckets r1) ip' = map_of (rl_buckets r) ip')
         \<and> (length (rl_buckets r) \<le> 10000 \<or> map_of (rl_buckets r) ip \<noteq> None
              \<longrightarrow> map_of (rl_buckets r1) ip' = map_of (rl_buckets r) ip'))
    \<and> fst ` set (rl_buckets r1) \<subseteq> insert ip (fst ` set (rl_buckets r))"
  have ?g
  proof (cases "map_of (rl_buckets r) ip")
    case (Some x)
    with f have "b = x" "r1 = r" by (simp_all add: find_bucket_def)
    with Some ok bk show ?thesis by (auto simp: level_def)
  next
    case None
    let ?bs = "rl_buckets r" and ?v = "fst (rl_buckets r ! (i mod length (rl_buckets r)))"
    let ?bs' = "if 10000 < length ?bs then AList.delete ?v ?bs else ?bs"
    let ?b = "\<lparr>bk_tokens = 5, bk_last = now\<rparr>"
    have "find_bucket i now ip r = (?b, r\<lparr>rl_buckets := AList.update ip ?b ?bs'\<rparr>)"
      using None r(2) by (simp add: find_bucket_def Let_def)
    with f have b: "b = ?b" and r1: "r1 = r\<lparr>rl_buckets := AList.update ip ?b ?bs'\<rparr>" by auto
    have new: "ip \<notin> fst ` set ?bs" using None by (simp add: map_of_eq_None_iff)
    have len: "length ?bs' \<le> 10000"
    proof (cases "10000 < length ?bs")
      case True
      then have "?v \<in> fst ` set ?bs" by (intro imageI nth_mem mod_less_divisor) linarith
      then show ?thesis using length_delete_mem [OF r(3)] r(4) True by simp
    qed simp
    have sub: "set ?bs' \<subseteq> set ?bs" by (auto simp: AList.delete_eq)
    then have new': "ip \<notin> fst ` set ?bs'" using new by blast
    have m: "map_of ?bs' ip' = None \<or> map_of ?bs' ip' = map_of ?bs ip'" for ip'
      by (simp add: map_of_delete)
    have upd: "map_of (rl_buckets r1) ip' = (if ip' = ip then Some ?b else map_of ?bs' ip')" for ip'
      by (simp add: r1 AList.update_conv')
    have "distinct (map fst ?bs')" using r(3) AList.distinct_delete [of ?bs ?v] by simp
    then have dis: "distinct (map fst (rl_buckets r1))" by (simp add: r1 AList.distinct_update)
    have "bucket_ok b' \<and> bk_last b' \<le> now" if "map_of (rl_buckets r1) ip' = Some b'" for ip' b'
    proof (cases "ip' = ip")
      case True
      then have "b' = ?b" using that upd by simp
      then show ?thesis by (simp add: bucket_ok_def)
    next
      case False
      then have "map_of ?bs ip' = Some b'" using that upd m [of ip'] by simp
      then show ?thesis by (rule bk)
    qed
    then have "rl_ok r1 now" using r dis len new' by (simp add: rl_ok_def) (simp add: r1 length_update)
    moreover have "level r ip now = 5" using None by (simp add: level_def)
    moreover have "fst ` set (rl_buckets r1) \<subseteq> insert ip (fst ` set ?bs)"
      using sub by (auto simp: r1 AList.dom_update)
    ultimately show ?thesis using upd m None b by (auto simp: bucket_ok_def)
  qed
  then show "rl_ok r1 now" "map_of (rl_buckets r1) ip = Some b" "bucket_ok b" "bk_last b \<le> now"
    "min 5 (bk_tokens b + secs (now - bk_last b) / 6) \<le> level r ip now"
    "\<And>ip'. ip' \<noteq> ip \<Longrightarrow> map_of (rl_buckets r1) ip' = None \<or> map_of (rl_buckets r1) ip' = map_of (rl_buckets r) ip'"
    "\<And>ip'. ip' \<noteq> ip \<Longrightarrow> length (rl_buckets r) \<le> 10000 \<or> map_of (rl_buckets r) ip \<noteq> None
       \<Longrightarrow> map_of (rl_buckets r1) ip' = map_of (rl_buckets r) ip'"
    "fst ` set (rl_buckets r1) \<subseteq> insert ip (fst ` set (rl_buckets r))"
    by blast+
qed

lemma secs_zero [simp]: "secs 0 = 0"
  by (simp add: secs_def)

lemma secs_add: "secs (a + b) = secs a + secs b"
  by (simp add: secs_def add_divide_distrib)

lemma secs_mono: "a \<le> b \<Longrightarrow> secs a \<le> secs b"
  by (simp add: secs_def divide_right_mono)

lemma allow_step:
  assumes ok: "rl_ok r now" and a: "allow i now ip r = (yes, r')"
  shows "rl_ok r' now" "level r' ip now + (if yes then 1 else 0) \<le> level r ip now + 1 / 2 ^ 46"
    "\<And>ip'. ip' \<noteq> ip \<Longrightarrow> length (rl_buckets r) \<le> 10000 \<or> map_of (rl_buckets r) ip \<noteq> None
       \<Longrightarrow> level r' ip' now = level r ip' now"
    "fst ` set (rl_buckets r') \<subseteq> insert ip (fst ` set (rl_buckets r))"
    "\<exists>b. map_of (rl_buckets r') ip = Some b \<and> bk_last b = now"
proof -
  obtain b r1 where f: "find_bucket (fst i) now ip r = (b, r1)" by (cases "find_bucket (fst i) now ip r")
  note fb = find_bucket_ok [OF ok f]
  let ?t = "refill (snd i) r1 now b"
  let ?x = "if ?t < 1 then ?t else f64 (?t - 1)"
  have r1: "rl_rate r1 = rl_rate authRL" "rl_burst r1 = 5" "distinct (map fst (rl_buckets r1))" "length (rl_buckets r1) \<le> 10001"
    using fb(1) by (simp_all add: rl_ok_def)
  note t = refill_bounds [where fused = "snd i", OF r1(1,2) fb(3,4)]
  have yes: "yes \<longleftrightarrow> \<not> ?t < 1"
    and r': "r' = r1\<lparr>rl_buckets := AList.update ip \<lparr>bk_tokens = ?x, bk_last = now\<rparr> (rl_buckets r1)\<rparr>"
    using a f by (auto simp: allow_def Let_def split: if_splits)
  have "0 \<le> ?x \<and> ?x + (if yes then 1 else 0) \<le> ?t + 1 / 2 ^ 47 \<and> ?x \<le> 5"
  proof (cases "?t < 1")
    case True
    then show ?thesis using t(3) yes by simp
  next
    case False
    then have p: "0 \<le> ?t - 1" by simp
    have "f64 (?t - 1) \<le> (?t - 1) * (1 + 1 / 2 ^ 53)" by (rule ieee.rnd_upper [OF p])
    also have "\<dots> = (?t - 1) + (?t - 1) / 2 ^ 53"
      by (simp only: distrib_left mult_1_right times_divide_eq_right)
    also have "(?t - 1) / 2 ^ 53 \<le> 4 / 2 ^ 53" using t(4) by (intro divide_right_mono) simp_all
    finally have "f64 (?t - 1) \<le> ?t - 1 + 4 / 2 ^ 53" by simp
    then show ?thesis using False yes ieee.rnd_nonneg [OF p] t(4) by simp
  qed
  then have x: "0 \<le> ?x" "?x \<le> 5" "?x + (if yes then 1 else 0) \<le> ?t + 1 / 2 ^ 47" by simp_all
  have m: "map_of (rl_buckets r') ip' = (if ip' = ip then Some \<lparr>bk_tokens = ?x, bk_last = now\<rparr> else map_of (rl_buckets r1) ip')" for ip'
    by (simp add: r' AList.update_conv')
  have "ip \<in> fst ` set (rl_buckets r1)" using fb(2) by (force dest: map_of_SomeD)
  then have len: "length (rl_buckets r') \<le> 10001" using r1(4) by (simp add: r' length_update)
  have "distinct (map fst (rl_buckets r'))" using r1(3) by (simp add: r' AList.distinct_update)
  moreover have "bucket_ok b' \<and> bk_last b' \<le> now" if "map_of (rl_buckets r') ip' = Some b'" for ip' b'
    using that fb(1) x unfolding m by (auto simp: rl_ok_def bucket_ok_def split: if_splits)
  ultimately show "rl_ok r' now" using r1 len by (simp add: rl_ok_def) (simp add: r')
  have "level r' ip now = ?x" using x by (simp add: level_def m)
  moreover have "?t \<le> level r ip now + 1 / 2 ^ 47" using t(1) fb(5) by linarith
  ultimately show "level r' ip now + (if yes then 1 else 0) \<le> level r ip now + 1 / 2 ^ 46" using x(3) by simp
  show "level r' ip' now = level r ip' now"
    if "ip' \<noteq> ip" "length (rl_buckets r) \<le> 10000 \<or> map_of (rl_buckets r) ip \<noteq> None" for ip'
    using that fb(7) [OF that] by (simp add: level_def m)
  show "fst ` set (rl_buckets r') \<subseteq> insert ip (fst ` set (rl_buckets r))"
    using fb(8) by (auto simp: r' AList.dom_update)
  show "\<exists>b. map_of (rl_buckets r') ip = Some b \<and> bk_last b = now" by (simp add: m)
qed

lemma level_later:
  assumes "rl_ok r t" and "t \<le> t'"
  shows "level r ip t' \<le> level r ip t + secs (t' - t) / 6"
proof (cases "map_of (rl_buckets r) ip")
  case None
  then show ?thesis using secs_mono [of 0 "t' - t"] assms(2) by (simp add: level_def)
next
  case (Some b)
  have "secs (t' - bk_last b) = secs (t - bk_last b) + secs (t' - t)" by (simp flip: secs_add)
  moreover have "0 \<le> secs (t' - t)" using secs_mono [of 0 "t' - t"] assms(2) by simp
  ultimately show ?thesis using Some by (simp add: level_def add_divide_distrib min_def)
qed

lemma level_range: "rl_ok r t \<Longrightarrow> 0 \<le> level r ip t \<and> level r ip t \<le> 5"
  using secs_mono [of 0 "t - _"]
  by (auto simp: level_def rl_ok_def bucket_ok_def split: option.splits intro!: add_nonneg_nonneg)

definition times_ok :: "int \<Rightarrow> request_at list \<Rightarrow> bool" where
  "times_ok t0 qs \<longleftrightarrow> sorted (t0 # map fst qs)"

lemma rl_run_bound:
  assumes "rl_ok r t" and "times_ok t qs" and "\<forall>q \<in> set qs. fst q \<le> t1" and "t \<le> t1"
    and "card (fst ` set (rl_buckets r) \<union> (fst \<circ> snd) ` set qs) \<le> 10001"
    and "rl_run qs r = (out, r')"
  shows "of_nat (allowed_for ip out) \<le> level r ip t + secs (t1 - t) / 6 + of_nat (length qs) / 2 ^ 46"
  using assms
proof (induction qs arbitrary: r t out)
  case Nil
  then show ?case using level_range [of r t ip] secs_mono [of 0 "t1 - t"] by (simp add: allowed_for_def)
next
  case (Cons q qs)
  obtain now ip0 i where q: "q = (now, ip0, i)" by (cases q)
  obtain yes r1 where a: "allow i now ip0 r = (yes, r1)" by (cases "allow i now ip0 r")
  obtain out1 where o: "rl_run qs r1 = (out1, r')" "out = ((now, ip0, i), yes) # out1"
    using Cons.prems(6) a q by (auto split: prod.splits)
  have now: "t \<le> now" "now \<le> t1" "times_ok now qs" using Cons.prems(2,3) q by (auto simp: times_ok_def)
  have ok: "rl_ok r now" by (rule rl_ok_later [OF Cons.prems(1) now(1)])
  note st = allow_step [OF ok a]
  let ?K = "fst ` set (rl_buckets r) \<union> (fst \<circ> snd) ` set (q # qs)"
  have sub: "fst ` set (rl_buckets r1) \<union> (fst \<circ> snd) ` set qs \<subseteq> ?K" using st(4) q by auto
  have "card (fst ` set (rl_buckets r1) \<union> (fst \<circ> snd) ` set qs) \<le> card ?K" by (rule card_mono [OF _ sub]) simp
  with Cons.prems(5) have card: "card (fst ` set (rl_buckets r1) \<union> (fst \<circ> snd) ` set qs) \<le> 10001" by linarith
  have "\<forall>x \<in> set qs. fst x \<le> t1" using Cons.prems(3) by simp
  note IH = Cons.IH [OF st(1) now(3) this now(2) card o(1)]
  have room: "length (rl_buckets r) \<le> 10000 \<or> map_of (rl_buckets r) ip0 \<noteq> None"
  proof (rule ccontr)
    assume full: "\<not> ?thesis"
    then have "ip0 \<notin> fst ` set (rl_buckets r)" by (simp add: map_of_eq_None_iff)
    moreover have "card (fst ` set (rl_buckets r)) = length (rl_buckets r)"
      using ok distinct_card [of "map fst (rl_buckets r)"] by (simp add: rl_ok_def)
    ultimately have "10001 < card (insert ip0 (fst ` set (rl_buckets r)))" using full by simp
    also have "\<dots> \<le> card ?K" by (rule card_mono) (auto simp: q)
    finally show False using Cons.prems(5) by simp
  qed
  have "level r1 ip now + of_nat (if ip0 = ip \<and> yes then 1 else 0) \<le> level r ip now + 1 / 2 ^ 46"
  proof (cases "ip0 = ip")
    case True
    then show ?thesis using st(2) by (cases yes) simp_all
  next
    case False
    then show ?thesis using st(3) [OF _ room, of ip] by simp
  qed
  moreover have "level r ip now \<le> level r ip t + secs (now - t) / 6" by (rule level_later [OF Cons.prems(1) now(1)])
  moreover have "secs (t1 - t) = secs (t1 - now) + secs (now - t)" by (simp flip: secs_add)
  moreover have "allowed_for ip out = allowed_for ip out1 + (if ip0 = ip \<and> yes then 1 else 0)"
    by (simp add: o(2) allowed_for_def)
  moreover have "of_nat (length (q # qs)) / 2 ^ 46 = of_nat (length qs) / 2 ^ 46 + (1 / 2 ^ 46 :: rat)"
    by (simp add: add_divide_distrib)
  ultimately show ?case using IH by (simp add: add_divide_distrib)
qed

lemma rl_run_ok: "rl_ok r t \<Longrightarrow> times_ok t qs \<Longrightarrow> t \<le> t1 \<Longrightarrow> \<forall>q \<in> set qs. fst q \<le> t1 \<Longrightarrow> rl_run qs r = (out, r') \<Longrightarrow>
    rl_ok r' t1 \<and> fst ` set (rl_buckets r') \<subseteq> fst ` set (rl_buckets r) \<union> (fst \<circ> snd) ` set qs"
proof (induction qs arbitrary: r t out)
  case Nil
  then show ?case using rl_ok_later by auto
next
  case (Cons q qs)
  obtain now ip0 i where q: "q = (now, ip0, i)" by (cases q)
  obtain yes r1 where a: "allow i now ip0 r = (yes, r1)" by (cases "allow i now ip0 r")
  obtain out1 where o: "rl_run qs r1 = (out1, r')" using Cons.prems(5) a q by (auto split: prod.splits)
  have now: "t \<le> now" "now \<le> t1" "times_ok now qs" using Cons.prems(2,4) q by (auto simp: times_ok_def)
  note st = allow_step [OF rl_ok_later [OF Cons.prems(1) now(1)] a]
  have "\<forall>x \<in> set qs. fst x \<le> t1" using Cons.prems(4) by simp
  note IH = Cons.IH [OF st(1) now(3,2) this o]
  have "(fst \<circ> snd) ` set (q # qs) = insert ip0 ((fst \<circ> snd) ` set qs)" by (simp add: q)
  with IH st(4) show ?case by blast
qed

section \<open>Properties\<close>

lemma rl_run_append:
  "rl_run (qs1 @ qs2) r = (case rl_run qs1 r of (o1, r1) \<Rightarrow> (case rl_run qs2 r1 of (o2, r2) \<Rightarrow> (o1 @ o2, r2)))"
  by (induction qs1 arbitrary: r) (auto split: prod.splits)

text \<open>The states the limiter of the auth routes reaches by time \<open>t\<close>.\<close>

definition rl_reached :: "rateLimiter \<Rightarrow> int \<Rightarrow> bool" where
  "rl_reached r t \<longleftrightarrow> (\<exists>qs out t0. times_ok t0 qs \<and> t0 \<le> t \<and> (\<forall>q \<in> set qs. fst q \<le> t) \<and> rl_run qs authRL = (out, r))"

lemma rl_reached_ok: "rl_reached r t \<Longrightarrow> rl_ok r t"
  unfolding rl_reached_def using rl_run_ok [OF rl_ok_authRL] by blast

text \<open>
  From any state the limiter has reached, over any further window of \<open>T\<close> seconds, one
  address gets at most \<open>5 + T/6\<close> requests through (up to a rounding error below \<open>2^-46\<close> per
  request), as long as no more than 10001 addresses are seen, so that no bucket is dropped.
\<close>

theorem rate_limit_bound:
  assumes "rl_reached r t" and "times_ok t qs" and "\<forall>q \<in> set qs. fst q \<le> t1" and "t \<le> t1"
    and "card (fst ` set (rl_buckets r) \<union> (fst \<circ> snd) ` set qs) \<le> 10001" and "rl_run qs r = (out, r')"
  shows "of_nat (allowed_for ip out) \<le> 5 + secs (t1 - t) / 6 + of_nat (length qs) / 2 ^ 46"
  using rl_run_bound [OF rl_reached_ok [OF assms(1)] assms(2-6), of ip] level_range [OF rl_reached_ok [OF assms(1)], of ip]
  by linarith

lemma authRL_reached: "rl_reached authRL t"
  unfolding rl_reached_def by (intro exI [of _ "[]"] exI [of _ t]) (simp add: times_ok_def)

theorem rate_limit_bound_witness:
  "\<exists>out r'. rl_run (replicate 100 (0, ''10.0.0.1'', (0, False))) authRL = (out, r')
     \<and> of_nat (allowed_for ''10.0.0.1'' out) \<le> 5 + secs (0 - 0) / 6 + of_nat (length (replicate 100 (0 :: int, ''10.0.0.1'', (0 :: nat, False)))) / 2 ^ 46"
proof -
  obtain out r' where run: "rl_run (replicate 100 (0, ''10.0.0.1'', (0, False))) authRL = (out, r')"
    by (cases "rl_run (replicate 100 (0, ''10.0.0.1'', (0, False))) authRL")
  have "times_ok 0 (replicate 100 (0, ''10.0.0.1'', (0, False)))" by (simp add: times_ok_def)
  moreover have "card (fst ` set (rl_buckets authRL) \<union> (fst \<circ> snd) ` set (replicate 100 (0 :: int, ''10.0.0.1'', (0 :: nat, False)))) \<le> 10001"
    by (simp add: authRL_fields)
  ultimately show ?thesis
    using rate_limit_bound [OF authRL_reached _ _ _ _ run, of 0 0 "''10.0.0.1''"] run
    by (intro exI [of _ out] exI [of _ r']) simp
qed

text \<open>
  Whatever requests came before, the limiter keeps at most 10001 buckets, one per address,
  each with between 0 and 5 tokens; and a request is allowed if its address has no bucket or made
  its last request at least seven seconds ago.
\<close>

theorem rate_limit_state:
  assumes "rl_reached r t" and "t \<le> now"
  shows "length (rl_buckets r) \<le> 10001 \<and> distinct (map fst (rl_buckets r))
    \<and> (\<forall>ip b. map_of (rl_buckets r) ip = Some b \<longrightarrow> 0 \<le> bk_tokens b \<and> bk_tokens b \<le> 5)
    \<and> ((\<forall>b. map_of (rl_buckets r) ip = Some b \<longrightarrow> 7 * 10 ^ 9 \<le> now - bk_last b) \<longrightarrow> fst (allow i now ip r))"
proof -
  have ok: "rl_ok r now" by (rule rl_ok_later [OF rl_reached_ok [OF assms(1)] assms(2)])
  have "fst (allow i now ip r)" if old: "\<And>b. map_of (rl_buckets r) ip = Some b \<Longrightarrow> 7 * 10 ^ 9 \<le> now - bk_last b"
  proof -
    obtain b r1 where f: "find_bucket (fst i) now ip r = (b, r1)" by (cases "find_bucket (fst i) now ip r")
    note fb = find_bucket_ok [OF ok f]
    have r1: "rl_rate r1 = rl_rate authRL" "rl_burst r1 = 5" using fb(1) by (simp_all add: rl_ok_def)
    have X: "7 / 6 \<le> bk_tokens b + secs (now - bk_last b) / 6"
    proof (cases "map_of (rl_buckets r) ip")
      case (Some b0)
      then have "b0 = b" using f by (simp add: find_bucket_def)
      then have "secs (7 * 10 ^ 9) \<le> secs (now - bk_last b)" using old [OF Some] by (intro secs_mono) simp
      then have "7 \<le> secs (now - bk_last b)" by (simp add: secs_def)
      moreover have "0 \<le> bk_tokens b" using fb(3) by (simp add: bucket_ok_def)
      ultimately show ?thesis by simp
    next
      case None
      moreover have "rl_burst r = 5" using ok by (simp add: rl_ok_def)
      ultimately have "b = \<lparr>bk_tokens = 5, bk_last = now\<rparr>"
        using f by (auto simp: find_bucket_def Let_def)
      then show ?thesis by simp
    qed
    have "(1 :: rat) \<le> 7 / 6 * (1 - 1 / 2 ^ 53) ^ 6" by (simp add: power_numeral_reduce)
    also have "\<dots> \<le> (bk_tokens b + secs (now - bk_last b) / 6) * (1 - 1 / 2 ^ 53) ^ 6"
      using X by (intro mult_right_mono) simp_all
    finally have "1 \<le> refill (snd i) r1 now b" using refill_bounds(2) [where fused = "snd i", OF r1 fb(3,4)] by simp
    then show ?thesis using f by (simp add: allow_def Let_def)
  qed
  then show ?thesis using ok unfolding rl_ok_def bucket_ok_def by blast
qed

theorem rate_limit_state_witness: "fst (allow (0, True) 5 ''10.0.0.1'' authRL)"
  using rate_limit_state [OF authRL_reached, of 5 5 "''10.0.0.1''" "(0, True)"] by (simp add: authRL_fields)

text \<open>Five requests at once and then one every six seconds.\<close>

definition burst_run :: "bool \<Rightarrow> request_at list" where
  "burst_run fused = map (\<lambda>s. (s * 10 ^ 9, ''10.0.0.1'', (0, fused))) [0, 0, 0, 0, 0, 6, 12, 18, 24, 30, 36, 42, 48, 54]"

lemma f64_small: "f64 1 = 1" "f64 2 = 2" "f64 3 = 3" "f64 4 = 4" "f64 6 = 6"
  by code_simp+

lemma six_seconds: "duration_Seconds 0 = 0" "duration_Seconds 6000000000 = 6"
  by (simp_all add: duration_Seconds_def signed_divide_int_def signed_modulo_int_def f64_small)

text \<open>Evaluating a rounding from the bit lengths of numerator and denominator.\<close>

lemma floorlog_eq: "1 \<le> k \<Longrightarrow> 2 ^ (k - 1) \<le> n \<Longrightarrow> n < 2 ^ k \<Longrightarrow> floorlog 2 n = k"
proof -
  assume k: "1 \<le> k" and n: "2 ^ (k - 1) \<le> n" "n < (2 :: nat) ^ k"
  have "0 < n" using n(1) by (metis less_le_trans pos2 zero_less_power)
  note fl = floorlog_bounds [OF this]
  have "(2 :: nat) ^ (k - 1) < 2 ^ floorlog 2 n" "(2 :: nat) ^ (floorlog 2 n - 1) < 2 ^ k"
    using fl(1,2) n by (rule_tac [!] le_less_trans)
  then have "k - 1 < floorlog 2 n" "floorlog 2 n - 1 < k" by simp_all
  with k fl(3) show ?thesis by simp
qed

lemma quotient_eq: "x = of_int p / of_int q \<Longrightarrow> 0 < q \<Longrightarrow> coprime p q \<Longrightarrow> quotient_of x = (p, q)"
  by (simp flip: Fract_of_int_quotient add: quotient_of_Fract normalize_stable)

lemma f64_value:
  assumes "x = of_int p / of_int q" and "0 < p" and "0 < q" and "coprime p q"
    and "floorlog 2 (nat p) = a" and "floorlog 2 (nat q) = b"
    and "s = pow2 (52 - (if pow2 (int a - int b) \<le> x then int a - int b else int a - int b - 1))"
  shows "f64 x = of_int (round_half_even (x * s)) / s"
proof -
  have q: "quotient_of x = (p, q)" by (rule quotient_eq [OF assms(1,3,4)])
  have "0 < x" using assms(1-3) by simp
  then have "f64 x = f64_pos x" by (simp add: f64_def)
  moreover have "pow2 (52 - f64_expo x) = s" by (simp add: f64_expo_def q Let_def assms(5-7))
  ultimately show ?thesis by (simp add: f64_pos_def Let_def)
qed

lemma f64_sixth: "f64 (1 / 6) = 6004799503160661 / 2 ^ 55"
proof -
  have s: "(2 :: rat) ^ 55 = pow2 (52 - (if pow2 (int 1 - int 3) \<le> 1 / 6 then int 1 - int 3 else int 1 - int 3 - 1))"
    by (simp add: pow2_def)
  have "f64 (1 / 6) = of_int (round_half_even (1 / 6 * 2 ^ 55)) / 2 ^ 55"
    by (rule f64_value [where p = 1 and q = 6, OF _ _ _ _ _ _ s]) (simp_all add: floorlog_eq [of 1] floorlog_eq [of 3])
  moreover have "round_half_even (1 / 6 * 2 ^ 55) = 6004799503160661"
  proof -
    have "\<lfloor>1 / 6 * 2 ^ 55 :: rat\<rfloor> = 6004799503160661" by (rule floor_unique) simp_all
    then show ?thesis by (simp add: round_half_even_def Let_def)
  qed
  ultimately show ?thesis by simp
qed

lemma six_seconds_token: "f64 (6 * f64 (1 / 6)) = 1"
proof -
  let ?x = "of_int 18014398509481983 / of_int (2 ^ 54) :: rat"
  have x: "6 * f64 (1 / 6) = ?x" by (simp add: f64_sixth)
  have s: "(2 :: rat) ^ 53 = pow2 (52 - (if pow2 (int 54 - int 55) \<le> ?x then int 54 - int 55 else int 54 - int 55 - 1))"
    by (simp add: pow2_def)
  have fl: "floorlog 2 (nat 18014398509481983) = 54" "floorlog 2 (nat (2 ^ 54)) = 55"
    by (rule floorlog_eq; simp)+
  have "coprime (18014398509481983 :: int) (2 ^ 54)"
    unfolding coprime_power_right_iff coprime_right_2_iff_odd by simp
  from f64_value [OF refl _ _ this fl s] have "f64 ?x = of_int (round_half_even (?x * 2 ^ 53)) / 2 ^ 53" by simp
  moreover have "round_half_even (?x * 2 ^ 53) = 2 ^ 53"
  proof -
    have "\<lfloor>?x * 2 ^ 53\<rfloor> = 9007199254740991" by (rule floor_unique) simp_all
    then show ?thesis by (simp add: round_half_even_def Let_def)
  qed
  ultimately show ?thesis by (simp add: x)
qed

text \<open>
  In less than the first minute one address can get fourteen requests through, more than the
  documented ten per minute: five at once and then one every six seconds, with or without a fused refill.
\<close>

theorem rate_limit_first_minute:
  "map snd (fst (rl_run (burst_run fused) authRL)) = replicate 14 True"
proof -
  have r: "authRL = \<lparr>rl_rate = f64 (1 / 6), rl_burst = 5, rl_buckets = []\<rparr>"
    using authRL_fields by (cases authRL) simp
  show ?thesis
    unfolding r
    by (simp add: burst_run_def allow_def find_bucket_def refill_def Let_def six_seconds six_seconds_token f64_small f64_5
        eval_nat_numeral)
qed

end
