(* ===== verification/Json.thy ===== *)
theory Json
  imports Utf8
begin

text \<open>
  Go's package \<open>encoding/json\<close> as the HTTP layer uses it: \<open>Encode\<close> and \<open>Marshal\<close> of the values the
  handlers answer with, and the value that \<open>Decode\<close> reads from a request body. A number is kept as
  its text until a field of a Go type reads it.
\<close>

datatype json =
    JNull
  | JBool bool
  | JNum string
  | JStr string
  | JArr "json list"
  | JObj "(string \<times> json) list"

abbreviation jint :: "i64 \<Rightarrow> json" where
  "jint n \<equiv> JNum (print_i64 n)"

section \<open>Strings\<close>

abbreviation quote_char :: char where "quote_char \<equiv> CHR 0x22"
abbreviation backslash :: char where "backslash \<equiv> CHR 0x5C"

definition hex_char :: "nat \<Rightarrow> char" where
  "hex_char n = (if n < 10 then char_of (48 + n) else char_of (87 + n))"

definition hex_val :: "char \<Rightarrow> nat option" where
  "hex_val c = (let n = (of_char c :: nat) in
     if 48 \<le> n \<and> n \<le> 57 then Some (n - 48)
     else if 97 \<le> n \<and> n \<le> 102 then Some (n - 87)
     else if 65 \<le> n \<and> n \<le> 70 then Some (n - 55) else None)"

text \<open>\<open>appendString\<close> with the escaping of HTML characters, which is the encoder's default.\<close>

definition escape_ascii :: "char \<Rightarrow> string" where
  "escape_ascii c =
     (let n = (of_char c :: nat) in
      if c = quote_char \<or> c = backslash then [backslash, c]
      else if n = 8 then [backslash, CHR ''b'']
      else if n = 9 then [backslash, CHR ''t'']
      else if n = 10 then [backslash, CHR ''n'']
      else if n = 12 then [backslash, CHR ''f'']
      else if n = 13 then [backslash, CHR ''r'']
      else if n < 32 \<or> c = CHR ''<'' \<or> c = CHR ''>'' \<or> c = CHR ''&''
      then backslash # ''u00'' @ [hex_char (n div 16), hex_char (n mod 16)]
      else [c])"

definition escape_rune :: "string \<Rightarrow> string" where
  "escape_rune r =
     (if r = [CHR 0xE2, CHR 0x80, CHR 0xA8] then backslash # ''u2028''
      else if r = [CHR 0xE2, CHR 0x80, CHR 0xA9] then backslash # ''u2029''
      else r)"

function json_quote :: "string \<Rightarrow> string" where
  "json_quote [] = []"
| "json_quote (c # s) =
     (let n = rune_len (c # s) in
      if n = 0 then backslash # ''ufffd'' @ json_quote s
      else if n = 1 then escape_ascii c @ json_quote s
      else escape_rune (take n (c # s)) @ json_quote (drop n (c # s)))"
  by pat_completeness auto
termination by (relation "measure length") auto

declare json_quote.simps [simp del]

text \<open>\<open>unquote\<close>: four hexadecimal digits, an escape after its backslash, and the whole string.\<close>

fun hex4 :: "string \<Rightarrow> (nat \<times> string) option" where
  "hex4 (a # b # c # d # s) =
     (case (hex_val a, hex_val b, hex_val c, hex_val d) of
        (Some w, Some x, Some y, Some z) \<Rightarrow> Some (((w * 16 + x) * 16 + y) * 16 + z, s)
      | _ \<Rightarrow> None)"
| "hex4 _ = None"

text \<open>
  A number in the range of the surrogates is half a pair: with the other half it gives a rune, and
  else U+FFFD, the next escape being read again.
\<close>

definition low_surrogate :: "string \<Rightarrow> (nat \<times> string) option" where
  "low_surrogate s =
     (if take 2 s = [backslash, CHR ''u'']
      then (case hex4 (drop 2 s) of
              Some (w, r) \<Rightarrow> if 0xDC00 \<le> w \<and> w < 0xE000 then Some (w, r) else None
            | None \<Rightarrow> None)
      else None)"

definition unescape_u :: "string \<Rightarrow> (string \<times> string) option" where
  "unescape_u s =
     (case hex4 s of
        None \<Rightarrow> None
      | Some (v, r) \<Rightarrow>
          (if 0xD800 \<le> v \<and> v < 0xDC00 then
             (case low_surrogate r of
                Some (w, r') \<Rightarrow> Some (encode_rune (0x10000 + (v - 0xD800) * 1024 + (w - 0xDC00)), r')
              | None \<Rightarrow> Some (replacement, r))
           else Some (encode_rune v, r)))"

definition unescape :: "string \<Rightarrow> (string \<times> string) option" where
  "unescape s =
     (case s of
        [] \<Rightarrow> None
      | c # r \<Rightarrow>
          (if c = quote_char \<or> c = backslash \<or> c = CHR ''/'' then Some ([c], r)
           else if c = CHR ''b'' then Some ([CHR 0x08], r)
           else if c = CHR ''f'' then Some ([CHR 0x0C], r)
           else if c = CHR ''n'' then Some ([CHR 0x0A], r)
           else if c = CHR ''r'' then Some ([CHR 0x0D], r)
           else if c = CHR ''t'' then Some ([CHR 0x09], r)
           else if c = CHR ''u'' then unescape_u r
           else None))"

lemma hex4_length: "hex4 s = Some (v, r) \<Longrightarrow> length r < length s"
  by (cases s rule: hex4.cases) (auto split: option.splits)

lemma low_surrogate_length: "low_surrogate s = Some (w, r) \<Longrightarrow> length r < length s"
  by (auto simp: low_surrogate_def dest!: hex4_length split: if_splits option.splits)

lemma unescape_length: "unescape s = Some (x, r) \<Longrightarrow> length r < length s"
  by (auto simp: unescape_def unescape_u_def dest!: hex4_length low_surrogate_length
      split: list.splits if_splits option.splits)

function unquote :: "string \<Rightarrow> string \<Rightarrow> (string \<times> string) option" where
  "unquote acc [] = None"
| "unquote acc (c # s) =
     (if c = quote_char then Some (acc, s)
      else if c = backslash then
        (case unescape s of None \<Rightarrow> None | Some (x, r) \<Rightarrow> unquote (acc @ x) r)
      else if (of_char c :: nat) < 32 then None
      else if rune_len (c # s) = 0 then unquote (acc @ replacement) s
      else unquote (acc @ take (rune_len (c # s)) (c # s)) (drop (rune_len (c # s)) (c # s)))"
  by pat_completeness auto
termination by (relation "measure (\<lambda>(acc, s). length s)") (auto dest: unescape_length)

declare unquote.simps [simp del]

lemma unquote_cases:
  assumes "unquote acc (c # s) = Some (x, r)"
  obtains (close) "c = quote_char" "x = acc" "r = s"
  | (escape) y t where "c = backslash" "unescape s = Some (y, t)" "unquote (acc @ y) t = Some (x, r)"
  | (bad) "rune_len (c # s) = 0" "unquote (acc @ replacement) s = Some (x, r)"
  | (rune) "rune_len (c # s) \<noteq> 0"
      "unquote (acc @ take (rune_len (c # s)) (c # s)) (drop (rune_len (c # s)) (c # s)) = Some (x, r)"
  using assms unfolding unquote.simps(2) by (auto split: if_splits option.splits)

lemma unquote_length: "unquote acc s = Some (x, r) \<Longrightarrow> length r < length s"
proof (induction "length s" arbitrary: acc s rule: less_induct)
  case less
  show ?case
  proof (cases s)
    case (Cons c t)
    with less.prems have "unquote acc (c # t) = Some (x, r)" by simp
    then show ?thesis
    proof (cases rule: unquote_cases)
      case close
      with Cons show ?thesis by simp
    next
      case (escape y u)
      then have "length u < length s" using unescape_length Cons by fastforce
      from less.hyps [OF this escape(3)] this show ?thesis by simp
    next
      case bad
      from less.hyps [OF _ bad(2)] show ?thesis by (simp add: Cons)
    next
      case rune
      from less.hyps [OF _ rune(2)] rune(1) show ?thesis by (simp add: Cons)
    qed
  qed (use less.prems in \<open>simp add: unquote.simps\<close>)
qed

subsection \<open>Reading back a quoted string\<close>

text \<open>The three runes the encoder writes as escapes.\<close>

lemma encode_rune_escapes:
  "encode_rune 0xFFFD = replacement" "encode_rune 0x2028 = [CHR 0xE2, CHR 0x80, CHR 0xA8]"
  "encode_rune 0x2029 = [CHR 0xE2, CHR 0x80, CHR 0xA9]"
  by (simp_all add: encode_rune_def replacement_def char_of_eq_iff)

lemma unescape_escapes:
  "unescape (''ufffd'' @ s) = Some (replacement, s)"
  "unescape (''u2028'' @ s) = Some ([CHR 0xE2, CHR 0x80, CHR 0xA8], s)"
  "unescape (''u2029'' @ s) = Some ([CHR 0xE2, CHR 0x80, CHR 0xA9], s)"
  using encode_rune_escapes by (simp_all add: unescape_def unescape_u_def hex_val_def)

lemma hex_val_char [simp]: "n < 16 \<Longrightarrow> hex_val (hex_char n) = Some n"
  by (auto simp: hex_val_def hex_char_def Let_def)

lemma unescape_u00:
  assumes "n < 128"
  shows "unescape (CHR ''u'' # CHR ''0'' # CHR ''0'' # hex_char (n div 16) # hex_char (n mod 16) # s) = Some ([char_of n], s)"
proof -
  have "n div 16 < 16" "n mod 16 < 16" "n div 16 * 16 + n mod 16 = n" using assms by simp_all
  moreover have "hex_val (CHR ''0'') = Some 0" by (simp add: hex_val_def)
  ultimately have "hex4 (CHR ''0'' # CHR ''0'' # hex_char (n div 16) # hex_char (n mod 16) # s) = Some (n, s)" by simp
  then show ?thesis using assms by (simp add: unescape_def unescape_u_def encode_rune_def)
qed

lemma unquote_escape_ascii:
  assumes "between 0 c 127"
  shows "unquote acc (escape_ascii c @ s) = unquote (acc @ [c]) s"
proof -
  let ?n = "of_char c :: nat"
  have n: "?n < 128" using assms by (simp add: between_def)
  have c: "c = char_of ?n" by simp
  have plain: "unquote acc (c # s) = unquote (acc @ [c]) s"
    if "c \<noteq> quote_char" "c \<noteq> backslash" "\<not> ?n < 32"
    using that rune_len_1 [OF assms, of s] by (simp add: unquote.simps(2))
  have esc: "unquote acc (backslash # t) = (case unescape t of None \<Rightarrow> None | Some (x, r) \<Rightarrow> unquote (acc @ x) r)" for t
    by (simp add: unquote.simps(2))
  have ctrl: "?n = 8 \<Longrightarrow> c = CHR 0x08" "?n = 9 \<Longrightarrow> c = CHR 0x09" "?n = 10 \<Longrightarrow> c = CHR 0x0A"
    "?n = 12 \<Longrightarrow> c = CHR 0x0C" "?n = 13 \<Longrightarrow> c = CHR 0x0D"
    by (subst c, simp only:, simp add: char_of_eq_iff)+
  show ?thesis
    unfolding escape_ascii_def Let_def
    using plain unescape_u00 [OF n, of s]
    by (auto simp: esc unescape_def dest!: ctrl)
qed

lemma unquote_rune:
  assumes "rune_len r = length r" and "1 < length r"
  shows "unquote acc (escape_rune r @ s) = unquote (acc @ r) s"
proof -
  consider "r = [CHR 0xE2, CHR 0x80, CHR 0xA8]" | "r = [CHR 0xE2, CHR 0x80, CHR 0xA9]" | "escape_rune r = r"
    unfolding escape_rune_def by metis
  then show ?thesis
  proof cases
    case 3
    obtain c t where r: "r = c # t" using assms(2) by (cases r) auto
    have n: "rune_len (r @ s) = length r" using rune_len_take [of r "length r" s] assms by (simp add: r)
    have "\<not> between 0 c 127" using assms rune_len_1 [of c t] by (auto simp: r)
    then have "c \<noteq> quote_char" "c \<noteq> backslash" "\<not> (of_char c :: nat) < 32" by (auto simp: between_def)
    with n 3 show ?thesis by (simp add: r unquote.simps(2))
  qed (use unescape_escapes(2,3) in \<open>simp_all add: escape_rune_def unquote.simps(2)\<close>)
qed

lemma unquote_quote: "unquote acc (json_quote s @ quote_char # rest) = Some (acc @ to_valid s, rest)"
proof (induction s arbitrary: acc rule: json_quote.induct)
  case 1
  show ?case by (simp add: json_quote.simps(1) unquote.simps(2))
next
  case (2 c s)
  let ?n = "rune_len (c # s)"
  consider "?n = 0" | "?n = 1" | "1 < ?n" by linarith
  then show ?case
  proof cases
    case 1
    have "unquote acc (backslash # ''ufffd'' @ t) = unquote (acc @ replacement) t" for t
      using unescape_escapes(1) by (simp add: unquote.simps(2))
    with 1 "2.IH"(1) [of ?n "acc @ replacement"] show ?thesis by (simp add: json_quote.simps(2) to_valid.simps(2))
  next
    case 2
    then have "between 0 c 127" by (simp only: rune_len_ascii)
    with 2 "2.IH"(2) [of ?n "acc @ [c]"] show ?thesis
      by (simp add: json_quote.simps(2) to_valid.simps(2) unquote_escape_ascii)
  next
    case 3
    note r = take_rune [of "c # s"] rune_len_le [of "c # s"]
    from 3 r have "unquote acc (escape_rune (take ?n (c # s)) @ t) = unquote (acc @ take ?n (c # s)) t" for t
      by (intro unquote_rune) simp_all
    with 3 "2.IH"(3) [of ?n "acc @ take ?n (c # s)"] show ?thesis
      by (simp add: json_quote.simps(2) to_valid.simps(2) Let_def)
  qed
qed


section \<open>Numbers\<close>

definition is_digit :: "char \<Rightarrow> bool" where
  "is_digit c \<longleftrightarrow> between 48 c 57"

text \<open>The grammar of a number; each part takes what it can and fails where a digit is missing.\<close>

definition scan_digits :: "string \<Rightarrow> (string \<times> string) option" where
  "scan_digits s = (if takeWhile is_digit s = [] then None else Some (takeWhile is_digit s, dropWhile is_digit s))"

definition scan_int :: "string \<Rightarrow> (string \<times> string) option" where
  "scan_int s = (if take 1 s = ''0'' then Some (''0'', drop 1 s) else scan_digits s)"

definition scan_frac :: "string \<Rightarrow> (string \<times> string) option" where
  "scan_frac s =
     (if take 1 s = ''.'' then map_option (\<lambda>(ds, r). (''.'' @ ds, r)) (scan_digits (drop 1 s)) else Some ([], s))"

definition scan_exp :: "string \<Rightarrow> (string \<times> string) option" where
  "scan_exp s =
     (if take 1 s = ''e'' \<or> take 1 s = ''E'' then
        (let k = (if take 1 (drop 1 s) = ''+'' \<or> take 1 (drop 1 s) = ''-'' then 2 else 1) in
         map_option (\<lambda>(ds, r). (take k s @ ds, r)) (scan_digits (drop k s)))
      else Some ([], s))"

definition scan_number :: "string \<Rightarrow> (string \<times> string) option" where
  "scan_number s =
     (let k = (if take 1 s = ''-'' then 1 else 0) in
      case scan_int (drop k s) of
        None \<Rightarrow> None
      | Some (i, r1) \<Rightarrow>
          (case scan_frac r1 of
             None \<Rightarrow> None
           | Some (f, r2) \<Rightarrow> map_option (\<lambda>(e, r3). (take k s @ i @ f @ e, r3)) (scan_exp r2)))"

lemma scan_digits_append: "scan_digits s = Some (x, r) \<Longrightarrow> s = x @ r \<and> x \<noteq> []"
  by (auto simp: scan_digits_def split: if_splits)

lemma scan_number_append:
  assumes "scan_number s = Some (t, r)"
  shows "s = t @ r" "t \<noteq> []"
proof -
  have int: "u = i @ v \<and> i \<noteq> []" if "scan_int u = Some (i, v)" for u i v
    using that by (cases u) (auto simp: scan_int_def dest: scan_digits_append split: if_splits)
  have frac: "u = f @ v" if "scan_frac u = Some (f, v)" for u f v
    using that by (cases u) (auto simp: scan_frac_def dest: scan_digits_append split: if_splits)
  have exp: "u = e @ v" if e: "scan_exp u = Some (e, v)" for u e v
  proof (cases "take 1 u = ''e'' \<or> take 1 u = ''E''")
    case True
    let ?k = "if take 1 (drop 1 u) = ''+'' \<or> take 1 (drop 1 u) = ''-'' then 2 else 1 :: nat"
    obtain ds where "scan_digits (drop ?k u) = Some (ds, v)" "e = take ?k u @ ds"
      using e True unfolding scan_exp_def Let_def by (auto split: if_splits)
    with scan_digits_append [OF this(1)] show ?thesis by (metis append.assoc append_take_drop_id)
  qed (use e in \<open>simp add: scan_exp_def\<close>)
  let ?k = "if take 1 s = ''-'' then 1 else 0 :: nat"
  obtain i f e r1 r2 where p: "scan_int (drop ?k s) = Some (i, r1)" "scan_frac r1 = Some (f, r2)" "scan_exp r2 = Some (e, r)"
    "t = take ?k s @ i @ f @ e"
    using assms unfolding scan_number_def Let_def by (auto split: option.splits)
  have "drop ?k s = (i @ f @ e) @ r" using int [OF p(1)] frac [OF p(2)] exp [OF p(3)] by simp
  then show "s = t @ r" unfolding p(4) by (metis append.assoc append_take_drop_id)
  show "t \<noteq> []" using int [OF p(1)] p(4) by simp
qed

text \<open>A printed integer is read back as it stands where no character continues it.\<close>

definition stops :: "string \<Rightarrow> bool" where
  "stops s \<longleftrightarrow> (case s of [] \<Rightarrow> True | c # _ \<Rightarrow> \<not> is_digit c \<and> c \<noteq> CHR ''.'' \<and> c \<noteq> CHR ''e'' \<and> c \<noteq> CHR ''E'')"

lemma print_nat_all_digits: "\<forall>c \<in> set (print_nat n). is_digit c"
proof
  fix c assume "c \<in> set (print_nat n)"
  from print_nat_char_range [OF this] show "is_digit c" by (simp add: is_digit_def between_def)
qed

lemma print_nat_no_zero: "take 1 (print_nat n @ s) = ''0'' \<Longrightarrow> n = 0"
proof (induction n arbitrary: s rule: print_nat.induct)
  case (1 n)
  show ?case
  proof (cases "n < 10")
    case True
    have "char_of (48 + n) = CHR ''0'' \<Longrightarrow> take_bit 8 (48 + n) = 48" by (simp add: char_of_eq_iff)
    with True "1.prems" show ?thesis
      by (subst (asm) print_nat.simps) (simp add: digit_char_def take_bit_nat_eq_self)
  next
    case False
    have "print_nat n @ s = print_nat (n div 10) @ digit_char (n mod 10) # s"
      by (subst print_nat.simps) (simp add: False)
    with "1.IH" [OF False] "1.prems" have "n div 10 = 0" by metis
    with False show ?thesis by simp
  qed
qed

lemma takeWhile_digits:
  assumes "\<forall>c \<in> set ds. is_digit c" and "stops s"
  shows "takeWhile is_digit (ds @ s) = ds" "dropWhile is_digit (ds @ s) = s"
  using assms by (induction ds) (auto simp: stops_def split: list.splits)

lemma scan_int_print: "stops s \<Longrightarrow> scan_int (print_nat n @ s) = Some (print_nat n, s)"
proof (cases "take 1 (print_nat n @ s) = ''0''")
  case True
  then have "n = 0" by (rule print_nat_no_zero)
  then have "print_nat n = ''0''" by (simp add: print_nat.simps digit_char_def char_of_eq_iff)
  then show ?thesis by (simp add: scan_int_def)
next
  case False
  assume "stops s"
  note takeWhile_digits [OF print_nat_all_digits this, of n]
  with False show ?thesis by (simp only: scan_int_def scan_digits_def) simp
qed

lemma scan_number_print:
  assumes "stops s"
  shows "scan_number (print_i64 n @ s) = Some (print_i64 n, s)"
proof -
  have rest: "scan_frac s = Some ([], s)" "scan_exp s = Some ([], s)"
    using assms by (auto simp: scan_frac_def scan_exp_def stops_def split: list.splits)
  have nat: "take 1 (print_nat k @ s) \<noteq> ''-''" for k
    using print_nat_nonempty [of k] print_nat_no_sign(1) [of k] by (cases "print_nat k") auto
  show ?thesis
    using rest nat scan_int_print [OF assms] by (simp add: print_i64_def scan_number_def Let_def)
qed

section \<open>Values\<close>

text \<open>Encoding: no spaces, members in the order given.\<close>

fun json_encode :: "json \<Rightarrow> string" and encode_elems :: "json list \<Rightarrow> string"
  and encode_members :: "(string \<times> json) list \<Rightarrow> string" where
  "json_encode JNull = ''null''"
| "json_encode (JBool b) = (if b then ''true'' else ''false'')"
| "json_encode (JNum t) = t"
| "json_encode (JStr s) = quote_char # json_quote s @ [quote_char]"
| "json_encode (JArr js) = ''['' @ encode_elems js @ '']''"
| "json_encode (JObj ms) = ''{'' @ encode_members ms @ ''}''"
| "encode_elems [] = []"
| "encode_elems (j # js) = json_encode j @ (if js = [] then [] else '','' @ encode_elems js)"
| "encode_members [] = []"
| "encode_members ((k, j) # ms) =
     quote_char # json_quote k @ quote_char # '':'' @ json_encode j @ (if ms = [] then [] else '','' @ encode_members ms)"

definition is_space :: "char \<Rightarrow> bool" where
  "is_space c \<longleftrightarrow> c = CHR 0x20 \<or> c = CHR 0x09 \<or> c = CHR 0x0A \<or> c = CHR 0x0D"

definition skip_ws :: "string \<Rightarrow> string" where
  "skip_ws s = dropWhile is_space s"

definition json_word :: "string \<Rightarrow> json \<Rightarrow> string \<Rightarrow> (json \<times> string) option" where
  "json_word w j s = (if strings_HasPrefix s w then Some (j, drop (length w) s) else None)"

text \<open>
  Reading one value and what follows it; \<open>d\<close> is how much deeper values may be nested. The fuel counts
  calls: every call takes a character before the next one, so the length of the input suffices.
\<close>

fun json_value :: "nat \<Rightarrow> nat \<Rightarrow> string \<Rightarrow> (json \<times> string) option"
  and json_elems :: "nat \<Rightarrow> nat \<Rightarrow> string \<Rightarrow> (json list \<times> string) option"
  and json_members :: "nat \<Rightarrow> nat \<Rightarrow> string \<Rightarrow> ((string \<times> json) list \<times> string) option" where
  "json_value 0 d s = None"
| "json_value (Suc n) d s =
     (case skip_ws s of
        [] \<Rightarrow> None
      | c # r \<Rightarrow>
          (if c = quote_char then map_option (map_prod JStr id) (unquote [] r)
           else if c = CHR ''{'' then
             (if d = 0 then None
              else case skip_ws r of
                [] \<Rightarrow> None
              | c2 # r2 \<Rightarrow>
                  (if c2 = CHR ''}'' then Some (JObj [], r2)
                   else map_option (map_prod JObj id) (json_members n (d - 1) r)))
           else if c = CHR ''['' then
             (if d = 0 then None
              else case skip_ws r of
                [] \<Rightarrow> None
              | c2 # r2 \<Rightarrow>
                  (if c2 = CHR '']'' then Some (JArr [], r2)
                   else map_option (map_prod JArr id) (json_elems n (d - 1) r)))
           else if c = CHR ''t'' then json_word ''true'' (JBool True) (c # r)
           else if c = CHR ''f'' then json_word ''false'' (JBool False) (c # r)
           else if c = CHR ''n'' then json_word ''null'' JNull (c # r)
           else map_option (map_prod JNum id) (scan_number (c # r))))"
| "json_elems 0 d s = None"
| "json_elems (Suc n) d s =
     (case json_value n d s of
        None \<Rightarrow> None
      | Some (j, r) \<Rightarrow>
          (case skip_ws r of
             [] \<Rightarrow> None
           | c # r2 \<Rightarrow>
               (if c = CHR '','' then map_option (map_prod (Cons j) id) (json_elems n d r2)
                else if c = CHR '']'' then Some ([j], r2) else None)))"
| "json_members 0 d s = None"
| "json_members (Suc n) d s =
     (case skip_ws s of
        [] \<Rightarrow> None
      | q # r0 \<Rightarrow>
          (if q \<noteq> quote_char then None
           else case unquote [] r0 of
             None \<Rightarrow> None
           | Some (k, r1) \<Rightarrow>
               (case skip_ws r1 of
                  [] \<Rightarrow> None
                | c1 # r2 \<Rightarrow>
                    (if c1 \<noteq> CHR '':'' then None
                     else case json_value n d r2 of
                       None \<Rightarrow> None
                     | Some (j, r3) \<Rightarrow>
                         (case skip_ws r3 of
                            [] \<Rightarrow> None
                          | c2 # r4 \<Rightarrow>
                              (if c2 = CHR '','' then map_option (map_prod (Cons (k, j)) id) (json_members n d r4)
                               else if c2 = CHR ''}'' then Some ([(k, j)], r4) else None))))))"

subsection \<open>Every call makes progress, and the fuel is enough\<close>

lemma skip_ws_Cons: "skip_ws s = c # r \<Longrightarrow> length r < length s"
  unfolding skip_ws_def by (metis length_dropWhile_le length_Cons Suc_le_eq)

lemma json_word_length: "json_word w j s = Some (x, r) \<Longrightarrow> w \<noteq> [] \<Longrightarrow> s \<noteq> [] \<Longrightarrow> length r < length s"
  by (auto simp: json_word_def split: if_splits)

lemma json_value_cases:
  assumes "json_value (Suc n) d s = Some (j, r)"
  obtains (str) t r0 where "skip_ws s = quote_char # r0" "unquote [] r0 = Some (t, r)" "j = JStr t"
  | (empty) c r0 c2 where "skip_ws s = c # r0" "skip_ws r0 = c2 # r"
  | (obj) ms r0 where "skip_ws s = CHR ''{'' # r0" "json_members n (d - 1) r0 = Some (ms, r)" "j = JObj ms"
  | (arr) js r0 where "skip_ws s = CHR ''['' # r0" "json_elems n (d - 1) r0 = Some (js, r)" "j = JArr js"
  | (lit) w c r0 where "skip_ws s = c # r0" "json_word w j (c # r0) = Some (j, r)" "w \<noteq> []"
  | (num) t c r0 where "skip_ws s = c # r0" "scan_number (c # r0) = Some (t, r)" "j = JNum t"
proof -
  obtain c r0 where c: "skip_ws s = c # r0" using assms by (auto split: list.splits)
  consider "c = quote_char" | "c = CHR ''{''" | "c = CHR ''[''" | "c = CHR ''t''" | "c = CHR ''f''" | "c = CHR ''n''"
    | "c \<noteq> quote_char" "c \<noteq> CHR ''{''" "c \<noteq> CHR ''[''" "c \<noteq> CHR ''t''" "c \<noteq> CHR ''f''" "c \<noteq> CHR ''n''" by blast
  then show ?thesis
  proof cases
    case 1
    with assms c show ?thesis by (auto intro: str)
  next
    case 2
    with assms c show ?thesis by (auto intro: obj empty split: if_splits list.splits)
  next
    case 3
    with assms c show ?thesis by (auto intro: arr empty split: if_splits list.splits)
  next
    case 4
    with assms c have "json_word ''true'' (JBool True) (c # r0) = Some (j, r)" by simp
    then have "json_word ''true'' j (c # r0) = Some (j, r)" by (auto simp: json_word_def split: if_splits)
    with c show ?thesis by (rule lit) simp
  next
    case 5
    with assms c have "json_word ''false'' (JBool False) (c # r0) = Some (j, r)" by simp
    then have "json_word ''false'' j (c # r0) = Some (j, r)" by (auto simp: json_word_def split: if_splits)
    with c show ?thesis by (rule lit) simp
  next
    case 6
    with assms c have "json_word ''null'' JNull (c # r0) = Some (j, r)" by simp
    then have "json_word ''null'' j (c # r0) = Some (j, r)" by (auto simp: json_word_def split: if_splits)
    with c show ?thesis by (rule lit) simp
  next
    case 7
    with assms c show ?thesis by (auto intro: num)
  qed
qed

lemma json_elems_cases:
  assumes "json_elems (Suc n) d s = Some (js, r)"
  obtains (more) j r1 r2 ks where "json_value n d s = Some (j, r1)" "skip_ws r1 = CHR '','' # r2"
      "json_elems n d r2 = Some (ks, r)" "js = j # ks"
  | (last) j r1 where "json_value n d s = Some (j, r1)" "skip_ws r1 = CHR '']'' # r" "js = [j]"
  using assms by (auto split: option.splits list.splits if_splits)

lemma json_members_cases:
  assumes "json_members (Suc n) d s = Some (ms, r)"
  obtains (more) r0 k r1 r2 j r3 r4 ks where "skip_ws s = quote_char # r0" "unquote [] r0 = Some (k, r1)"
      "skip_ws r1 = CHR '':'' # r2" "json_value n d r2 = Some (j, r3)" "skip_ws r3 = CHR '','' # r4"
      "json_members n d r4 = Some (ks, r)" "ms = (k, j) # ks"
  | (last) r0 k r1 r2 j r3 where "skip_ws s = quote_char # r0" "unquote [] r0 = Some (k, r1)"
      "skip_ws r1 = CHR '':'' # r2" "json_value n d r2 = Some (j, r3)" "skip_ws r3 = CHR ''}'' # r" "ms = [(k, j)]"
  using assms by (auto split: option.splits list.splits if_splits)

lemma json_length:
  "(\<forall>d s j r. json_value n d s = Some (j, r) \<longrightarrow> length r < length s)
   \<and> (\<forall>d s js r. json_elems n d s = Some (js, r) \<longrightarrow> length r < length s)
   \<and> (\<forall>d s ms r. json_members n d s = Some (ms, r) \<longrightarrow> length r < length s)"
proof (induction n)
  case (Suc n)
  have V: "length r < length s" if "json_value n d s = Some (j, r)" for d s j r using Suc that by blast
  have E: "length r < length s" if "json_elems n d s = Some (js, r)" for d s js r using Suc that by blast
  have M: "length r < length s" if "json_members n d s = Some (ms, r)" for d s ms r using Suc that by blast
  have "length r < length s" if "json_value (Suc n) d s = Some (j, r)" for d s j r
    using that
  proof (cases rule: json_value_cases)
    case (str t r0)
    from skip_ws_Cons [OF str(1)] unquote_length [OF str(2)] show ?thesis by simp
  next
    case (empty c r0 c2)
    from skip_ws_Cons [OF empty(1)] skip_ws_Cons [OF empty(2)] show ?thesis by simp
  next
    case (obj ms r0)
    from skip_ws_Cons [OF obj(1)] M [OF obj(2)] show ?thesis by simp
  next
    case (arr js r0)
    from skip_ws_Cons [OF arr(1)] E [OF arr(2)] show ?thesis by simp
  next
    case (lit w c r0)
    from skip_ws_Cons [OF lit(1)] json_word_length [OF lit(2,3)] show ?thesis by simp
  next
    case (num t c r0)
    from skip_ws_Cons [OF num(1)] scan_number_append [OF num(2)] show ?thesis by (cases t) auto
  qed
  moreover have "length r < length s" if "json_elems (Suc n) d s = Some (js, r)" for d s js r
    using that
  proof (cases rule: json_elems_cases)
    case (more j r1 r2 ks)
    from V [OF more(1)] skip_ws_Cons [OF more(2)] E [OF more(3)] show ?thesis by simp
  next
    case (last j r1)
    from V [OF last(1)] skip_ws_Cons [OF last(2)] show ?thesis by simp
  qed
  moreover have "length r < length s" if "json_members (Suc n) d s = Some (ms, r)" for d s ms r
    using that
  proof (cases rule: json_members_cases)
    case (more r0 k r1 r2 j r3 r4 ks)
    from skip_ws_Cons [OF more(1)] unquote_length [OF more(2)] skip_ws_Cons [OF more(3)] V [OF more(4)]
      skip_ws_Cons [OF more(5)] M [OF more(6)] show ?thesis by simp
  next
    case (last r0 k r1 r2 j r3)
    from skip_ws_Cons [OF last(1)] unquote_length [OF last(2)] skip_ws_Cons [OF last(3)] V [OF last(4)]
      skip_ws_Cons [OF last(5)] show ?thesis by simp
  qed
  ultimately show ?case by blast
qed simp

lemmas json_value_length = json_length [THEN conjunct1, rule_format]

lemma json_fuel:
  "(\<forall>m d s. 2 * length s < n \<and> 2 * length s < m \<longrightarrow> json_value n d s = json_value m d s)
   \<and> (\<forall>m d s. 2 * length s + 1 < n \<and> 2 * length s + 1 < m \<longrightarrow> json_elems n d s = json_elems m d s)
   \<and> (\<forall>m d s. 2 * length s < n \<and> 2 * length s < m \<longrightarrow> json_members n d s = json_members m d s)"
proof (induction n)
  case (Suc n)
  have V: "json_value n d s = json_value m d s" if "2 * length s < n" "2 * length s < m" for m d s using Suc that by blast
  have E: "json_elems n d s = json_elems m d s" if "2 * length s + 1 < n" "2 * length s + 1 < m" for m d s
    using Suc that by blast
  have M: "json_members n d s = json_members m d s" if "2 * length s < n" "2 * length s < m" for m d s
    using Suc that by blast
  have "json_value (Suc n) d s = json_value m d s" if l: "2 * length s < Suc n" "2 * length s < m" for m d s
  proof -
    obtain m' where m: "m = Suc m'" using l by (cases m) auto
    show ?thesis
    proof (cases "skip_ws s")
      case (Cons c r)
      from skip_ws_Cons [OF Cons] l m have "2 * length r + 1 < n" "2 * length r + 1 < m'" by linarith+
      then have "\<And>d. json_elems n d r = json_elems m' d r" "\<And>d. json_members n d r = json_members m' d r"
        by (blast intro: E, blast intro: M dest: add_lessD1)
      then show ?thesis by (simp add: m Cons cong: if_cong list.case_cong)
    qed (simp add: m)
  qed
  moreover have "json_elems (Suc n) d s = json_elems m d s" if l: "2 * length s + 1 < Suc n" "2 * length s + 1 < m" for m d s
  proof -
    obtain m' where m: "m = Suc m'" using l by (cases m) auto
    have v: "json_value n d s = json_value m' d s" by (rule V) (use l m in simp_all)
    show ?thesis
    proof (cases "json_value m' d s")
      case (Some x)
      obtain j r where x: "x = (j, r)" by (cases x)
      show ?thesis
      proof (cases "skip_ws r")
        case (Cons c r2)
        from Some x have "length r < length s" using json_value_length by simp
        with skip_ws_Cons [OF Cons] l m have "2 * length r2 + 1 < n" "2 * length r2 + 1 < m'" by linarith+
        then have "json_elems n d r2 = json_elems m' d r2" by (rule E)
        then show ?thesis by (simp add: m v Some x Cons)
      qed (simp add: m v Some x)
    qed (simp add: m v)
  qed
  moreover have "json_members (Suc n) d s = json_members m d s" if l: "2 * length s < Suc n" "2 * length s < m" for m d s
  proof -
    obtain m' where m: "m = Suc m'" using l by (cases m) auto
    have v: "json_value n d r = json_value m' d r" "json_members n d r = json_members m' d r"
      if "length r < length s" for r
      using V [of r m' d] M [of r m' d] l m that by linarith+
    show ?thesis
    proof (cases "skip_ws s")
      case Nil
      then show ?thesis by (simp add: m)
    next
      case p: (Cons q r0)
      show ?thesis
      proof (cases "unquote [] r0")
        case None
        then show ?thesis by (simp add: m p)
      next
        case (Some y)
        obtain k r1 where y: "unquote [] r0 = Some (k, r1)" using Some by (cases y) simp
        show ?thesis
        proof (cases "skip_ws r1")
          case Nil
          then show ?thesis by (simp add: m p y)
        next
          case p1: (Cons c1 r2)
          note len = skip_ws_Cons [OF p] unquote_length [OF y] skip_ws_Cons [OF p1]
          have v2: "json_value n d r2 = json_value m' d r2" using len by (intro v) simp
          show ?thesis
          proof (cases "json_value m' d r2")
            case None
            then show ?thesis by (simp add: m p y p1 v2)
          next
            case (Some x)
            obtain j r3 where x: "json_value m' d r2 = Some (j, r3)" using Some by (cases x) simp
            from json_value_length [OF x] have l3: "length r3 < length r2" .
            show ?thesis
            proof (cases "skip_ws r3")
              case Nil
              then show ?thesis by (simp add: m p y p1 v2 x)
            next
              case p3: (Cons c r4)
              from skip_ws_Cons [OF p3] l3 len have "json_members n d r4 = json_members m' d r4" by (intro v) simp
              then show ?thesis by (simp add: m p y p1 v2 x p3)
            qed
          qed
        qed
      qed
    qed
  qed
  ultimately show ?case by blast
qed simp

text \<open>\<open>NewDecoder(r.Body).Decode\<close> reads the first value and ignores what follows it.\<close>

definition json_decode :: "string \<Rightarrow> json option" where
  "json_decode s = map_option fst (json_value (2 * length s + 1) 10000 s)"

lemma json_decode_fuel: "2 * length s < n \<Longrightarrow> json_decode s = map_option fst (json_value n 10000 s)"
  using json_fuel [of n] unfolding json_decode_def by (metis Suc_eq_plus1 lessI)

subsection \<open>Reading back what was encoded\<close>

text \<open>The values a Go encoder writes: integers, and nested no deeper than a reader accepts.\<close>

fun json_ok :: "nat \<Rightarrow> json \<Rightarrow> bool" and elems_ok :: "nat \<Rightarrow> json list \<Rightarrow> bool"
  and members_ok :: "nat \<Rightarrow> (string \<times> json) list \<Rightarrow> bool" where
  "json_ok d (JNum t) = (t = print_i64 (fst (parse_int t)))"
| "json_ok d (JArr js) = (d \<noteq> 0 \<and> elems_ok (d - 1) js)"
| "json_ok d (JObj ms) = (d \<noteq> 0 \<and> members_ok (d - 1) ms)"
| "json_ok d _ = True"
| "elems_ok d [] = True"
| "elems_ok d (j # js) = (json_ok d j \<and> elems_ok d js)"
| "members_ok d [] = True"
| "members_ok d ((k, j) # ms) = (json_ok d j \<and> members_ok d ms)"

text \<open>What becomes of ill-formed UTF-8 on the way.\<close>

fun json_clean :: "json \<Rightarrow> json" and clean_elems :: "json list \<Rightarrow> json list"
  and clean_members :: "(string \<times> json) list \<Rightarrow> (string \<times> json) list" where
  "json_clean (JStr s) = JStr (to_valid s)"
| "json_clean (JArr js) = JArr (clean_elems js)"
| "json_clean (JObj ms) = JObj (clean_members ms)"
| "json_clean j = j"
| "clean_elems [] = []"
| "clean_elems (j # js) = json_clean j # clean_elems js"
| "clean_members [] = []"
| "clean_members ((k, j) # ms) = (to_valid k, json_clean j) # clean_members ms"

lemma skip_ws_plain: "\<not> is_space c \<Longrightarrow> skip_ws (c # s) = c # s"
  by (simp add: skip_ws_def)

lemma num_first:
  assumes "print_i64 n @ s = c # r"
  shows "is_digit c \<or> c = CHR ''-''"
proof -
  have "is_digit c" if "print_nat k @ s = c # r" for k
    using that print_nat_all_digits [of k] print_nat_nonempty [of k] by (cases "print_nat k") auto
  with assms show ?thesis by (auto simp: print_i64_def split: if_splits)
qed


text \<open>The first character of an encoded value tells the reader what it is.\<close>

lemma skip_ws_punct [simp]:
  "skip_ws (CHR ''{'' # s) = CHR ''{'' # s" "skip_ws (CHR ''['' # s) = CHR ''['' # s"
  "skip_ws (CHR ''}'' # s) = CHR ''}'' # s" "skip_ws (CHR '']'' # s) = CHR '']'' # s"
  "skip_ws (CHR '','' # s) = CHR '','' # s" "skip_ws (CHR '':'' # s) = CHR '':'' # s"
  "skip_ws (quote_char # s) = quote_char # s" "skip_ws (CHR ''n'' # s) = CHR ''n'' # s"
  "skip_ws (CHR ''t'' # s) = CHR ''t'' # s" "skip_ws (CHR ''f'' # s) = CHR ''f'' # s"
  by (simp_all add: skip_ws_def is_space_def)

lemma stops_punct [simp]:
  "stops (CHR '','' # s)" "stops (CHR ''}'' # s)" "stops (CHR '']'' # s)" "stops (CHR 0x0A # s)" "stops []"
  by (simp_all add: stops_def is_digit_def between_def)

lemma print_i64_nonempty [simp]: "print_i64 i \<noteq> []"
  by (simp add: print_i64_def)

lemma json_num:
  assumes "stops s"
  shows "json_value (Suc n) d (print_i64 i @ s) = Some (jint i, s)"
proof -
  obtain c r where c: "print_i64 i @ s = c # r" by (cases "print_i64 i @ s") auto
  then have "is_digit c \<or> c = CHR ''-''" by (rule num_first)
  then have "\<not> is_space c" "c \<notin> {quote_char, CHR ''{'', CHR ''['', CHR ''t'', CHR ''f'', CHR ''n''}"
    by (auto simp: is_space_def is_digit_def between_def)
  with scan_number_print [OF assms, of i] show ?thesis by (simp add: c skip_ws_plain)
qed

lemma elems_first: "elems_ok d js \<Longrightarrow> js \<noteq> [] \<Longrightarrow> \<exists>c r. encode_elems js = c # r \<and> \<not> is_space c \<and> c \<noteq> CHR '']''"
proof (cases js)
  case (Cons j ks)
  assume "elems_ok d js"
  then have ok: "json_ok d j" by (simp add: Cons)
  show ?thesis
  proof (cases j)
    case (JNum t)
    with ok obtain i where t: "t = print_i64 i" by auto
    obtain c r where c: "print_i64 i @ [] = c # r" by (cases "print_i64 i") auto
    from num_first [OF c] have "\<not> is_space c \<and> c \<noteq> CHR '']''" by (auto simp: is_space_def is_digit_def between_def)
    with c show ?thesis by (simp add: Cons JNum t)
  qed (simp_all add: Cons is_space_def)
qed simp

lemma json_read_back:
  "json_ok d j \<Longrightarrow> stops rest \<Longrightarrow> 2 * length (json_encode j @ rest) < n \<Longrightarrow>
     json_value n d (json_encode j @ rest) = Some (json_clean j, rest)"
  "elems_ok d js \<Longrightarrow> js \<noteq> [] \<Longrightarrow> 2 * length (encode_elems js @ CHR '']'' # rest) + 1 < n \<Longrightarrow>
     json_elems n d (encode_elems js @ CHR '']'' # rest) = Some (clean_elems js, rest)"
  "members_ok d ms \<Longrightarrow> ms \<noteq> [] \<Longrightarrow> 2 * length (encode_members ms @ CHR ''}'' # rest) < n \<Longrightarrow>
     json_members n d (encode_members ms @ CHR ''}'' # rest) = Some (clean_members ms, rest)"
proof (induction j and js and ms arbitrary: n d rest and n d rest and n d rest
    rule: json_encode_encode_elems_encode_members.induct)
  case 1
  then show ?case by (cases n) (simp_all add: json_word_def strings_HasPrefix_def)
next
  case (2 b)
  then show ?case by (cases n) (simp_all add: json_word_def strings_HasPrefix_def)
next
  case (3 t)
  then obtain i where "t = print_i64 i" by auto
  with 3 show ?case using json_num [of rest _ d i] by (cases n) auto
next
  case (4 s)
  then show ?case by (cases n) (simp_all add: unquote_quote)
next
  case (5 js)
  then obtain m where n: "n = Suc m" by (cases n) auto
  show ?case
  proof (cases "js = []")
    case False
    obtain c r where c: "encode_elems js = c # r" "\<not> is_space c" "c \<noteq> CHR '']''"
      using elems_first [of "d - 1" js] 5(2) False by auto
    have "json_elems m (d - 1) (encode_elems js @ CHR '']'' # rest) = Some (clean_elems js, rest)"
      by (rule 5(1)) (use 5(2,4) n False in auto)
    with 5(2) c show ?thesis by (simp add: n skip_ws_plain)
  qed (use 5(2) in \<open>simp add: n\<close>)
next
  case (6 ms)
  then obtain m where n: "n = Suc m" by (cases n) auto
  show ?case
  proof (cases "ms = []")
    case False
    obtain r where c: "encode_members ms = quote_char # r" using False by (cases ms) auto
    have "json_members m (d - 1) (encode_members ms @ CHR ''}'' # rest) = Some (clean_members ms, rest)"
      by (rule 6(1)) (use 6(2,4) n False in auto)
    with 6(2) c show ?thesis by (simp add: n)
  qed (use 6(2) in \<open>simp add: n\<close>)
next
  case 7
  then show ?case by simp
next
  case (8 j js)
  then obtain m where n: "n = Suc m" by (cases n) auto
  let ?rest = "(if js = [] then [] else '','' @ encode_elems js) @ CHR '']'' # rest"
  have "json_value m d (json_encode j @ ?rest) = Some (json_clean j, ?rest)"
    by (rule 8(1)) (use 8(3,5) n in auto)
  moreover have "json_elems m d (encode_elems js @ CHR '']'' # rest) = Some (clean_elems js, rest)" if "js \<noteq> []"
    by (rule 8(2)) (use 8(3,5) n that in auto)
  ultimately show ?case by (cases "js = []") (simp_all add: n)
next
  case 9
  then show ?case by simp
next
  case (10 k j ms)
  then obtain m where n: "n = Suc m" by (cases n) auto
  let ?rest = "(if ms = [] then [] else '','' @ encode_members ms) @ CHR ''}'' # rest"
  have "json_value m d (json_encode j @ ?rest) = Some (json_clean j, ?rest)"
    by (rule 10(1)) (use 10(3,5) n in auto)
  moreover have "json_members m d (encode_members ms @ CHR ''}'' # rest) = Some (clean_members ms, rest)" if "ms \<noteq> []"
    by (rule 10(2)) (use 10(3,5) n that in auto)
  ultimately show ?case by (cases "ms = []") (simp_all add: n unquote_quote)
qed

theorem json_decode_encode:
  "json_ok 10000 j \<Longrightarrow> stops rest \<Longrightarrow> json_decode (json_encode j @ rest) = Some (json_clean j)"
  using json_read_back(1) [of 10000 j rest "2 * length (json_encode j @ rest) + 1"]
  unfolding json_decode_def by (simp only: option.map fst_conv less_add_one)

theorem json_decode_encode_witness:
  "json_decode (json_encode (JObj [(''text'', JStr [quote_char, CHR 0xFF])]) @ [CHR 0x0A]) = Some (JObj [(''text'', JStr (quote_char # replacement))])"
proof -
  have "to_valid [quote_char, CHR 0xFF] = quote_char # replacement" "to_valid ''text'' = ''text''"
    by (simp_all add: to_valid.simps rune_len_def between_def)
  with json_decode_encode [of "JObj [(''text'', JStr [quote_char, CHR 0xFF])]" "[CHR 0x0A]"] show ?thesis by simp
qed

section \<open>Members of a struct\<close>

text \<open>
  The names of members are compared as \<open>foldName\<close> maps them: ASCII letters to capitals, and with
  them the two runes that fold to an ASCII letter (U+017F, long s, and U+212A, the Kelvin sign). Any
  other rune stays outside ASCII, so it is left as it is.
\<close>

definition upper_char :: "char \<Rightarrow> char" where
  "upper_char c = (let n = (of_char c :: nat) in if 97 \<le> n \<and> n \<le> 122 then char_of (n - 32) else c)"

fun json_fold :: "string \<Rightarrow> string" where
  "json_fold [] = []"
| "json_fold (c # cs) =
     (if c = CHR 0xC5 \<and> take 1 cs = [CHR 0xBF] then CHR ''S'' # json_fold (drop 1 cs)
      else if c = CHR 0xE2 \<and> take 2 cs = [CHR 0x84, CHR 0xAA] then CHR ''K'' # json_fold (drop 2 cs)
      else upper_char c # json_fold cs)"

end
