(* ===== verification/Http_Api.thy ===== *)
theory Http_Api
  imports Media_Fetch Updates Rate_Limit Json
begin

text \<open>
  Package \<open>httpapi\<close>: the routes (\<open>server.go\<close>), the middleware (\<open>middleware.go\<close>, \<open>ratelimit.go\<close>)
  and the handlers (\<open>chats.go\<close>, \<open>auth.go\<close>) as functions from a request and the server to a response
  and the new server. A response holds the status and the value that is encoded as JSON (its bytes
  are in \<open>Wire\<close>). The standard library's request parsing is taken as done: a request has its path
  segments, header, query values and the bytes of its body.
\<close>

section \<open>Requests and responses\<close>


record request =
  rq_Method :: string
  rq_Path :: "string list"
  rq_Authorization :: string
  rq_Query :: "string \<Rightarrow> string"
  rq_RemoteAddr :: string
  rq_Body :: string

datatype reply =
    ReplyError string
  | ReplyText string
  | ReplyMe tgUser
  | ReplyChats "Chat list"
  | ReplyMessages "Message list"
  | ReplyMsgID goint
  | ReplyStatus string
  | ReplyAuth string string
  | ReplyFile string bytes
  | ReplyUpgrade
  | ReplyPanic

record response =
  rs_Code :: nat
  rs_Reply :: reply
  rs_RetryAfter :: string

record Server =
  sv_cfg :: Config
  sv_br :: Bridge
  sv_authRL :: rateLimiter

text \<open>
  What \<open>websocket.Accept\<close> of the WebSocket library makes of a request: it upgrades the connection, or
  answers with an error of its own, which the code relies on not to look like one of the two the
  middleware gives, 401 and 429.
\<close>

typedef refusal = "{c :: nat. 400 \<le> c \<and> c < 600 \<and> c \<noteq> 401 \<and> c \<noteq> 429}" morphisms refusal_code Refusal
  by (rule exI [of _ 426]) simp

lemma refusal_code_range [simp]:
  "400 \<le> refusal_code c" "refusal_code c < 600" "refusal_code c \<noteq> 401" "refusal_code c \<noteq> 429"
  using refusal_code [of c] by simp_all

datatype handshake = Upgraded | Refused refusal string

text \<open>What surrounds one request: Telegram, the downloads, the clock, what the limiter leaves open,
  and the handshake of an event stream.\<close>

record http_env =
  he_telegram :: telegram
  he_download :: "location \<Rightarrow> put_io"
  he_now :: int
  he_choice :: rl_choice
  he_handshake :: handshake

definition New_server :: "Config \<Rightarrow> Bridge \<Rightarrow> Server" where
  "New_server cfg br = \<lparr>sv_cfg = cfg, sv_br = br, sv_authRL = newRateLimiter 10 5\<rparr>"

definition writeJSON :: "nat \<Rightarrow> reply \<Rightarrow> response" where
  "writeJSON code v = \<lparr>rs_Code = code, rs_Reply = v, rs_RetryAfter = ''''\<rparr>"

definition writeError :: "nat \<Rightarrow> string \<Rightarrow> response" where
  "writeError code msg = writeJSON code (ReplyError msg)"

text \<open>\<open>http.Error\<close> of the standard library, which answers in plain text.\<close>

definition http_Error :: "nat \<Rightarrow> string \<Rightarrow> response" where
  "http_Error code msg = writeJSON code (ReplyText msg)"

lemma write_simps [simp]:
  "rs_Code (writeJSON c v) = c" "rs_Reply (writeJSON c v) = v"
  "rs_Code (writeError c m) = c" "rs_Reply (writeError c m) = ReplyError m"
  "rs_Code (http_Error c m) = c" "rs_Reply (http_Error c m) = ReplyText m"
  by (simp_all add: writeJSON_def writeError_def http_Error_def)

text \<open>
  \<open>json.NewDecoder(r.Body).Decode\<close> into a struct of one field: the members whose name matches the
  field's, ignoring case, are assigned in order, null leaves the field, another type is an error.
  The handlers only ask whether there was an error.
\<close>

fun decode_string_members :: "string \<Rightarrow> (string \<times> json) list \<Rightarrow> string \<Rightarrow> string result" where
  "decode_string_members field [] v = Inr v"
| "decode_string_members field ((k, j) # ms) v =
     (if json_fold k = json_fold field then
        (case j of
           JStr s \<Rightarrow> decode_string_members field ms s
         | JNull \<Rightarrow> decode_string_members field ms v
         | _ \<Rightarrow> Inl (ErrExt ''json: cannot unmarshal into string''))
      else decode_string_members field ms v)"

definition decode_string :: "string \<Rightarrow> string \<Rightarrow> string result" where
  "decode_string field body =
     (case json_decode body of
        None \<Rightarrow> Inl (ErrExt ''json: no value'')
      | Some (JObj ms) \<Rightarrow> decode_string_members field ms ''''
      | Some JNull \<Rightarrow> Inr ''''
      | Some _ \<Rightarrow> Inl (ErrExt ''json: cannot unmarshal into struct''))"

fun decode_int_members :: "string \<Rightarrow> (string \<times> json) list \<Rightarrow> goint \<Rightarrow> goint result" where
  "decode_int_members field [] v = Inr v"
| "decode_int_members field ((k, j) # ms) v =
     (if json_fold k = json_fold field then
        (case j of
           JNum t \<Rightarrow>
             (case parse_int t of
                (n, None) \<Rightarrow> decode_int_members field ms n
              | (_, Some _) \<Rightarrow> Inl (ErrExt ''json: cannot unmarshal number into int''))
         | JNull \<Rightarrow> decode_int_members field ms v
         | _ \<Rightarrow> Inl (ErrExt ''json: cannot unmarshal into int''))
      else decode_int_members field ms v)"

definition decode_int :: "string \<Rightarrow> string \<Rightarrow> goint result" where
  "decode_int field body =
     (case json_decode body of
        None \<Rightarrow> Inl (ErrExt ''json: no value'')
      | Some (JObj ms) \<Rightarrow> decode_int_members field ms 0
      | Some JNull \<Rightarrow> Inr 0
      | Some _ \<Rightarrow> Inl (ErrExt ''json: cannot unmarshal into struct''))"

section \<open>Middleware\<close>

definition bearerToken :: "request \<Rightarrow> string" where
  "bearerToken r =
     (let h = rq_Authorization r in
      if strings_HasPrefix h ''Bearer '' then strings_TrimSpace (drop (length ''Bearer '') h)
      else rq_Query r ''token'')"

text \<open>\<open>net.SplitHostPort\<close>: the host part, or nothing on any of its errors.\<close>

definition split_last_colon :: "string \<Rightarrow> (string \<times> string) option" where
  "split_last_colon s =
     (if CHR '':'' \<in> set s
      then Some (rev (tl (dropWhile (\<lambda>c. c \<noteq> CHR '':'') (rev s))), rev (takeWhile (\<lambda>c. c \<noteq> CHR '':'') (rev s)))
      else None)"

definition split_host :: "string \<Rightarrow> string option" where
  "split_host s =
     (case split_last_colon s of
        None \<Rightarrow> None
      | Some (before, port) \<Rightarrow>
          (if take 1 s = ''['' then
             (let inner = takeWhile (\<lambda>c. c \<noteq> CHR '']'') (tl s) in
              if CHR '']'' \<notin> set s then None
              else if before \<noteq> CHR ''['' # inner @ '']'' then None
              else if CHR ''['' \<in> set (drop 1 s) \<or> CHR '']'' \<in> set port then None
              else Some inner)
           else if CHR '':'' \<in> set before then None
           else if CHR ''['' \<in> set s \<or> CHR '']'' \<in> set s then None
           else Some before))"

definition clientIP :: "request \<Rightarrow> string" where
  "clientIP r = (case split_host (rq_RemoteAddr r) of None \<Rightarrow> rq_RemoteAddr r | Some host \<Rightarrow> host)"

type_synonym handler = "http_env \<Rightarrow> request \<Rightarrow> ClientConfig option \<Rightarrow> Server \<Rightarrow> response \<times> Server"

text \<open>The handler gets the client of the token, as the request's context does in the code.\<close>

definition withAuth :: "handler \<Rightarrow> http_env \<Rightarrow> request \<Rightarrow> Server \<Rightarrow> response \<times> Server" where
  "withAuth h env r s =
     (let token = bearerToken r in
      if token = '''' then (writeError 401 ''missing bearer token'', s)
      else case TokenToClient (sv_cfg s) token of
        None \<Rightarrow> (writeError 401 ''invalid token'', s)
      | Some client \<Rightarrow> h env r (Some client) s)"

definition withRateLimit :: "handler \<Rightarrow> handler" where
  "withRateLimit h env r cl s =
     (case allow (he_choice env) (he_now env) (clientIP r) (sv_authRL s) of
        (ok, rl) \<Rightarrow>
          (let s1 = s\<lparr>sv_authRL := rl\<rparr> in
           if \<not> ok then ((writeError 429 ''rate limited'')\<lparr>rs_RetryAfter := ''60''\<rparr>, s1)
           else h env r cl s1))"

definition clientCanAccess :: "ClientConfig option \<Rightarrow> i64 \<Rightarrow> bool" where
  "clientCanAccess cl chatID =
     (case cl of
        None \<Rightarrow> True
      | Some c \<Rightarrow> if cl_AllowedChats c = [] then True else slice_contains (cl_AllowedChats c) chatID)"

text \<open>
  \<open>pathChatID\<close>: the path value, or the text of the parse error, which quotes the value (the
  escapes of unusual characters are left out).
\<close>

definition pathChatID :: "string \<Rightarrow> i64 result" where
  "pathChatID idStr =
     (case parse_int idStr of
        (n, None) \<Rightarrow> Inr n
      | (_, Some ErrSyntax) \<Rightarrow> Inl (ErrExt (''strconv.ParseInt: parsing '' @ [CHR 0x22] @ idStr @ [CHR 0x22] @ '': invalid syntax''))
      | (_, Some ErrRange) \<Rightarrow> Inl (ErrExt (''strconv.ParseInt: parsing '' @ [CHR 0x22] @ idStr @ [CHR 0x22] @ '': value out of range'')))"

section \<open>Handlers\<close>

definition handleMe :: handler where
  "handleMe env r cl s =
     (case Self (sv_br s) of
        None \<Rightarrow> (writeError 503 ''not authorized yet'', s)
      | Some self \<Rightarrow> (writeJSON 200 (ReplyMe self), s))"

definition handleListChats :: handler where
  "handleListChats env r cl s =
     (if Self (sv_br s) = None then (writeError 503 ''not authorized yet'', s)
      else case ListChats (he_telegram env) (atoi_value (rq_Query r ''limit'')) (sv_br s) of
        (Inl e, b) \<Rightarrow> (writeError 500 (error_text e), s\<lparr>sv_br := b\<rparr>)
      | (Inr chats, b) \<Rightarrow>
          (writeJSON 200 (ReplyChats
             (case cl of
                Some c \<Rightarrow> if cl_AllowedChats c \<noteq> [] then filter (\<lambda>x. chat_ID x \<in> set (cl_AllowedChats c)) chats else chats
              | None \<Rightarrow> chats)), s\<lparr>sv_br := b\<rparr>))"

text \<open>The common beginning of the handlers on one chat: logged in, a valid ID, an allowed chat.\<close>

definition chat_checks :: "string \<Rightarrow> ClientConfig option \<Rightarrow> Server \<Rightarrow> response + i64" where
  "chat_checks pathID cl s =
     (if Self (sv_br s) = None then Inl (writeError 503 ''not authorized yet'')
      else case pathChatID pathID of
        Inl e \<Rightarrow> Inl (writeError 400 (error_text e))
      | Inr chatID \<Rightarrow>
          (if \<not> clientCanAccess cl chatID then Inl (writeError 403 ''chat not allowed'') else Inr chatID))"

definition handleGetMessages :: "string \<Rightarrow> handler" where
  "handleGetMessages pathID env r cl s =
     (case chat_checks pathID cl s of
        Inl resp \<Rightarrow> (resp, s)
      | Inr chatID \<Rightarrow>
          (case GetMessages (he_telegram env) chatID (atoi_value (rq_Query r ''limit''))
                  (atoi_value (rq_Query r ''before'')) (sv_br s) of
             (Inl e, b) \<Rightarrow> (writeError 500 (error_text e), s\<lparr>sv_br := b\<rparr>)
           | (Inr msgs, b) \<Rightarrow> (writeJSON 200 (ReplyMessages msgs), s\<lparr>sv_br := b\<rparr>)))"

definition handleSendMessage :: "string \<Rightarrow> handler" where
  "handleSendMessage pathID env r cl s =
     (case chat_checks pathID cl s of
        Inl resp \<Rightarrow> (resp, s)
      | Inr chatID \<Rightarrow>
          (case decode_string ''text'' (rq_Body r) of
             Inl e \<Rightarrow> (writeError 400 ''text required'', s)
           | Inr t \<Rightarrow>
               (if strings_TrimSpace t = '''' then (writeError 400 ''text required'', s)
                else case SendText (he_telegram env) chatID t (sv_br s) of
                  (Inl e, b) \<Rightarrow> (writeError 502 (error_text e), s\<lparr>sv_br := b\<rparr>)
                | (Inr i, b) \<Rightarrow> (writeJSON 200 (ReplyMsgID i), s\<lparr>sv_br := b\<rparr>))))"

definition handleMarkRead :: "string \<Rightarrow> handler" where
  "handleMarkRead pathID env r cl s =
     (case chat_checks pathID cl s of
        Inl resp \<Rightarrow> (resp, s)
      | Inr chatID \<Rightarrow>
          (case decode_int ''up_to'' (rq_Body r) of
             Inl e \<Rightarrow> (writeError 400 ''up_to required'', s)
           | Inr upTo \<Rightarrow>
               (case MarkRead (he_telegram env) chatID upTo (sv_br s) of
                  (Some e, b) \<Rightarrow> (writeError 502 (error_text e), s\<lparr>sv_br := b\<rparr>)
                | (None, b) \<Rightarrow> (writeJSON 200 (ReplyStatus ''ok''), s\<lparr>sv_br := b\<rparr>))))"

text \<open>\<open>http.ServeFile\<close> answers 404 for a file that does not exist.\<close>

definition handleGetMedia :: "string \<Rightarrow> handler" where
  "handleGetMedia mediaID env r cl s =
     (if mediaID = '''' then (writeError 400 ''media id required'', s)
      else case FetchMedia (he_telegram env) (he_download env) mediaID (sv_br s) of
        (None, b) \<Rightarrow> (writeJSON 0 ReplyPanic, s\<lparr>sv_br := b\<rparr>)
      | (Some (Inl e), b) \<Rightarrow> (writeError 400 (error_text e), s\<lparr>sv_br := b\<rparr>)
      | (Some (Inr (p, mime)), b) \<Rightarrow>
          ((case files (bg_disk b) (snd p) of
              Some data \<Rightarrow> writeJSON 200 (ReplyFile mime data)
            | None \<Rightarrow> http_Error 404 ''404 page not found''), s\<lparr>sv_br := b\<rparr>))"

definition handleAuthStatus :: handler where
  "handleAuthStatus env r cl s =
     (case AuthStatus (sv_br s) of
        (st, err) \<Rightarrow>
          (writeJSON 200 (ReplyAuth (auth_state_string st)
             (case err of None \<Rightarrow> '''' | Some e \<Rightarrow> error_text e)), s))"

text \<open>The three handlers that feed the login: the field, the message without it, and the submission.\<close>

definition auth_submit_handler ::
  "string \<Rightarrow> (string \<Rightarrow> httpAuthenticator \<Rightarrow> chan_panic + (goerr option \<times> httpAuthenticator)) \<Rightarrow> handler" where
  "auth_submit_handler field submit env r cl s =
     (case decode_string field (rq_Body r) of
        Inl e \<Rightarrow> (writeError 400 (field @ '' required''), s)
      | Inr v \<Rightarrow>
          (if v = '''' then (writeError 400 (field @ '' required''), s)
           else case submit v (bg_auth (sv_br s)) of
             Inl p \<Rightarrow> (writeJSON 0 ReplyPanic, s)
           | Inr (err, a) \<Rightarrow>
               (let s1 = s\<lparr>sv_br := (sv_br s)\<lparr>bg_auth := a\<rparr>\<rparr> in
                case err of
                  Some e \<Rightarrow> (writeError 409 (error_text e), s1)
                | None \<Rightarrow> (writeJSON 200 (ReplyStatus ''accepted''), s1))))"

definition handleAuthPhone :: handler where
  "handleAuthPhone = auth_submit_handler ''phone'' Bridge_SubmitPhone"

definition handleAuthCode :: handler where
  "handleAuthCode = auth_submit_handler ''code'' Bridge_SubmitCode"

definition handleAuthPassword :: handler where
  "handleAuthPassword = auth_submit_handler ''password'' Bridge_SubmitPassword"

text \<open>The upgrade of the event stream, or the library's refusal; the loop is in the theory \<open>Ws_Events\<close>.\<close>

definition handleEvents_accept :: handler where
  "handleEvents_accept env r cl s =
     ((case he_handshake env of
         Upgraded \<Rightarrow> writeJSON 101 ReplyUpgrade
       | Refused c m \<Rightarrow> http_Error (refusal_code c) m), s)"

section \<open>Routes\<close>

datatype endpoint =
    AuthStatusRoute | AuthPhoneRoute | AuthCodeRoute | AuthPasswordRoute
  | MeRoute | ListChatsRoute | GetMessagesRoute string | SendMessageRoute string
  | MarkReadRoute string | GetMediaRoute string | EventsRoute

text \<open>The patterns of \<open>registerRoutes\<close>: the method, then the endpoint a path matches. A wildcard
  matches one non-empty segment.\<close>

definition get_route :: "string list \<Rightarrow> endpoint option" where
  "get_route p =
     (case p of
        [v, a] \<Rightarrow>
          (if v \<noteq> ''v1'' then None
           else if a = ''me'' then Some MeRoute
           else if a = ''chats'' then Some ListChatsRoute
           else if a = ''events'' then Some EventsRoute else None)
      | [v, a, b] \<Rightarrow>
          (if v \<noteq> ''v1'' then None
           else if a = ''auth'' \<and> b = ''status'' then Some AuthStatusRoute
           else if a = ''media'' \<and> b \<noteq> '''' then Some (GetMediaRoute b) else None)
      | [v, a, b, c] \<Rightarrow>
          (if v = ''v1'' \<and> a = ''chats'' \<and> b \<noteq> '''' \<and> c = ''messages'' then Some (GetMessagesRoute b) else None)
      | _ \<Rightarrow> None)"

definition post_route :: "string list \<Rightarrow> endpoint option" where
  "post_route p =
     (case p of
        [v, a, b] \<Rightarrow>
          (if v \<noteq> ''v1'' \<or> a \<noteq> ''auth'' then None
           else if b = ''phone'' then Some AuthPhoneRoute
           else if b = ''code'' then Some AuthCodeRoute
           else if b = ''password'' then Some AuthPasswordRoute else None)
      | [v, a, b, c] \<Rightarrow>
          (if v \<noteq> ''v1'' \<or> a \<noteq> ''chats'' \<or> b = '''' then None
           else if c = ''messages'' then Some (SendMessageRoute b)
           else if c = ''read'' then Some (MarkReadRoute b) else None)
      | _ \<Rightarrow> None)"

text \<open>A pattern for GET also matches HEAD.\<close>

definition find_route :: "request \<Rightarrow> endpoint option" where
  "find_route r =
     (if rq_Method r = ''GET'' \<or> rq_Method r = ''HEAD'' then get_route (rq_Path r)
      else if rq_Method r = ''POST'' then post_route (rq_Path r) else None)"

fun limited :: "endpoint \<Rightarrow> bool" where
  "limited AuthStatusRoute = True"
| "limited AuthPhoneRoute = True"
| "limited AuthCodeRoute = True"
| "limited AuthPasswordRoute = True"
| "limited _ = False"

fun inner_handler :: "endpoint \<Rightarrow> handler" where
  "inner_handler AuthStatusRoute = handleAuthStatus"
| "inner_handler AuthPhoneRoute = handleAuthPhone"
| "inner_handler AuthCodeRoute = handleAuthCode"
| "inner_handler AuthPasswordRoute = handleAuthPassword"
| "inner_handler MeRoute = handleMe"
| "inner_handler ListChatsRoute = handleListChats"
| "inner_handler (GetMessagesRoute i) = handleGetMessages i"
| "inner_handler (SendMessageRoute i) = handleSendMessage i"
| "inner_handler (MarkReadRoute i) = handleMarkRead i"
| "inner_handler (GetMediaRoute i) = handleGetMedia i"
| "inner_handler EventsRoute = handleEvents_accept"

definition route_handler :: "endpoint \<Rightarrow> handler" where
  "route_handler ep = (if limited ep then withRateLimit (inner_handler ep) else inner_handler ep)"

definition serve :: "http_env \<Rightarrow> request \<Rightarrow> Server \<Rightarrow> response \<times> Server" where
  "serve env r s =
     (case find_route r of
        Some ep \<Rightarrow> withAuth (route_handler ep) env r s
      | None \<Rightarrow>
          (if get_route (rq_Path r) \<noteq> None \<or> post_route (rq_Path r) \<noteq> None
           then (http_Error 405 ''Method Not Allowed'', s)
           else (http_Error 404 ''404 page not found'', s)))"

section \<open>What a request may do\<close>

definition client_chats :: "ClientConfig \<Rightarrow> i64 set" where
  "client_chats cl = (if cl_AllowedChats cl = [] then UNIV else set (cl_AllowedChats cl))"

definition calls_within :: "i64 set \<Rightarrow> Bridge \<Rightarrow> Bridge \<Rightarrow> bool" where
  "calls_within chats b b' \<longleftrightarrow>
     (\<exists>rs. bg_rpcs b' = bg_rpcs b @ rs \<and> (\<forall>q \<in> set rs. \<forall>i. rpc_chat q = Some i \<longrightarrow> i \<in> chats))"

lemma calls_within_same: "bg_rpcs b' = bg_rpcs b \<Longrightarrow> calls_within chats b b'"
  by (simp add: calls_within_def)

lemma acts_on_calls: "acts_on A b b' \<Longrightarrow> A \<subseteq> chats \<Longrightarrow> calls_within chats b b'"
  unfolding acts_on_def calls_within_def by blast

lemma FetchMedia_calls:
  assumes "FetchMedia T download i b = (r, b')"
  shows "calls_within chats b b'"
  using assms
proof (cases rule: FetchMedia_cases)
  case (hit p mime c)
  then show ?thesis by (intro calls_within_same) simp
next
  case (refused e c)
  then show ?thesis using waitReady_frame by (intro calls_within_same) fastforce
next
  case (fetched c ref b1 q c2 d2)
  have "bg_rpcs b1 = bg_rpcs b" using waitReady_frame [OF fetched(4)] by simp
  with FetchMedia_miss [where download = download, OF fetched(1,2,4,3,5)] assms
  show ?thesis by (auto simp: calls_within_def split: if_splits)
qed

text \<open>A fetch keeps the peer cache, the media store and everything else but the calls.\<close>

lemma FetchMedia_frame:
  assumes "FetchMedia T download i b = (r, b')"
  shows "bg_peerCache b' = bg_peerCache b" "bg_auth b' = bg_auth b" "bg_cfg b' = bg_cfg b" "bg_events b' = bg_events b"
    "bg_mediaKey b' = bg_mediaKey b"
proof -
  have "bg_peerCache b' = bg_peerCache b \<and> bg_auth b' = bg_auth b \<and> bg_cfg b' = bg_cfg b \<and> bg_events b' = bg_events b
    \<and> bg_mediaKey b' = bg_mediaKey b"
    using assms
  proof (cases rule: FetchMedia_cases)
    case (hit p mime c)
    then show ?thesis by simp
  next
    case (refused e c)
    then show ?thesis using waitReady_frame by fastforce
  next
    case (fetched c ref b1 q c2 d2)
    with FetchMedia_miss [where download = download, OF fetched(1,2,4,3,5)] assms waitReady_frame [OF fetched(4)]
    show ?thesis by simp
  qed
  then show "bg_peerCache b' = bg_peerCache b" "bg_auth b' = bg_auth b" "bg_cfg b' = bg_cfg b" "bg_events b' = bg_events b"
    "bg_mediaKey b' = bg_mediaKey b" by simp_all
qed

lemma FetchMedia_good:
  assumes good: "media_good b" and f: "FetchMedia T download i b = (r, b')"
  shows "media_good b'"
  using f
proof (cases rule: FetchMedia_cases)
  case (hit p mime c)
  then show ?thesis using Get_media_good [OF good hit(1)] by simp
next
  case (refused e c)
  note g = Get_media_good [OF good refused(1)]
  from refused(3) show ?thesis
  proof
    assume "b' = b\<lparr>bg_mediaCache := c\<rparr>"
    with g show ?thesis by simp
  next
    assume "\<exists>x. waitReady T (b\<lparr>bg_mediaCache := c\<rparr>) = (x, b')"
    then obtain x where w: "waitReady T (b\<lparr>bg_mediaCache := c\<rparr>) = (x, b')" ..
    from g waitReady_frame [OF w] show ?thesis by (simp add: media_good_def)
  qed
next
  case (fetched c ref b1 q c2 d2)
  have "media_good (b\<lparr>bg_mediaCache := c\<rparr>)" by (rule Get_media_good [OF good fetched(1)])
  then have "cache_good (bg_mediaCache b1, bg_disk b1)" using waitReady_frame [OF fetched(4)] by (simp add: media_good_def)
  from good_Put [OF this fetched(5)] FetchMedia_miss [where download = download, OF fetched(1,2,4,3,5)] f
  show ?thesis by (auto simp: media_good_def)
qed

lemma acts_on_media: "acts_on A b b' \<Longrightarrow> media_good b \<Longrightarrow> media_good b'"
  by (simp add: acts_on_def media_good_def)

section \<open>The invariant of the server\<close>

definition auth_chans_ok :: "httpAuthenticator \<Rightarrow> bool" where
  "auth_chans_ok a \<longleftrightarrow> prompt_chan (au_phoneCh a) \<and> prompt_chan (au_codeCh a) \<and> prompt_chan (au_passwdCh a)"

definition bridge_ok :: "Bridge \<Rightarrow> bool" where
  "bridge_ok b \<longleftrightarrow> peers_ok b \<and> media_good b \<and> auth_chans_ok (bg_auth b)"

lemma acts_on_bridge_ok: "acts_on A b b' \<Longrightarrow> bridge_ok b \<Longrightarrow> bridge_ok b'"
  by (auto simp: bridge_ok_def acts_on_media) (auto simp: acts_on_def)

lemma fetch_bridge_ok: "FetchMedia T download i b = (r, b') \<Longrightarrow> bridge_ok b \<Longrightarrow> bridge_ok b'"
  using FetchMedia_good [of b T download i r b'] FetchMedia_frame [of T download i b r b']
  by (simp add: bridge_ok_def peers_ok_def)

text \<open>A submission keeps the three channels and never panics.\<close>

definition submit_ok :: "(string \<Rightarrow> httpAuthenticator \<Rightarrow> chan_panic + (goerr option \<times> httpAuthenticator)) \<Rightarrow> bool" where
  "submit_ok submit \<longleftrightarrow>
     (\<forall>v a. auth_chans_ok a \<longrightarrow> (\<exists>err a'. submit v a = Inr (err, a') \<and> auth_chans_ok a'))"

lemma trySend_ok: "prompt_chan c \<Longrightarrow> \<exists>ok c'. trySend c v = Inr (ok, c') \<and> prompt_chan c'"
  using prompt_send(1) [of c v] by (auto simp: trySend_def prompt_chan_def chan_try_send_def)

lemma submits_ok: "submit_ok Bridge_SubmitPhone" "submit_ok Bridge_SubmitCode" "submit_ok Bridge_SubmitPassword"
proof -
  show "submit_ok Bridge_SubmitPhone" unfolding submit_ok_def
  proof (intro allI impI)
    fix v a assume a: "auth_chans_ok a"
    then obtain ok c' where "trySend (au_phoneCh a) v = Inr (ok, c')" "prompt_chan c'"
      using trySend_ok [of "au_phoneCh a" v] by (auto simp: auth_chans_ok_def)
    with a show "\<exists>err a'. Bridge_SubmitPhone v a = Inr (err, a') \<and> auth_chans_ok a'"
      by (simp add: Bridge_SubmitPhone_def SubmitPhone_def submit_result_def auth_chans_ok_def)
  qed
  show "submit_ok Bridge_SubmitCode" unfolding submit_ok_def
  proof (intro allI impI)
    fix v a assume a: "auth_chans_ok a"
    then obtain ok c' where "trySend (au_codeCh a) v = Inr (ok, c')" "prompt_chan c'"
      using trySend_ok [of "au_codeCh a" v] by (auto simp: auth_chans_ok_def)
    with a show "\<exists>err a'. Bridge_SubmitCode v a = Inr (err, a') \<and> auth_chans_ok a'"
      by (simp add: Bridge_SubmitCode_def SubmitCode_def submit_result_def auth_chans_ok_def)
  qed
  show "submit_ok Bridge_SubmitPassword" unfolding submit_ok_def
  proof (intro allI impI)
    fix v a assume a: "auth_chans_ok a"
    then obtain ok c' where "trySend (au_passwdCh a) v = Inr (ok, c')" "prompt_chan c'"
      using trySend_ok [of "au_passwdCh a" v] by (auto simp: auth_chans_ok_def)
    with a show "\<exists>err a'. Bridge_SubmitPassword v a = Inr (err, a') \<and> auth_chans_ok a'"
      by (simp add: Bridge_SubmitPassword_def SubmitPassword_def submit_result_def auth_chans_ok_def)
  qed
qed

text \<open>
  \<open>handler_ok chats resp s s'\<close>: what every handler keeps and promises to a client that may see
  the given chats.
\<close>

definition handler_ok :: "i64 set \<Rightarrow> response \<Rightarrow> Server \<Rightarrow> Server \<Rightarrow> bool" where
  "handler_ok chats resp s s' \<longleftrightarrow>
     bridge_ok (sv_br s') \<and> sv_cfg s' = sv_cfg s \<and> sv_authRL s' = sv_authRL s
   \<and> calls_within chats (sv_br s) (sv_br s') \<and> rs_Reply resp \<noteq> ReplyPanic \<and> rs_Code resp \<notin> {401, 429}
   \<and> (\<forall>cs. rs_Reply resp = ReplyChats cs \<longrightarrow> chat_ID ` set cs \<subseteq> chats)
   \<and> (\<forall>ms. rs_Reply resp = ReplyMessages ms \<longrightarrow> out_ChatID ` set ms \<subseteq> chats)"

lemma handler_ok_plain:
  "bridge_ok (sv_br s) \<Longrightarrow> rs_Reply resp \<notin> {ReplyPanic} \<union> range ReplyChats \<union> range ReplyMessages \<Longrightarrow>
   rs_Code resp \<notin> {401, 429} \<Longrightarrow> handler_ok chats resp s s"
  by (auto simp: handler_ok_def calls_within_def)

lemma handler_ok_acts:
  assumes "acts_on A (sv_br s) b" and "A \<subseteq> chats" and "bridge_ok (sv_br s)" and "rs_Reply resp \<noteq> ReplyPanic"
    and "rs_Code resp \<notin> {401, 429}"
    and "\<And>cs. rs_Reply resp = ReplyChats cs \<Longrightarrow> chat_ID ` set cs \<subseteq> chats"
    and "\<And>ms. rs_Reply resp = ReplyMessages ms \<Longrightarrow> out_ChatID ` set ms \<subseteq> chats"
  shows "handler_ok chats resp s (s\<lparr>sv_br := b\<rparr>)"
  using assms acts_on_bridge_ok [OF assms(1,3)] acts_on_calls [OF assms(1,2)] by (simp add: handler_ok_def)

lemma clientCanAccess_iff: "clientCanAccess (Some cl) i \<longleftrightarrow> i \<in> client_chats cl"
  by (simp add: clientCanAccess_def client_chats_def)

lemma chat_checks_cases:
  assumes "chat_checks p (Some cl) s = x"
  obtains (stop) c m where "x = Inl (writeError c m)" "c \<notin> {401, 429}" | (ok) i where "x = Inr i" "i \<in> client_chats cl"
  using assms by (auto simp: chat_checks_def clientCanAccess_iff split: if_splits sum.splits)

lemma history_chat: "m \<in> set (history_loop key i U ms) \<Longrightarrow> out_ChatID m = i"
  by (induction ms rule: history_loop.induct [of _ key i U])
    (auto simp: history_message_def with_sender_def Let_def split: option.splits Peer.splits)

lemma GetMessages_chat: "GetMessages T i l o' b = (Inr ms, b') \<Longrightarrow> out_ChatID ` set ms \<subseteq> {i}"
  by (auto simp: GetMessages_def history_chat split: prod.splits option.splits sum.splits)

section \<open>Every handler keeps the invariant\<close>

lemma handleMe_ok: "bridge_ok (sv_br s) \<Longrightarrow> handleMe env r cl s = (resp, s') \<Longrightarrow> handler_ok chats resp s s'"
  by (auto simp: handleMe_def intro!: handler_ok_plain split: option.splits)

lemma handleListChats_ok:
  assumes "bridge_ok (sv_br s)" and "handleListChats env r (Some cl) s = (resp, s')"
  shows "handler_ok (client_chats cl) resp s s'"
proof (cases "Self (sv_br s) = None")
  case True
  then show ?thesis using assms by (auto simp: handleListChats_def intro: handler_ok_plain)
next
  case False
  obtain x b where l: "ListChats (he_telegram env) (atoi_value (rq_Query r ''limit'')) (sv_br s) = (x, b)"
    by (cases "ListChats (he_telegram env) (atoi_value (rq_Query r ''limit'')) (sv_br s)")
  have "peers_ok (sv_br s)" using assms(1) by (simp add: bridge_ok_def)
  note a = ListChats_acts [OF this l]
  show ?thesis
  proof (cases x)
    case (Inl e)
    then have "resp = writeError 500 (error_text e)" "s' = s\<lparr>sv_br := b\<rparr>"
      using assms(2) False l by (simp_all add: handleListChats_def)
    then show ?thesis by (simp only:) (rule handler_ok_acts [OF a _ assms(1)]; simp)
  next
    case (Inr cs)
    then have resp: "resp = writeJSON 200 (ReplyChats (if cl_AllowedChats cl \<noteq> [] then filter (\<lambda>x. chat_ID x \<in> set (cl_AllowedChats cl)) cs else cs))"
      and s': "s' = s\<lparr>sv_br := b\<rparr>"
      using assms(2) False l by (simp_all add: handleListChats_def)
    show ?thesis unfolding s' by (rule handler_ok_acts [OF a _ assms(1)]) (auto simp: resp client_chats_def)
  qed
qed

text \<open>A handler on one chat stops at a check, or calls Telegram about an allowed chat.\<close>

lemma chat_ok_acts:
  assumes "bridge_ok (sv_br s)" and "i \<in> client_chats cl" and "acts_on {i} (sv_br s) b" and "rs_Reply resp \<noteq> ReplyPanic"
    and "rs_Code resp \<notin> {401, 429}" and "\<And>cs. rs_Reply resp \<noteq> ReplyChats cs"
    and "\<And>ms. rs_Reply resp = ReplyMessages ms \<Longrightarrow> out_ChatID ` set ms \<subseteq> {i}"
  shows "handler_ok (client_chats cl) resp s (s\<lparr>sv_br := b\<rparr>)"
proof (rule handler_ok_acts [OF assms(3) _ assms(1,4,5)])
  show "out_ChatID ` set ms \<subseteq> client_chats cl" if "rs_Reply resp = ReplyMessages ms" for ms
    using assms(2) assms(7) [OF that] by blast
qed (use assms(2,6) in simp_all)

lemma bridge_ok_peers: "bridge_ok b \<Longrightarrow> peers_ok b"
  by (simp add: bridge_ok_def)

lemma handleGetMessages_ok:
  assumes ok: "bridge_ok (sv_br s)" and h: "handleGetMessages p env r (Some cl) s = (resp, s')"
  shows "handler_ok (client_chats cl) resp s s'"
  using refl
proof (cases rule: chat_checks_cases [where p = p and cl = cl and s = s])
  case (stop c m)
  with h ok show ?thesis by (auto simp: handleGetMessages_def intro!: handler_ok_plain)
next
  case (ok i)
  obtain x b where g: "GetMessages (he_telegram env) i (atoi_value (rq_Query r ''limit''))
      (atoi_value (rq_Query r ''before'')) (sv_br s) = (x, b)" by (metis prod.exhaust)
  have s': "s' = s\<lparr>sv_br := b\<rparr>"
    and resp: "resp = (case x of Inl e \<Rightarrow> writeError 500 (error_text e) | Inr ms \<Rightarrow> writeJSON 200 (ReplyMessages ms))"
    using h ok(1) g by (auto simp: handleGetMessages_def split: sum.splits)
  have "out_ChatID ` set ms \<subseteq> {i}" if "rs_Reply resp = ReplyMessages ms" for ms
    using that GetMessages_chat g by (cases x) (auto simp: resp)
  with chat_ok_acts [OF assms(1) ok(2) GetMessages_acts [OF bridge_ok_peers [OF assms(1)] g], of resp]
  show ?thesis unfolding s' by (cases x) (simp_all add: resp)
qed

lemma handleSendMessage_ok:
  assumes ok: "bridge_ok (sv_br s)" and h: "handleSendMessage p env r (Some cl) s = (resp, s')"
  shows "handler_ok (client_chats cl) resp s s'"
  using refl
proof (cases rule: chat_checks_cases [where p = p and cl = cl and s = s])
  case (stop c m)
  with h ok show ?thesis by (auto simp: handleSendMessage_def intro!: handler_ok_plain)
next
  case (ok i)
  show ?thesis
  proof (cases "\<exists>t. decode_string ''text'' (rq_Body r) = Inr t \<and> strings_TrimSpace t \<noteq> ''''")
    case False
    then have "resp = writeError 400 ''text required''" "s' = s"
      using h ok(1) by (auto simp: handleSendMessage_def split: sum.splits)
    then show ?thesis using assms(1) by (auto intro: handler_ok_plain)
  next
    case True
    then obtain t where t: "decode_string ''text'' (rq_Body r) = Inr t" "strings_TrimSpace t \<noteq> ''''" by blast
    obtain x b where g: "SendText (he_telegram env) i t (sv_br s) = (x, b)" by (metis prod.exhaust)
    have s': "s' = s\<lparr>sv_br := b\<rparr>"
      and resp: "resp = (case x of Inl e \<Rightarrow> writeError 502 (error_text e) | Inr n \<Rightarrow> writeJSON 200 (ReplyMsgID n))"
      using h ok(1) t g by (auto simp: handleSendMessage_def split: sum.splits)
    from chat_ok_acts [OF assms(1) ok(2) SendText_acts [OF bridge_ok_peers [OF assms(1)] g], of resp]
    show ?thesis unfolding s' by (cases x) (simp_all add: resp)
  qed
qed

lemma handleMarkRead_ok:
  assumes ok: "bridge_ok (sv_br s)" and h: "handleMarkRead p env r (Some cl) s = (resp, s')"
  shows "handler_ok (client_chats cl) resp s s'"
  using refl
proof (cases rule: chat_checks_cases [where p = p and cl = cl and s = s])
  case (stop c m)
  with h ok show ?thesis by (auto simp: handleMarkRead_def intro!: handler_ok_plain)
next
  case (ok i)
  show ?thesis
  proof (cases "decode_int ''up_to'' (rq_Body r)")
    case (Inl e)
    then have "resp = writeError 400 ''up_to required''" "s' = s"
      using h ok(1) by (auto simp: handleMarkRead_def)
    then show ?thesis using assms(1) by (auto intro: handler_ok_plain)
  next
    case (Inr n)
    obtain x b where g: "MarkRead (he_telegram env) i n (sv_br s) = (x, b)" by (metis prod.exhaust)
    have s': "s' = s\<lparr>sv_br := b\<rparr>"
      and resp: "resp = (case x of Some e \<Rightarrow> writeError 502 (error_text e) | None \<Rightarrow> writeJSON 200 (ReplyStatus ''ok''))"
      using h ok(1) Inr g by (auto simp: handleMarkRead_def split: option.splits)
    from chat_ok_acts [OF assms(1) ok(2) MarkRead_acts [OF bridge_ok_peers [OF assms(1)] g], of resp]
    show ?thesis unfolding s' by (cases x) (simp_all add: resp)
  qed
qed

lemma FetchMedia_returns: "FetchMedia T download i b = (x, b') \<Longrightarrow> \<exists>y. x = Some y"
  using decode_total [of "bg_mediaKey b" i]
  by (auto simp: FetchMedia_def Let_def split: prod.splits option.splits sum.splits if_splits)

lemma handleGetMedia_ok:
  assumes ok: "bridge_ok (sv_br s)" and h: "handleGetMedia i env r cl s = (resp, s')"
  shows "handler_ok chats resp s s'"
proof (cases "i = ''''")
  case True
  then show ?thesis using h ok by (auto simp: handleGetMedia_def intro: handler_ok_plain)
next
  case False
  obtain x b where f: "FetchMedia (he_telegram env) (he_download env) i (sv_br s) = (x, b)" by (metis prod.exhaust)
  obtain y where x: "x = Some y" using FetchMedia_returns [OF f] by blast
  have "s' = s\<lparr>sv_br := b\<rparr>" "rs_Reply resp \<noteq> ReplyPanic" "rs_Code resp \<in> {200, 400, 404}"
    "\<And>cs. rs_Reply resp \<noteq> ReplyChats cs" "\<And>ms. rs_Reply resp \<noteq> ReplyMessages ms"
    using h False f x by (auto simp: handleGetMedia_def split: sum.splits option.splits)
  then show ?thesis using fetch_bridge_ok [OF f ok] FetchMedia_calls [OF f] by (auto simp: handler_ok_def)
qed

lemma handleAuthStatus_ok: "bridge_ok (sv_br s) \<Longrightarrow> handleAuthStatus env r cl s = (resp, s') \<Longrightarrow> handler_ok chats resp s s'"
  by (auto simp: handleAuthStatus_def intro!: handler_ok_plain split: prod.splits)

lemma auth_submit_ok:
  assumes sub: "submit_ok submit" and ok: "bridge_ok (sv_br s)" and h: "auth_submit_handler f submit env r cl s = (resp, s')"
  shows "handler_ok chats resp s s'"
proof (cases "\<exists>v. decode_string f (rq_Body r) = Inr v \<and> v \<noteq> ''''")
  case False
  then have "resp = writeError 400 (f @ '' required'')" "s' = s"
    using h by (auto simp: auth_submit_handler_def split: sum.splits)
  then show ?thesis using ok by (auto intro: handler_ok_plain)
next
  case True
  then obtain v where v: "decode_string f (rq_Body r) = Inr v" "v \<noteq> ''''" by blast
  obtain err a where a: "submit v (bg_auth (sv_br s)) = Inr (err, a)" "auth_chans_ok a"
    using sub ok unfolding submit_ok_def bridge_ok_def by blast
  have s': "s' = s\<lparr>sv_br := (sv_br s)\<lparr>bg_auth := a\<rparr>\<rparr>"
    and resp: "resp = (case err of Some e \<Rightarrow> writeError 409 (error_text e) | None \<Rightarrow> writeJSON 200 (ReplyStatus ''accepted''))"
    using h v a by (auto simp: auth_submit_handler_def Let_def split: option.splits)
  have "bridge_ok ((sv_br s)\<lparr>bg_auth := a\<rparr>)"
    using ok a(2) by (simp add: bridge_ok_def peers_ok_def media_good_def)
  then show ?thesis by (cases err) (simp_all add: s' resp handler_ok_def calls_within_same)
qed

theorem inner_handler_ok:
  assumes "bridge_ok (sv_br s)" and "inner_handler ep env r (Some cl) s = (resp, s')"
  shows "handler_ok (client_chats cl) resp s s'"
proof (cases ep)
  case EventsRoute
  with assms show ?thesis by (auto simp: handleEvents_accept_def intro!: handler_ok_plain split: handshake.splits)
qed (use assms in \<open>auto simp: handleAuthPhone_def handleAuthCode_def handleAuthPassword_def
  intro: handleMe_ok handleListChats_ok handleGetMessages_ok handleSendMessage_ok handleMarkRead_ok handleGetMedia_ok
    handleAuthStatus_ok auth_submit_ok [OF submits_ok(1)] auth_submit_ok [OF submits_ok(2)] auth_submit_ok [OF submits_ok(3)]\<close>)

section \<open>Requests\<close>

text \<open>The client a request's token stands for.\<close>

definition client_of :: "Config \<Rightarrow> request \<Rightarrow> ClientConfig option" where
  "client_of cfg r = (if bearerToken r = '''' then None else TokenToClient cfg (bearerToken r))"

lemma serve_routed:
  "find_route r = Some ep \<Longrightarrow> client_of (sv_cfg s) r = Some cl \<Longrightarrow> serve env r s = route_handler ep env r (Some cl) s"
  by (auto simp: serve_def withAuth_def client_of_def Let_def split: if_splits)

lemma serve_refused:
  assumes "find_route r = None \<or> client_of (sv_cfg s) r = None"
  shows "\<exists>c m. serve env r s = ((if c = 401 then writeError c m else http_Error c m), s) \<and> c \<in> {401, 404, 405}
    \<and> (c = 401 \<longleftrightarrow> find_route r \<noteq> None)"
proof (cases "find_route r")
  case None
  then show ?thesis
    by (intro exI [of _ "if get_route (rq_Path r) \<noteq> None \<or> post_route (rq_Path r) \<noteq> None then 405 else 404"]
        exI [of _ "if get_route (rq_Path r) \<noteq> None \<or> post_route (rq_Path r) \<noteq> None then ''Method Not Allowed''
          else ''404 page not found''"]) (simp add: serve_def)
next
  case (Some ep)
  with assms have "client_of (sv_cfg s) r = None" by simp
  with Some show ?thesis by (auto simp: serve_def withAuth_def client_of_def Let_def split: if_splits)
qed

lemma route_handler_cases:
  assumes "route_handler ep env r (Some cl) s = (resp, s')"
  obtains (free) "\<not> limited ep" "inner_handler ep env r (Some cl) s = (resp, s')"
  | (limited_out) rl where "limited ep" "allow (he_choice env) (he_now env) (clientIP r) (sv_authRL s) = (False, rl)"
      "s' = s\<lparr>sv_authRL := rl\<rparr>" "rs_Code resp = 429" "\<exists>m. rs_Reply resp = ReplyError m"
  | (admitted) rl where "limited ep" "allow (he_choice env) (he_now env) (clientIP r) (sv_authRL s) = (True, rl)"
      "inner_handler ep env r (Some cl) (s\<lparr>sv_authRL := rl\<rparr>) = (resp, s')"
  using assms by (auto simp: route_handler_def withRateLimit_def Let_def split: prod.splits if_splits)

text \<open>One request, as the invariant of the server sees it.\<close>

lemma serve_step:
  assumes ok: "bridge_ok (sv_br s)" and h: "serve env r s = (resp, s')"
  shows "bridge_ok (sv_br s')" "sv_cfg s' = sv_cfg s" "rs_Reply resp \<noteq> ReplyPanic"
    "\<And>cl. client_of (sv_cfg s) r = Some cl \<Longrightarrow> calls_within (client_chats cl) (sv_br s) (sv_br s')
       \<and> (\<forall>cs. rs_Reply resp = ReplyChats cs \<longrightarrow> chat_ID ` set cs \<subseteq> client_chats cl)
       \<and> (\<forall>ms. rs_Reply resp = ReplyMessages ms \<longrightarrow> out_ChatID ` set ms \<subseteq> client_chats cl)"
    "rs_Code resp = 401 \<longleftrightarrow> find_route r \<noteq> None \<and> client_of (sv_cfg s) r = None"
proof -
  let ?kept = "bridge_ok (sv_br s') \<and> sv_cfg s' = sv_cfg s \<and> rs_Reply resp \<noteq> ReplyPanic"
  let ?within = "\<lambda>cl. calls_within (client_chats cl) (sv_br s) (sv_br s')
       \<and> (\<forall>cs. rs_Reply resp = ReplyChats cs \<longrightarrow> chat_ID ` set cs \<subseteq> client_chats cl)
       \<and> (\<forall>ms. rs_Reply resp = ReplyMessages ms \<longrightarrow> out_ChatID ` set ms \<subseteq> client_chats cl)"
  let ?code = "rs_Code resp = 401 \<longleftrightarrow> find_route r \<noteq> None \<and> client_of (sv_cfg s) r = None"
  have "?kept \<and> (\<forall>cl. client_of (sv_cfg s) r = Some cl \<longrightarrow> ?within cl) \<and> ?code"
  proof (cases "find_route r = None \<or> client_of (sv_cfg s) r = None")
    case True
    then obtain c m where c: "serve env r s = ((if c = 401 then writeError c m else http_Error c m), s)"
      "c = 401 \<longleftrightarrow> find_route r \<noteq> None"
      using serve_refused by blast
    with h have "s' = s" "rs_Code resp = c" "rs_Reply resp \<in> {ReplyError m, ReplyText m}" by auto
    with True c(2) ok show ?thesis by (auto simp: calls_within_same)
  next
    case False
    then obtain ep cl where ep: "find_route r = Some ep" and cl: "client_of (sv_cfg s) r = Some cl" by auto
    have rh: "route_handler ep env r (Some cl) s = (resp, s')" using h serve_routed [OF ep cl] by simp
    then have "?kept \<and> ?within cl \<and> rs_Code resp \<noteq> 401"
    proof (cases rule: route_handler_cases)
      case free
      from inner_handler_ok [OF ok free(2)] show ?thesis by (simp add: handler_ok_def)
    next
      case (limited_out rl)
      then show ?thesis using ok by (auto simp: calls_within_same)
    next
      case (admitted rl)
      from inner_handler_ok [OF _ admitted(3)] ok show ?thesis by (simp add: handler_ok_def)
    qed
    with ep cl show ?thesis by simp
  qed
  then show "bridge_ok (sv_br s')" "sv_cfg s' = sv_cfg s" "rs_Reply resp \<noteq> ReplyPanic"
    "\<And>cl. client_of (sv_cfg s) r = Some cl \<Longrightarrow> ?within cl" ?code by blast+
qed

text \<open>Requests that the limiter counts, and what it is asked.\<close>

definition auth_attempt :: "request \<Rightarrow> bool" where
  "auth_attempt r = (case find_route r of Some ep \<Rightarrow> limited ep | None \<Rightarrow> False)"

definition limiter_request :: "Config \<Rightarrow> http_env \<times> request \<Rightarrow> request_at list" where
  "limiter_request cfg q =
     (case q of (env, r) \<Rightarrow>
        if auth_attempt r \<and> client_of cfg r \<noteq> None then [(he_now env, clientIP r, he_choice env)] else [])"

lemma serve_limiter:
  assumes ok: "bridge_ok (sv_br s)" and h: "serve env r s = (resp, s')"
  shows "rl_run (limiter_request (sv_cfg s) (env, r)) (sv_authRL s)
      = (map (\<lambda>q. (q, rs_Code resp \<noteq> 429)) (limiter_request (sv_cfg s) (env, r)), sv_authRL s')"
    "auth_attempt r \<and> rs_Code resp \<notin> {401, 429}
      \<longleftrightarrow> limiter_request (sv_cfg s) (env, r) \<noteq> [] \<and> rs_Code resp \<noteq> 429"
proof -
  let ?goal = "rl_run (limiter_request (sv_cfg s) (env, r)) (sv_authRL s)
      = (map (\<lambda>q. (q, rs_Code resp \<noteq> 429)) (limiter_request (sv_cfg s) (env, r)), sv_authRL s')
    \<and> (auth_attempt r \<and> rs_Code resp \<notin> {401, 429}
      \<longleftrightarrow> limiter_request (sv_cfg s) (env, r) \<noteq> [] \<and> rs_Code resp \<noteq> 429)"
  have ?goal
  proof (cases "find_route r = None \<or> client_of (sv_cfg s) r = None")
    case True
    then have "limiter_request (sv_cfg s) (env, r) = []" by (auto simp: limiter_request_def auth_attempt_def)
    moreover have "s' = s" using serve_refused [OF True, of env] h by auto
    moreover have "auth_attempt r \<Longrightarrow> rs_Code resp = 401"
      using serve_step(5) [OF ok h] True by (auto simp: auth_attempt_def)
    ultimately show ?thesis by auto
  next
    case False
    then obtain ep cl where ep: "find_route r = Some ep" and cl: "client_of (sv_cfg s) r = Some cl" by auto
    have "rs_Code resp \<noteq> 401" using serve_step(5) [OF ok h] cl by simp
    have "route_handler ep env r (Some cl) s = (resp, s')" using h serve_routed [OF ep cl] by simp
    then show ?thesis
    proof (cases rule: route_handler_cases)
      case free
      from inner_handler_ok [OF ok free(2)] free ep show ?thesis
        by (simp add: handler_ok_def limiter_request_def auth_attempt_def)
    next
      case (limited_out rl)
      then show ?thesis using ep cl by (simp add: limiter_request_def auth_attempt_def)
    next
      case (admitted rl)
      from inner_handler_ok [OF _ admitted(3)] ok admitted ep cl show ?thesis
        by (simp add: handler_ok_def limiter_request_def auth_attempt_def)
    qed
  qed
  then show "rl_run (limiter_request (sv_cfg s) (env, r)) (sv_authRL s)
      = (map (\<lambda>q. (q, rs_Code resp \<noteq> 429)) (limiter_request (sv_cfg s) (env, r)), sv_authRL s')"
    "auth_attempt r \<and> rs_Code resp \<notin> {401, 429}
      \<longleftrightarrow> limiter_request (sv_cfg s) (env, r) \<noteq> [] \<and> rs_Code resp \<noteq> 429" by blast+
qed

fun serve_all :: "(http_env \<times> request) list \<Rightarrow> Server \<Rightarrow> response list \<times> Server" where
  "serve_all [] s = ([], s)"
| "serve_all ((env, r) # qs) s =
     (case serve env r s of (resp, s1) \<Rightarrow> (case serve_all qs s1 of (resps, s2) \<Rightarrow> (resp # resps, s2)))"

definition attempts_of :: "string \<Rightarrow> (http_env \<times> request) list \<Rightarrow> response list \<Rightarrow> nat" where
  "attempts_of ip qs resps =
     length (filter (\<lambda>((env, r), resp). clientIP r = ip \<and> auth_attempt r \<and> rs_Code resp \<notin> {401, 429}) (zip qs resps))"

lemma serve_all_limiter:
  assumes "bridge_ok (sv_br s)" and "serve_all qs s = (resps, s')"
  shows "bridge_ok (sv_br s')" "sv_cfg s' = sv_cfg s" "length resps = length qs"
    "\<And>resp. resp \<in> set resps \<Longrightarrow> rs_Reply resp \<noteq> ReplyPanic"
    "\<exists>out. rl_run (concat (map (limiter_request (sv_cfg s)) qs)) (sv_authRL s) = (out, sv_authRL s')
       \<and> (\<forall>ip. attempts_of ip qs resps = allowed_for ip out)"
proof -
  have "bridge_ok (sv_br s') \<and> sv_cfg s' = sv_cfg s \<and> length resps = length qs
    \<and> (\<forall>resp \<in> set resps. rs_Reply resp \<noteq> ReplyPanic)
    \<and> (\<exists>out. rl_run (concat (map (limiter_request (sv_cfg s)) qs)) (sv_authRL s) = (out, sv_authRL s')
         \<and> (\<forall>ip. attempts_of ip qs resps = allowed_for ip out))"
    using assms
  proof (induction qs arbitrary: s resps)
    case Nil
    then show ?case by (simp add: attempts_of_def allowed_for_def)
  next
    case (Cons q qs)
    obtain env r where q: "q = (env, r)" by (cases q)
    obtain resp s1 where h: "serve env r s = (resp, s1)" by (cases "serve env r s")
    obtain rest where rest: "serve_all qs s1 = (rest, s')" "resps = resp # rest"
      using Cons.prems(2) q h by (auto split: prod.splits)
    note st = serve_step [OF Cons.prems(1) h] and li = serve_limiter [OF Cons.prems(1) h]
    from Cons.IH [OF st(1) rest(1)] st(2) obtain out where IH: "bridge_ok (sv_br s')" "sv_cfg s' = sv_cfg s"
      "length rest = length qs" "\<forall>resp \<in> set rest. rs_Reply resp \<noteq> ReplyPanic"
      "rl_run (concat (map (limiter_request (sv_cfg s)) qs)) (sv_authRL s1) = (out, sv_authRL s')"
      "\<And>ip. attempts_of ip qs rest = allowed_for ip out" by auto
    let ?o = "map (\<lambda>q. (q, rs_Code resp \<noteq> 429)) (limiter_request (sv_cfg s) (env, r))"
    have "rl_run (concat (map (limiter_request (sv_cfg s)) (q # qs))) (sv_authRL s) = (?o @ out, sv_authRL s')"
      using li(1) IH(5) by (simp add: q rl_run_append)
    moreover have "attempts_of ip (q # qs) resps = allowed_for ip (?o @ out)" for ip
    proof -
      have "allowed_for ip ?o = (if clientIP r = ip \<and> auth_attempt r \<and> rs_Code resp \<notin> {401, 429} then 1 else 0)"
        unfolding li(2) by (simp add: allowed_for_def limiter_request_def)
      moreover have "allowed_for ip (?o @ out) = allowed_for ip ?o + allowed_for ip out" by (simp add: allowed_for_def)
      moreover have "attempts_of ip (q # qs) resps =
          (if clientIP r = ip \<and> auth_attempt r \<and> rs_Code resp \<notin> {401, 429} then 1 else 0) + attempts_of ip qs rest"
        by (simp add: attempts_of_def q rest(2))
      ultimately show ?thesis using IH(6) by simp
    qed
    ultimately show ?case using IH(1-4) st(3) rest(2) by auto
  qed
  then show "bridge_ok (sv_br s')" "sv_cfg s' = sv_cfg s" "length resps = length qs"
    "\<And>resp. resp \<in> set resps \<Longrightarrow> rs_Reply resp \<noteq> ReplyPanic"
    "\<exists>out. rl_run (concat (map (limiter_request (sv_cfg s)) qs)) (sv_authRL s) = (out, sv_authRL s')
       \<and> (\<forall>ip. attempts_of ip qs resps = allowed_for ip out)" by blast+
qed

lemma limiter_request_mem:
  "x \<in> set (concat (map (limiter_request cfg) qs)) \<Longrightarrow>
     \<exists>q \<in> set qs. fst x = he_now (fst q) \<and> fst (snd x) = clientIP (snd q)"
  by (force simp: limiter_request_def split: prod.splits if_splits)

lemma limiter_requests_of:
  "\<forall>q \<in> set qs. he_now (fst q) \<le> t1 \<Longrightarrow> \<forall>x \<in> set (concat (map (limiter_request cfg) qs)). fst x \<le> t1"
  "(fst \<circ> snd) ` set (concat (map (limiter_request cfg) qs)) \<subseteq> (clientIP \<circ> snd) ` set qs"
  "length (concat (map (limiter_request cfg) qs)) \<le> length qs"
proof -
  show "\<forall>x \<in> set (concat (map (limiter_request cfg) qs)). fst x \<le> t1" if "\<forall>q \<in> set qs. he_now (fst q) \<le> t1"
    using that limiter_request_mem [of _ cfg qs] by metis
  show "(fst \<circ> snd) ` set (concat (map (limiter_request cfg) qs)) \<subseteq> (clientIP \<circ> snd) ` set qs"
  proof
    fix y assume "y \<in> (fst \<circ> snd) ` set (concat (map (limiter_request cfg) qs))"
    then obtain x where "x \<in> set (concat (map (limiter_request cfg) qs))" "y = fst (snd x)" by (elim imageE) simp
    with limiter_request_mem [OF this(1)] show "y \<in> (clientIP \<circ> snd) ` set qs" by auto
  qed
  show "length (concat (map (limiter_request cfg) qs)) \<le> length qs"
    by (induction qs) (auto simp: limiter_request_def split: prod.splits)
qed

lemma limiter_times:
  "sorted (t # map (he_now \<circ> fst) qs) \<Longrightarrow> times_ok t (concat (map (limiter_request cfg) qs))"
proof (induction qs arbitrary: t)
  case Nil
  then show ?case by (simp add: times_ok_def)
next
  case (Cons q qs)
  obtain env r where q: "q = (env, r)" by (cases q)
  have "times_ok (he_now env) (concat (map (limiter_request cfg) qs))" "t \<le> he_now env"
    using Cons.IH [of "he_now env"] Cons.prems by (simp_all add: q)
  moreover have "limiter_request cfg q = [] \<or> limiter_request cfg q = [(he_now env, clientIP r, he_choice env)]"
    by (simp add: limiter_request_def q)
  ultimately show ?case by (elim disjE) (auto simp: times_ok_def intro: order_trans)
qed

lemma New_server_fields [simp]:
  "sv_cfg (New_server cfg br) = cfg" "sv_br (New_server cfg br) = br" "sv_authRL (New_server cfg br) = authRL"
  by (simp_all add: New_server_def authRL_def)

section \<open>Properties\<close>

text \<open>A server with the sample bridge, and requests that carry a token in the query.\<close>

definition sample_server :: Server where
  "sample_server = New_server sample_cfg sample_bridge"

definition sample_env :: http_env where
  "sample_env = \<lparr>he_telegram = sample_telegram, he_download = (\<lambda>_. sample_io), he_now = 0, he_choice = (0, False), he_handshake = Upgraded\<rparr>"

definition sample_request :: "string list \<Rightarrow> string \<Rightarrow> request" where
  "sample_request p token = \<lparr>rq_Method = ''GET'', rq_Path = ''v1'' # p, rq_Authorization = '''',
     rq_Query = (\<lambda>k. if k = ''token'' then token else if k = ''limit'' then print_i64 10 else ''''),
     rq_RemoteAddr = ''10.0.0.1:4000'', rq_Body = ''''\<rparr>"

lemma sample_bridge_good: "bridge_ok sample_bridge"
proof -
  have "auth_chans_ok (bg_auth sample_bridge)"
    by (simp add: sample_bridge_def newHTTPAuthenticator_def auth_chans_ok_def prompt_chan_def) (simp add: make_chan_def)
  then show ?thesis by (simp add: bridge_ok_def sample_bridge_ok sample_bridge_media)
qed

lemma sample_server_fields: "sv_br sample_server = sample_bridge" "sv_cfg sample_server = sample_cfg"
  by (simp_all add: sample_server_def)

lemma sample_token: "bearerToken (sample_request p token) = token"
  by (simp add: bearerToken_def sample_request_def strings_HasPrefix_def Let_def)

text \<open>
  C10: Every route needs a token: a routed request is answered 401 exactly when it carries no
  token or none of a configured client's, and then nothing of the server changes; neither does
  anything for a request that no route matches.
\<close>

theorem http_requires_token:
  assumes "bridge_ok (sv_br s)" and "serve env r s = (resp, s')"
  shows "(rs_Code resp = 401 \<longleftrightarrow> find_route r \<noteq> None
      \<and> (bearerToken r = '''' \<or> (\<forall>cl \<in> set (cfg_Clients (sv_cfg s)). cl_Token cl \<noteq> bearerToken r)))
    \<and> (rs_Code resp = 401 \<or> find_route r = None \<longrightarrow> s' = s)"
proof -
  have none: "client_of (sv_cfg s) r = None \<longleftrightarrow>
      bearerToken r = '''' \<or> (\<forall>cl \<in> set (cfg_Clients (sv_cfg s)). cl_Token cl \<noteq> bearerToken r)"
    by (simp add: client_of_def TokenToClient_def find_token_None)
  note code = serve_step(5) [OF assms]
  moreover have "s' = s" if "rs_Code resp = 401 \<or> find_route r = None"
    using that code serve_refused [of r s env] assms(2) by auto
  ultimately show ?thesis unfolding none by blast
qed

theorem http_requires_token_witness:
  "\<exists>resp s'. serve sample_env (sample_request [''me''] ''tc'') sample_server = (resp, s') \<and> rs_Code resp = 401 \<and> s' = sample_server"
proof -
  obtain resp s' where h: "serve sample_env (sample_request [''me''] ''tc'') sample_server = (resp, s')"
    by (cases "serve sample_env (sample_request [''me''] ''tc'') sample_server")
  have "find_route (sample_request [''me''] ''tc'') = Some MeRoute"
    by (simp add: find_route_def get_route_def sample_request_def)
  moreover have "\<forall>cl \<in> set (cfg_Clients sample_cfg). cl_Token cl \<noteq> ''tc''" by (simp add: sample_cfg_def)
  ultimately show ?thesis
    using http_requires_token [OF _ h] h sample_bridge_good by (simp add: sample_token sample_server_fields)
qed

text \<open>
  C1: A client with an allow-list stays within it: its requests make the bridge call Telegram
  only about chats of the list (beside listing dialogs and downloading media the bridge offered),
  and what it gets are chats and messages of the list.
\<close>

theorem http_allow_list:
  assumes "bridge_ok (sv_br s)" and "bearerToken r \<noteq> ''''"
    and "TokenToClient (sv_cfg s) (bearerToken r) = Some cl" and "cl_AllowedChats cl \<noteq> []"
    and "serve env r s = (resp, s')"
  shows "(\<exists>rs. bg_rpcs (sv_br s') = bg_rpcs (sv_br s) @ rs
      \<and> (\<forall>q \<in> set rs. \<forall>i. rpc_chat q = Some i \<longrightarrow> i \<in> set (cl_AllowedChats cl)))
    \<and> (\<forall>cs. rs_Reply resp = ReplyChats cs \<longrightarrow> chat_ID ` set cs \<subseteq> set (cl_AllowedChats cl))
    \<and> (\<forall>ms. rs_Reply resp = ReplyMessages ms \<longrightarrow> out_ChatID ` set ms \<subseteq> set (cl_AllowedChats cl))"
proof -
  have "client_of (sv_cfg s) r = Some cl" using assms(2,3) by (simp add: client_of_def)
  from serve_step(4) [OF assms(1,5) this] assms(4) show ?thesis by (simp add: client_chats_def calls_within_def)
qed

text \<open>The listing of the client that may see chat 7 only, out of three dialogs.\<close>

lemma sample_listing:
  "\<exists>cs s'. serve sample_env (sample_request [''chats''] ''ta'') sample_server = (writeJSON 200 (ReplyChats cs), s')
     \<and> map chat_ID cs = [7]"
proof -
  let ?r = "sample_request [''chats''] ''ta''"
  obtain cs b where l: "ListChats sample_telegram 10 sample_bridge = (Inr cs, b)" "map chat_ID cs = [7, - 9, - 1000000000009]"
    using sample_list by (elim exE conjE)
  have route: "find_route ?r = Some ListChatsRoute" by (simp add: find_route_def get_route_def sample_request_def)
  have cl: "client_of (sv_cfg sample_server) ?r = Some \<lparr>cl_Name = ''a'', cl_Token = ''ta'', cl_AllowedChats = [7]\<rparr>"
    by (simp add: client_of_def sample_token sample_server_fields TokenToClient_def sample_cfg_def)
  have ten: "atoi_value (rq_Query ?r ''limit'') = 10" by (simp add: sample_request_def)
  have "Self sample_bridge = Some sample_user" by (simp add: Self_def sample_bridge_def)
  then have "serve sample_env ?r sample_server
      = (writeJSON 200 (ReplyChats (filter (\<lambda>x. chat_ID x \<in> {7}) cs)), sample_server\<lparr>sv_br := b\<rparr>)"
    unfolding serve_routed [OF route cl]
    using l(1) ten by (simp add: route_handler_def handleListChats_def sample_server_fields sample_env_def)
  moreover have "map chat_ID (filter (\<lambda>x. chat_ID x \<in> {7}) cs) = [7]"
  proof -
    have "map chat_ID (filter (\<lambda>x. chat_ID x \<in> {7}) cs) = filter (\<lambda>i. i \<in> {7}) (map chat_ID cs)"
      by (simp add: filter_map o_def)
    also have "\<dots> = [7]" unfolding l(2) by simp
    finally show ?thesis .
  qed
  ultimately show ?thesis by (intro exI conjI)
qed

theorem http_allow_list_witness:
  "\<exists>cs s'. serve sample_env (sample_request [''chats''] ''ta'') sample_server = (writeJSON 200 (ReplyChats cs), s')
     \<and> map chat_ID cs = [7] \<and> chat_ID ` set cs \<subseteq> {7}"
proof -
  obtain cs s' where h: "serve sample_env (sample_request [''chats''] ''ta'') sample_server = (writeJSON 200 (ReplyChats cs), s')"
    "map chat_ID cs = [7]" using sample_listing by (elim exE conjE)
  have "TokenToClient (sv_cfg sample_server) (bearerToken (sample_request [''chats''] ''ta''))
      = Some \<lparr>cl_Name = ''a'', cl_Token = ''ta'', cl_AllowedChats = [7]\<rparr>"
    by (simp add: sample_token sample_server_fields TokenToClient_def sample_cfg_def)
  from http_allow_list [OF _ _ this _ h(1)] sample_bridge_good have "chat_ID ` set cs \<subseteq> {7}"
    by (simp add: sample_token sample_server_fields)
  with h show ?thesis by (intro exI conjI)
qed

text \<open>
  From a new server, any sequence of requests leaves the peer cache, the media cache, the
  login channels and the rate limiter in order, the configuration unchanged, and no handler ever
  panics.
\<close>

theorem http_run_safe:
  assumes "bridge_ok br" and "sorted (t # map (he_now \<circ> fst) qs)" and "\<forall>q \<in> set qs. he_now (fst q) \<le> t1" and "t \<le> t1"
    and "serve_all qs (New_server cfg br) = (resps, s')"
  shows "bridge_ok (sv_br s') \<and> sv_cfg s' = cfg \<and> rl_ok (sv_authRL s') t1 \<and> length resps = length qs
    \<and> (\<forall>resp \<in> set resps. rs_Reply resp \<noteq> ReplyPanic)"
proof -
  have br: "bridge_ok (sv_br (New_server cfg br))" using assms(1) by simp
  note r = serve_all_limiter [OF br assms(5)]
  from r(5) obtain out where run: "rl_run (concat (map (limiter_request cfg) qs)) authRL = (out, sv_authRL s')" by auto
  have "\<forall>q \<in> set (concat (map (limiter_request cfg) qs)). fst q \<le> t1"
    by (rule limiter_requests_of(1) [OF assms(3)])
  from rl_run_ok [OF rl_ok_authRL limiter_times [OF assms(2)] assms(4) this run] r(1-4) show ?thesis by simp
qed

theorem http_run_safe_witness:
  "\<exists>resps s'. serve_all [(sample_env, sample_request [''chats''] ''ta''), (sample_env, sample_request [''auth'', ''status''] ''tb'')]
       sample_server = (resps, s') \<and> bridge_ok (sv_br s') \<and> length resps = 2"
proof -
  let ?qs = "[(sample_env, sample_request [''chats''] ''ta''), (sample_env, sample_request [''auth'', ''status''] ''tb'')]"
  obtain resps s' where h: "serve_all ?qs (New_server sample_cfg sample_bridge) = (resps, s')" by (metis prod.exhaust)
  have "bridge_ok (sv_br s')" "length resps = 2"
    using http_run_safe [OF sample_bridge_good _ _ _ h, of 0 0] by (simp_all add: sample_env_def)
  with h show ?thesis unfolding sample_server_def by (intro exI conjI)
qed

text \<open>
  C5: Whatever requests a server gets, from any mix of addresses and clients, in \<open>T\<close> seconds the
  requests of one address that reach a login handler (answered other than 401 or 429) number at
  most \<open>5 + T/6\<close>, up to the rounding error, while at most 10001 addresses are seen.
\<close>

theorem http_auth_attempts_bounded:
  assumes "bridge_ok br" and "sorted (t # map (he_now \<circ> fst) qs)" and "\<forall>q \<in> set qs. he_now (fst q) \<le> t1" and "t \<le> t1"
    and "card ((clientIP \<circ> snd) ` set qs) \<le> 10001" and "serve_all qs (New_server cfg br) = (resps, s')"
  shows "of_nat (attempts_of ip qs resps) \<le> 5 + secs (t1 - t) / 6 + of_nat (length qs) / 2 ^ 46"
proof -
  have br: "bridge_ok (sv_br (New_server cfg br))" using assms(1) by simp
  let ?L = "concat (map (limiter_request cfg) qs)"
  from serve_all_limiter(5) [OF br assms(6)] obtain out where run: "rl_run ?L authRL = (out, sv_authRL s')"
    and n: "attempts_of ip qs resps = allowed_for ip out" by auto
  have times: "\<forall>q \<in> set ?L. fst q \<le> t1" by (rule limiter_requests_of(1) [OF assms(3)])
  have "card ((fst \<circ> snd) ` set ?L) \<le> 10001"
    using card_mono [OF _ limiter_requests_of(2) [where cfg = cfg and qs = qs]] assms(5) by simp
  then have "card (fst ` set (rl_buckets authRL) \<union> (fst \<circ> snd) ` set ?L) \<le> 10001" by (simp add: authRL_fields)
  from rl_run_bound [OF rl_ok_authRL limiter_times [OF assms(2)] times assms(4) this run, of ip]
  have "of_nat (allowed_for ip out) \<le> level authRL ip t + secs (t1 - t) / 6 + of_nat (length ?L) / 2 ^ 46" .
  moreover have "level authRL ip t = 5" by (simp add: level_def authRL_fields)
  moreover have "of_nat (length ?L) / 2 ^ 46 \<le> (of_nat (length qs) / 2 ^ 46 :: rat)"
    using limiter_requests_of(3) [of cfg qs] by (intro divide_right_mono) (simp_all only: of_nat_le_iff, simp)
  ultimately show ?thesis unfolding n by linarith
qed

theorem http_auth_attempts_bounded_witness:
  "\<exists>resps s'. serve_all (replicate 100 (sample_env, sample_request [''auth'', ''status''] ''ta'')) sample_server = (resps, s')
     \<and> attempts_of ''10.0.0.1'' (replicate 100 (sample_env, sample_request [''auth'', ''status''] ''ta'')) resps \<le> 5"
proof -
  let ?qs = "replicate 100 (sample_env, sample_request [''auth'', ''status''] ''ta'')"
  obtain resps s' where h: "serve_all ?qs (New_server sample_cfg sample_bridge) = (resps, s')" by (metis prod.exhaust)
  have "sorted (0 # map (he_now \<circ> fst) ?qs)" "\<forall>q \<in> set ?qs. he_now (fst q) \<le> 0" "card ((clientIP \<circ> snd) ` set ?qs) \<le> 10001"
    by (simp_all add: sample_env_def)
  from http_auth_attempts_bounded [OF sample_bridge_good this(1,2) _ this(3) h, of "''10.0.0.1''"]
  have "of_nat (attempts_of ''10.0.0.1'' ?qs resps) \<le> (5 + of_nat 100 / 2 ^ 46 :: rat)" by simp
  also have "\<dots> < of_nat 6" by simp
  finally have "attempts_of ''10.0.0.1'' ?qs resps \<le> 5" unfolding of_nat_less_iff by simp
  with h show ?thesis unfolding sample_server_def by (intro exI conjI)
qed

end
