(* ===== verification/Tls_Util.thy ===== *)
theory Tls_Util
  imports Crypto Media_Key
begin

text \<open>
  Package \<open>tlsutil\<close> (\<open>internal/tlsutil/tlsutil.go\<close>): \<open>EnsureSelfSigned\<close> with \<open>writePEM\<close> and
  \<open>fingerprint\<close>. The certificate and key files are a map from paths to contents; key generation,
  X.509 and PEM encoding, loading a pair and parsing an address are the standard library's and
  are arguments, as are the outcomes of the operating system's calls.
\<close>

section \<open>The certificate\<close>

text \<open>
  A file there is: one that can be read; one that \<open>os.Stat\<close> finds but that does not open for reading
  or read (no permission, a directory), with the error and what it holds; or one at a path that the
  process cannot follow, so that it can be neither examined nor opened.
\<close>

datatype cert_file = Readable bytes | Unreadable goerr bytes | Unreachable goerr

type_synonym cert_disk = "string \<rightharpoonup> cert_file"

text \<open>\<open>os.Stat(path)\<close> returns no error.\<close>

definition stat_ok :: "cert_disk \<Rightarrow> string \<Rightarrow> bool" where
  "stat_ok d path =
     (case d path of
        None \<Rightarrow> False
      | Some (Readable b) \<Rightarrow> True
      | Some (Unreadable e b) \<Rightarrow> True
      | Some (Unreachable e) \<Rightarrow> False)"

definition os_ReadFile :: "cert_disk \<Rightarrow> string \<Rightarrow> bytes result" where
  "os_ReadFile d path =
     (case d path of
        None \<Rightarrow> Inl (ErrExt (''open '' @ path @ '': no such file or directory''))
      | Some (Readable b) \<Rightarrow> Inr b
      | Some (Unreadable e b) \<Rightarrow> Inl e
      | Some (Unreachable e) \<Rightarrow> Inl e)"

text \<open>A file after it was truncated and written: a new one is readable, an old one keeps its mode.\<close>

fun rewritten :: "cert_file option \<Rightarrow> bytes \<Rightarrow> cert_file" where
  "rewritten (Some (Unreadable e b)) b' = Unreadable e b'"
| "rewritten _ b' = Readable b'"

text \<open>\<open>tls.Certificate\<close>, as far as it is used: the DER forms of its chain, the leaf first.\<close>

type_synonym tls_cert = "bytes list"

record cert_template =
  ct_SerialNumber :: nat
  ct_CommonName :: string
  ct_NotBefore :: int
  ct_NotAfter :: int
  ct_KeyUsage :: "string list"
  ct_ExtKeyUsage :: "string list"
  ct_BasicConstraintsValid :: bool
  ct_IPAddresses :: "bytes list"
  ct_DNSNames :: "string list"

record tls_io =
  ti_mkdir_cert :: "goerr option"
  ti_mkdir_key :: "goerr option"
  ti_GenerateKey :: "nat result"
  ti_serial :: "nat result"
  ti_now :: int
  ti_ParseIP :: "string \<Rightarrow> bytes option"
  ti_CreateCertificate :: "cert_template \<Rightarrow> nat \<Rightarrow> bytes result"
  ti_MarshalECPrivateKey :: "nat \<Rightarrow> bytes result"
  ti_pem :: "string \<Rightarrow> bytes \<Rightarrow> bytes"
  ti_write_cert :: write_outcome
  ti_write_key :: write_outcome
  ti_X509KeyPair :: "bytes \<Rightarrow> bytes \<Rightarrow> tls_cert result"

definition fingerprint :: "tls_cert \<Rightarrow> string result" where
  "fingerprint cert =
     (case cert of
        [] \<Rightarrow> Inl (ErrNew ''no leaf certificate'')
      | leaf # _ \<Rightarrow> Inr (hex_encode (sha256 leaf)))"

text \<open>
  The file is created or truncated, then written; a failed write leaves a prefix. A path that cannot
  be followed does not open, whatever else would have come of the write.
\<close>

definition writePEM :: "tls_io \<Rightarrow> write_outcome \<Rightarrow> string \<Rightarrow> string \<Rightarrow> bytes \<Rightarrow> cert_disk \<Rightarrow> goerr option \<times> cert_disk" where
  "writePEM io w path blockType der d =
     (case d path of
        Some (Unreachable e) \<Rightarrow> (Some e, d)
      | _ \<Rightarrow>
          (case w of
             WriteOk \<Rightarrow> (None, d(path \<mapsto> rewritten (d path) (ti_pem io blockType der)))
           | OpenFailed e \<Rightarrow> (Some e, d)
           | WriteFailed n e \<Rightarrow> (Some e, d(path \<mapsto> rewritten (d path) (take n (ti_pem io blockType der))))))"

text \<open>\<open>tls.LoadX509KeyPair\<close>: reads both files and pairs them.\<close>

definition LoadX509KeyPair :: "tls_io \<Rightarrow> string \<Rightarrow> string \<Rightarrow> cert_disk \<Rightarrow> tls_cert result" where
  "LoadX509KeyPair io certPath keyPath d =
     (case os_ReadFile d certPath of
        Inl e \<Rightarrow> Inl e
      | Inr c \<Rightarrow>
          (case os_ReadFile d keyPath of
             Inl e \<Rightarrow> Inl e
           | Inr k \<Rightarrow> ti_X509KeyPair io c k))"

text \<open>The loop over the hosts: addresses go to one list, names to the other. Times are in seconds.\<close>

fun add_hosts :: "tls_io \<Rightarrow> string list \<Rightarrow> cert_template \<Rightarrow> cert_template" where
  "add_hosts io [] t = t"
| "add_hosts io (h # hs) t =
     (case ti_ParseIP io h of
        Some ip \<Rightarrow> add_hosts io hs (t\<lparr>ct_IPAddresses := ct_IPAddresses t @ [ip]\<rparr>)
      | None \<Rightarrow> add_hosts io hs (t\<lparr>ct_DNSNames := ct_DNSNames t @ [h]\<rparr>))"

definition cert_for :: "tls_io \<Rightarrow> nat \<Rightarrow> string list \<Rightarrow> cert_template" where
  "cert_for io serial hosts =
     add_hosts io hosts
       \<lparr>ct_SerialNumber = serial, ct_CommonName = ''tg-bridge'',
        ct_NotBefore = ti_now io - 3600, ct_NotAfter = ti_now io + 10 * 365 * 24 * 3600,
        ct_KeyUsage = [''DigitalSignature'', ''KeyEncipherment''], ct_ExtKeyUsage = [''ServerAuth''],
        ct_BasicConstraintsValid = True, ct_IPAddresses = [], ct_DNSNames = []\<rparr>"

text \<open>The pair and its fingerprint, the common end of the two ways through the function.\<close>

definition with_fingerprint :: "tls_cert result \<Rightarrow> (tls_cert \<times> string) result" where
  "with_fingerprint r =
     (case r of
        Inl e \<Rightarrow> Inl e
      | Inr cert \<Rightarrow> (case fingerprint cert of Inl e \<Rightarrow> Inl e | Inr fp \<Rightarrow> Inr (cert, fp)))"

definition generate_pair ::
  "string \<Rightarrow> string \<Rightarrow> string list \<Rightarrow> tls_io \<Rightarrow> cert_disk \<Rightarrow> (tls_cert \<times> string) result \<times> cert_disk" where
  "generate_pair certPath keyPath hosts io d =
     (case ti_mkdir_cert io of Some e \<Rightarrow> (Inl e, d) | None \<Rightarrow>
      case ti_mkdir_key io of Some e \<Rightarrow> (Inl e, d) | None \<Rightarrow>
      case ti_GenerateKey io of Inl e \<Rightarrow> (Inl (ErrWrap ''generate key'' e), d) | Inr priv \<Rightarrow>
      case ti_serial io of Inl e \<Rightarrow> (Inl e, d) | Inr serial \<Rightarrow>
      case ti_CreateCertificate io (cert_for io serial hosts) priv of
        Inl e \<Rightarrow> (Inl (ErrWrap ''create cert'' e), d)
      | Inr der \<Rightarrow>
      case writePEM io (ti_write_cert io) certPath ''CERTIFICATE'' der d of
        (Some e, d1) \<Rightarrow> (Inl e, d1)
      | (None, d1) \<Rightarrow>
      case ti_MarshalECPrivateKey io priv of Inl e \<Rightarrow> (Inl e, d1) | Inr keyDER \<Rightarrow>
      case writePEM io (ti_write_key io) keyPath ''EC PRIVATE KEY'' keyDER d1 of
        (Some e, d2) \<Rightarrow> (Inl e, d2)
      | (None, d2) \<Rightarrow> (with_fingerprint (LoadX509KeyPair io certPath keyPath d2), d2))"

definition EnsureSelfSigned ::
  "string \<Rightarrow> string \<Rightarrow> string list \<Rightarrow> tls_io \<Rightarrow> cert_disk \<Rightarrow> (tls_cert \<times> string) result \<times> cert_disk" where
  "EnsureSelfSigned certPath keyPath hosts io d =
     (if stat_ok d certPath \<and> stat_ok d keyPath
      then (with_fingerprint
              (case LoadX509KeyPair io certPath keyPath d of
                 Inl e \<Rightarrow> Inl (ErrWrap ''load existing cert'' e)
               | Inr cert \<Rightarrow> Inr cert), d)
      else generate_pair certPath keyPath hosts io d)"

section \<open>Lemmas\<close>

lemma add_hosts_fields:
  "ct_IPAddresses (add_hosts io hs t) = ct_IPAddresses t @ List.map_filter (ti_ParseIP io) hs"
  "ct_DNSNames (add_hosts io hs t) = ct_DNSNames t @ filter (\<lambda>h. ti_ParseIP io h = None) hs"
  by (induction io hs t rule: add_hosts.induct) (simp_all add: List.map_filter_def split: option.splits)

lemma with_fingerprint_Inr:
  "with_fingerprint r = Inr (cert, fp) \<longleftrightarrow>
     r = Inr cert \<and> cert \<noteq> [] \<and> fp = hex_encode (sha256 (hd cert))"
  by (auto simp: with_fingerprint_def fingerprint_def split: sum.splits list.splits)

lemma readable_stat: "os_ReadFile d path = Inr b \<Longrightarrow> d path = Some (Readable b) \<and> stat_ok d path"
  by (auto simp: os_ReadFile_def stat_ok_def split: option.splits cert_file.splits)

lemma LoadX509KeyPair_Inr:
  "LoadX509KeyPair io certPath keyPath d = Inr cert \<Longrightarrow>
   stat_ok d certPath \<and> stat_ok d keyPath
   \<and> (\<exists>c k. d certPath = Some (Readable c) \<and> d keyPath = Some (Readable k) \<and> ti_X509KeyPair io c k = Inr cert)"
  by (auto simp: LoadX509KeyPair_def dest: readable_stat split: sum.splits)

text \<open>A success means that the pair on disk was loaded.\<close>

lemma Ensure_loaded:
  assumes "EnsureSelfSigned certPath keyPath hosts io d = (Inr (cert, fp), d')"
  shows "stat_ok d' certPath" "stat_ok d' keyPath" "LoadX509KeyPair io certPath keyPath d' = Inr cert"
    "cert \<noteq> []" "fp = hex_encode (sha256 (hd cert))" "stat_ok d certPath \<and> stat_ok d keyPath \<Longrightarrow> d' = d"
proof -
  have "with_fingerprint (LoadX509KeyPair io certPath keyPath d') = Inr (cert, fp)
    \<and> (stat_ok d certPath \<and> stat_ok d keyPath \<longrightarrow> d' = d)"
  proof (cases "stat_ok d certPath \<and> stat_ok d keyPath")
    case True
    with assms show ?thesis
      by (auto simp: EnsureSelfSigned_def with_fingerprint_def split: sum.splits)
  next
    case False
    with assms have "generate_pair certPath keyPath hosts io d = (Inr (cert, fp), d')"
      by (auto simp: EnsureSelfSigned_def)
    then show ?thesis using False
      by (auto simp: generate_pair_def split: option.splits sum.splits prod.splits)
  qed
  then show "LoadX509KeyPair io certPath keyPath d' = Inr cert" "cert \<noteq> []"
    "fp = hex_encode (sha256 (hd cert))" "stat_ok d certPath \<and> stat_ok d keyPath \<Longrightarrow> d' = d"
    by (simp_all add: with_fingerprint_Inr)
  then show "stat_ok d' certPath" "stat_ok d' keyPath" using LoadX509KeyPair_Inr by blast+
qed

text \<open>Nothing but the two files is ever written, and a pair that is there is not.\<close>

lemma writePEM_frame: "writePEM io w path blockType der d = (r, d') \<Longrightarrow> p \<noteq> path \<Longrightarrow> d' p = d p"
  by (auto simp: writePEM_def split: option.splits cert_file.splits write_outcome.splits)

lemma Ensure_frame:
  assumes "EnsureSelfSigned certPath keyPath hosts io d = (r, d')"
  shows "p \<noteq> certPath \<Longrightarrow> p \<noteq> keyPath \<Longrightarrow> d' p = d p" "stat_ok d certPath \<and> stat_ok d keyPath \<Longrightarrow> d' = d"
proof -
  show "stat_ok d certPath \<and> stat_ok d keyPath \<Longrightarrow> d' = d" using assms by (simp add: EnsureSelfSigned_def)
  assume p: "p \<noteq> certPath" "p \<noteq> keyPath"
  show "d' p = d p"
  proof (cases "stat_ok d certPath \<and> stat_ok d keyPath")
    case False
    with assms have "generate_pair certPath keyPath hosts io d = (r, d')" by (auto simp: EnsureSelfSigned_def)
    then show ?thesis
      by (auto simp: generate_pair_def split: option.splits sum.splits prod.splits) (metis writePEM_frame p)+
  qed (use assms in \<open>simp add: EnsureSelfSigned_def\<close>)
qed

section \<open>Properties\<close>

text \<open>
  C38: The certificate is an identity: the fingerprint that a successful start logs is the SHA-256
  of the served leaf in 64 hexadecimal digits, and every later start that finds the files as they
  were left serves the same certificate with the same fingerprint and writes nothing, whatever
  hosts the configuration then lists.
\<close>

theorem tls_identity_stable:
  assumes "EnsureSelfSigned certPath keyPath hosts io d = (Inr (cert, fp), d')"
    and "ti_X509KeyPair io' = ti_X509KeyPair io"
  shows "fp = hex_encode (sha256 (hd cert)) \<and> length fp = 64
    \<and> EnsureSelfSigned certPath keyPath hosts' io' d' = (Inr (cert, fp), d')"
proof -
  note e = Ensure_loaded [OF assms(1)]
  have "LoadX509KeyPair io' certPath keyPath d' = Inr cert"
    using e(3) assms(2) by (simp add: LoadX509KeyPair_def split: sum.splits)
  then show ?thesis using e(1,2,4,5)
    by (auto simp: EnsureSelfSigned_def with_fingerprint_def fingerprint_def split: list.splits)
qed

definition sample_tls_io :: tls_io where
  "sample_tls_io = \<lparr>ti_mkdir_cert = None, ti_mkdir_key = None, ti_GenerateKey = Inr 5, ti_serial = Inr 9, ti_now = 0,
     ti_ParseIP = (\<lambda>_. None), ti_CreateCertificate = (\<lambda>t k. Inr [1, 2]), ti_MarshalECPrivateKey = (\<lambda>k. Inr [3]),
     ti_pem = (\<lambda>_ der. der), ti_write_cert = WriteOk, ti_write_key = WriteOk,
     ti_X509KeyPair = (\<lambda>c k. if c = [1, 2] \<and> k = [3] then Inr [c] else Inl (ErrExt ''tls: failed to find any PEM data''))\<rparr>"

lemma sample_tls_start:
  "EnsureSelfSigned ''c'' ''k'' [''localhost''] sample_tls_io Map.empty
   = (Inr ([[1, 2]], hex_encode (sha256 [1, 2])), [''c'' \<mapsto> Readable [1, 2], ''k'' \<mapsto> Readable [3]])"
  by (simp add: EnsureSelfSigned_def generate_pair_def writePEM_def LoadX509KeyPair_def with_fingerprint_def fingerprint_def
      stat_ok_def os_ReadFile_def sample_tls_io_def)

theorem tls_identity_stable_witness:
  "EnsureSelfSigned ''c'' ''k'' [''bridge.example''] (sample_tls_io\<lparr>ti_now := 100, ti_GenerateKey := Inl ErrCanceled\<rparr>)
     [''c'' \<mapsto> Readable [1, 2], ''k'' \<mapsto> Readable [3]]
   = (Inr ([[1, 2]], hex_encode (sha256 [1, 2])), [''c'' \<mapsto> Readable [1, 2], ''k'' \<mapsto> Readable [3]])"
  using tls_identity_stable [OF sample_tls_start,
      of "sample_tls_io\<lparr>ti_now := 100, ti_GenerateKey := Inl ErrCanceled\<rparr>" "[''bridge.example'']"] by simp

text \<open>
  A first start that cannot write the whole key leaves a pair that does not load; every later
  start finds both files, refuses them, and never generates a pair again.
\<close>

theorem tls_short_key_is_permanent:
  assumes "d certPath = None" and "d keyPath = None \<or> (\<exists>b. d keyPath = Some (Readable b))"
    and "certPath \<noteq> keyPath" and "ti_mkdir_cert io = None" and "ti_mkdir_key io = None"
    and "ti_GenerateKey io = Inr priv" and "ti_serial io = Inr serial"
    and "ti_CreateCertificate io (cert_for io serial hosts) priv = Inr der" and "ti_write_cert io = WriteOk"
    and "ti_MarshalECPrivateKey io priv = Inr keyDER" and "ti_write_key io = WriteFailed n e"
    and "ti_X509KeyPair io' (ti_pem io ''CERTIFICATE'' der) (take n (ti_pem io ''EC PRIVATE KEY'' keyDER)) = Inl e'"
  shows "\<exists>d'. EnsureSelfSigned certPath keyPath hosts io d = (Inl e, d')
    \<and> EnsureSelfSigned certPath keyPath hosts' io' d' = (Inl (ErrWrap ''load existing cert'' e'), d')"
  using assms
  by (elim disjE exE) (simp_all add: EnsureSelfSigned_def generate_pair_def writePEM_def LoadX509KeyPair_def
      with_fingerprint_def stat_ok_def os_ReadFile_def)

theorem tls_short_key_is_permanent_witness:
  "\<exists>d'. EnsureSelfSigned ''c'' ''k'' [] (sample_tls_io\<lparr>ti_write_key := WriteFailed 0 ErrDeadline\<rparr>) Map.empty = (Inl ErrDeadline, d')
    \<and> EnsureSelfSigned ''c'' ''k'' [] sample_tls_io d'
      = (Inl (ErrWrap ''load existing cert'' (ErrExt ''tls: failed to find any PEM data'')), d')"
  by (rule tls_short_key_is_permanent [where priv = 5 and serial = 9 and der = "[1, 2]" and keyDER = "[3]" and n = 0])
    (simp_all add: sample_tls_io_def)

end
