(* ===== verification/Startup.thy ===== *)
theory Startup
  imports Http_Api Tls_Util
begin

text \<open>
  The start-up of the daemon in \<open>cmd/tg-bridge/main.go\<close>: the configuration, the certificate, the
  bridge and the server, in this order, each failure ending the process. What follows in
  \<open>main\<close> is in \<open>Process\<close>.
\<close>

section \<open>The media cache after a restart\<close>

text \<open>What a listing must say of the files for the scan: the sizes are those on disk.\<close>

definition listing_true :: "dirent list \<Rightarrow> disk \<Rightarrow> bool" where
  "listing_true es d \<longleftrightarrow>
     (\<forall>e \<in> set es. \<forall>sz. \<not> de_isDir e \<and> \<not> strings_HasSuffix (de_name e) ''.tmp'' \<and> de_info e = Inr sz \<longrightarrow>
        (\<exists>b. files d (de_name e) = Some b \<and> sz = word_of_nat (length b)))"

text \<open>
  A start on a cache directory in order: its listing is true to the files, and no two of the files
  the scan takes share a stem (\<open>a.jpg\<close> and \<open>a.png\<close> do). \<open>main\<close> does not check this. The cache itself
  writes one file for each stem, but files put there by others, or a type that changed between two
  downloads of one identifier, can break it.
\<close>

definition clean_cache_dir :: "new_io \<Rightarrow> bool" where
  "clean_cache_dir io \<longleftrightarrow>
     (case ni_listing io of Inl e \<Rightarrow> True
      | Inr es \<Rightarrow> listing_true es (ni_disk io) \<and> distinct (map file_stem (accepted_names es)))"

lemma listing_true_Cons:
  "listing_true (e # es) d \<Longrightarrow> listing_true es d"
  by (simp add: listing_true_def)

lemma listing_true_tmp:
  assumes "strings_HasSuffix f ''.tmp''" and "listing_true es d"
  shows "listing_true es (os_Remove f d)"
proof -
  have "files (os_Remove f d) g = files d g" if "\<not> strings_HasSuffix g ''.tmp''" for g
    using that assms(1) by (auto simp: os_Remove_def)
  with assms(2) show ?thesis by (simp add: listing_true_def)
qed

lemma files_ok_tmp:
  assumes "strings_HasSuffix f ''.tmp''" and "files_ok c d"
  shows "files_ok c (os_Remove f d)"
proof -
  have "entry_on_disk (os_Remove f d) e" if "entry_on_disk d e" for e
    using that assms(1) by (auto simp: entry_on_disk_def os_Remove_def)
  with assms(2) show ?thesis by (simp add: files_ok_def)
qed

lemma scan_files_ok:
  "files_ok c d \<Longrightarrow> listing_true es d \<Longrightarrow> scan_dir es c d = (c', d') \<Longrightarrow> files_ok c' d'"
proof (induction es arbitrary: c d)
  case Nil
  then show ?case by simp
next
  case (Cons e es)
  note rest = listing_true_Cons [OF Cons.prems(2)]
  show ?case
  proof (cases "de_isDir e")
    case True
    then show ?thesis using Cons.IH [OF Cons.prems(1) rest] Cons.prems(3) by simp
  next
    case dir: False
    show ?thesis
    proof (cases "strings_HasSuffix (de_name e) ''.tmp''")
      case True
      then show ?thesis
        using Cons.IH [OF files_ok_tmp [OF True Cons.prems(1)] listing_true_tmp [OF True rest]] Cons.prems(3) dir by simp
    next
      case tmp: False
      show ?thesis
      proof (cases "de_info e")
        case (Inl x)
        then show ?thesis using Cons.IH [OF Cons.prems(1) rest] Cons.prems(3) dir tmp by simp
      next
        case (Inr sz)
        let ?e = "\<lparr>mc_key = file_stem (de_name e), mc_filename = de_name e, mc_size = sz,
                    mc_mime = mimeFromExt (filepath_Ext (de_name e))\<rparr>"
        have run: "scan_dir es (cache_PushFront ?e c) d = (c', d')" using Cons.prems(3) dir tmp Inr by (simp add: Let_def)
        have "entry_on_disk d ?e" using Cons.prems(2) dir tmp Inr by (simp add: listing_true_def entry_on_disk_def)
        then have "files_ok (cache_PushFront ?e c) d"
          using Cons.prems(1) by (simp add: files_ok_def cache_list_def cache_PushFront_def Let_def)
        from Cons.IH [OF this rest run] show ?thesis .
      qed
    qed
  qed
qed

text \<open>One eviction removes the file of the entry it drops, and no other entry's.\<close>

lemma evict_good:
  assumes good: "cache_good (c, d)" and ev: "evictLocked c d = (b, c', d')"
  shows "cache_good (c', d')"
proof (cases "mc_lru c" rule: rev_cases)
  case Nil
  then show ?thesis using evict_frame [OF ev] good by simp
next
  case (snoc ys el)
  have inv: "cache_inv c" and ind: "cache_indexed c" and ok: "files_ok c d" using good by (simp_all add: cache_good_def)
  have lru: "mc_lru c' = ys" and d': "d' = os_Remove (mc_filename (snd el)) d" using ev evict_snoc [OF inv snoc, of d] by auto
  have dis: "distinct (map mc_key (cache_list c))" by (rule cache_indexed_keys [OF inv ind])
  have "entry_on_disk d' e" if "e \<in> set (cache_list c')" for e
  proof -
    have e: "e \<in> snd ` set ys" using that lru by (simp add: cache_list_def)
    then have "mc_key e \<in> mc_key ` snd ` set ys" by simp
    moreover have "mc_key (snd el) \<notin> mc_key ` snd ` set ys" using dis by (simp add: cache_list_def snoc image_image)
    ultimately have "mc_key e \<noteq> mc_key (snd el)" by metis
    moreover have on: "entry_on_disk d e" "entry_on_disk d (snd el)"
      using ok e by (auto simp: files_ok_def cache_list_def snoc)
    ultimately have "mc_filename e \<noteq> mc_filename (snd el)" by (auto simp: entry_on_disk_def)
    then have "files d' (mc_filename e) = files d (mc_filename e)" by (simp add: d' os_Remove_def)
    from entry_on_disk_cong [OF this on(1)] show ?thesis .
  qed
  then show ?thesis using evict_inv [OF inv ev] evict_indexed [OF inv ind ev] by (simp add: cache_good_def files_ok_def)
qed

lemma newMediaCache_good:
  assumes "newMediaCache dir m me (Inr es) d = Inr (c, d')" and "listing_true es d"
    and "distinct (map file_stem (accepted_names es))"
  shows "cache_good (c, d')"
proof -
  obtain c1 d1 where l: "scan_dir es (empty_cache dir m) d = (c1, d1)" "new_evict c1 d1 = (c, d')"
    using assms(1) by (auto simp: newMediaCache_def split: option.splits sum.splits prod.splits)
  have "cache_inv c1" using empty_cache_inv(1) l(1) by (rule scan_dir_inv)
  moreover have "cache_indexed c1"
    by (rule scan_dir_indexed [OF empty_cache_inv(2) assms(3) _ l(1)]) (simp add: empty_cache_def)
  moreover have "files_ok c1 d1"
    by (rule scan_files_ok [OF _ assms(2) l(1)]) (simp add: files_ok_def cache_list_def empty_cache_def)
  ultimately have "cache_good (c1, d1)" by (simp add: cache_good_def)
  moreover have "cache_good (c1, d1) \<Longrightarrow> cache_good (c, d')"
    by (rule new_evict_keeps [where P = "\<lambda>c d. cache_good (c, d)", OF _ _ l(2)]) (rule evict_good)
  ultimately show ?thesis by blast
qed

section \<open>Start-up\<close>

text \<open>What the start-up reads: the configuration file, its parser, the certificate files, the rest.\<close>

record start_io =
  st_file :: "string result"
  st_unmarshal :: "string \<Rightarrow> Config result"
  st_tls :: tls_io
  st_certs :: cert_disk
  st_new :: new_io

text \<open>
  \<open>main\<close> up to the server: the server with the fingerprint that is logged, or the error it exits
  with; the certificate files and the key file as they are left.
\<close>

definition startup :: "start_io \<Rightarrow> (Server \<times> string) result \<times> cert_disk \<times> key_file" where
  "startup io =
     (case Load (st_file io) (st_unmarshal io) of
        Inl e \<Rightarrow> (Inl e, st_certs io, ni_key (st_new io))
      | Inr cfg \<Rightarrow>
          (case EnsureSelfSigned (tls_CertPath (cfg_TLS cfg)) (tls_KeyPath (cfg_TLS cfg)) (tls_Hosts (cfg_TLS cfg))
                  (st_tls io) (st_certs io) of
             (Inl e, certs) \<Rightarrow> (Inl e, certs, ni_key (st_new io))
           | (Inr (cert, fp), certs) \<Rightarrow>
               (case New cfg (st_new io) of
                  (Inl e, kf, db_open) \<Rightarrow> (Inl e, certs, kf)
                | (Inr br, kf, db_open) \<Rightarrow> (Inr (New_server cfg br, fp), certs, kf))))"

lemma startup_Inr:
  assumes "startup io = (Inr (s, fp), certs, kf)"
  obtains cfg cert br where "Load (st_file io) (st_unmarshal io) = Inr cfg"
    "EnsureSelfSigned (tls_CertPath (cfg_TLS cfg)) (tls_KeyPath (cfg_TLS cfg)) (tls_Hosts (cfg_TLS cfg))
       (st_tls io) (st_certs io) = (Inr (cert, fp), certs)"
    "New cfg (st_new io) = (Inr br, kf, True)" "s = New_server cfg br"
proof -
  obtain cfg where cfg: "Load (st_file io) (st_unmarshal io) = Inr cfg"
    using assms by (auto simp: startup_def split: sum.splits)
  obtain r d where e: "EnsureSelfSigned (tls_CertPath (cfg_TLS cfg)) (tls_KeyPath (cfg_TLS cfg)) (tls_Hosts (cfg_TLS cfg))
       (st_tls io) (st_certs io) = (r, d)" by (metis prod.exhaust)
  with assms cfg obtain cert fp' where r: "r = Inr (cert, fp')"
    by (cases r) (auto simp: startup_def)
  obtain x k o' where n: "New cfg (st_new io) = (x, k, o')" by (metis prod_cases3)
  with assms cfg e r obtain br where br: "x = Inr br" by (cases x) (auto simp: startup_def)
  have "o'" using n br by (auto simp: New_def split: option.splits sum.splits prod.splits)
  moreover have "fp' = fp" "d = certs" "k = kf" "s = New_server cfg br" using assms cfg e r n br by (simp_all add: startup_def)
  ultimately show ?thesis using that [OF cfg] e r n br by simp
qed

lemma New_bridge_ok:
  assumes "New cfg io = (Inr b, kf, db_open)" and "clean_cache_dir io"
  shows "bridge_ok b"
proof -
  from assms(1) obtain mc d where mc: "newMediaCache (media_CacheDir (cfg_Media cfg)) (media_MaxBytes (cfg_Media cfg))
      (ni_cache_mkdir io) (ni_listing io) (ni_disk io) = Inr (mc, d)"
    and b: "bg_mediaCache b = mc" "bg_disk b = d" "bg_peerCache b = Map.empty" "bg_auth b = newHTTPAuthenticator"
    unfolding New_def by (auto split: option.splits sum.splits prod.splits)
  from mc obtain es where es: "ni_listing io = Inr es"
    by (auto simp: newMediaCache_def split: option.splits sum.splits)
  note mc = mc [unfolded es]
  have dir: "listing_true es (ni_disk io)" "distinct (map file_stem (accepted_names es))"
    using assms(2) by (simp_all add: clean_cache_dir_def es)
  have "auth_chans_ok newHTTPAuthenticator"
    by (simp add: newHTTPAuthenticator_def auth_chans_ok_def prompt_chan_def) (simp add: make_chan_def)
  with newMediaCache_good [OF mc dir] show "bridge_ok b"
    by (simp add: bridge_ok_def peers_ok_def media_good_def b)
qed

lemma New_cfg: "New cfg io = (Inr b, kf, db_open) \<Longrightarrow> bg_cfg b = cfg"
  by (auto simp: New_def split: option.splits sum.splits prod.splits)

section \<open>Running\<close>

text \<open>
  The function that \<open>Run\<close> gives the Telegram client: it makes the client available, logs in (with
  the outcome of \<open>runAuth\<close>, see \<open>Auth_Flow\<close>), stores the own user and fills the peer cache, whose
  failure is only logged. Afterwards the updates manager runs until the context ends.
\<close>

definition Run_client :: "telegram \<Rightarrow> goerr option \<Rightarrow> tgUser result \<Rightarrow> Bridge \<Rightarrow> goerr option \<times> Bridge" where
  "Run_client T auth_err self b =
     (let b1 = b\<lparr>bg_clientReady := True\<rparr> in
      case auth_err of
        Some e \<Rightarrow> (Some (ErrWrap ''auth'' e), b1\<lparr>bg_auth := setState AuthError (Some e) (bg_auth b1)\<rparr>)
      | None \<Rightarrow>
          (let b2 = b1\<lparr>bg_auth := setState AuthAuthorized None (bg_auth b1)\<rparr> in
           case self of
             Inl e \<Rightarrow> (Some (ErrWrap ''fetch self'' e), b2)
           | Inr u \<Rightarrow> (case warmPeerCache T 100 (b2\<lparr>bg_self := Some u\<rparr>) of (_, b3) \<Rightarrow> (None, b3))))"

text \<open>A run keeps the invariant; after the login every operation finds the client ready.\<close>

lemma setState_chans: "auth_chans_ok (setState st e a) = auth_chans_ok a"
  by (simp add: auth_chans_ok_def setState_def)

lemma warm_facts:
  assumes "warmPeerCache T n b = (r, b')" and "bridge_ok b" and "bg_clientReady b" and "bg_self b = Some u"
  shows "bridge_ok b'" "bg_clientReady b'" "bg_self b' = Some u" "bg_auth b' = bg_auth b"
proof -
  obtain x where l: "ListChats T n b = (x, b')"
    using assms(1) by (cases "ListChats T n b") (auto simp: warmPeerCache_def split: sum.splits)
  note a = ListChats_acts [OF bridge_ok_peers [OF assms(2)] l]
  show "bridge_ok b'" by (rule acts_on_bridge_ok [OF a assms(2)])
  show "bg_auth b' = bg_auth b" using a by (simp add: acts_on_def)
  have "waitReady T b = (None, b)" by (rule waitReady_again) (simp add: assms(3,4))
  with l have "bg_clientReady b' = bg_clientReady b \<and> bg_self b' = bg_self b"
    by (auto simp: ListChats_def call_defs dialogs_loop_eq split: sum.splits prod.splits)
  with assms(3,4) show "bg_clientReady b'" "bg_self b' = Some u" by simp_all
qed

theorem run_ready:
  assumes "Run_client T auth_err self b = (r, b')" and "bridge_ok b"
  shows "bridge_ok b'" "r = None \<Longrightarrow> Self b' \<noteq> None \<and> waitReady T b' = (None, b') \<and> Status (bg_auth b') = (AuthAuthorized, None)"
    "auth_err = Some e \<Longrightarrow> Status (bg_auth b') = (AuthError, Some e)"
proof -
  have "bridge_ok b' \<and> (r = None \<longrightarrow> Self b' \<noteq> None \<and> waitReady T b' = (None, b') \<and> Status (bg_auth b') = (AuthAuthorized, None))
    \<and> (auth_err = Some e \<longrightarrow> Status (bg_auth b') = (AuthError, Some e))"
  proof (cases "auth_err = None \<and> (\<exists>u. self = Inr u)")
    case False
    then show ?thesis using assms
      by (auto simp: Run_client_def Let_def bridge_ok_def peers_ok_def media_good_def setState_chans
          split: option.splits sum.splits) (simp_all add: setState_def Status_def)
  next
    case True
    then obtain u where u: "auth_err = None" "self = Inr u" by blast
    let ?b = "b\<lparr>bg_clientReady := True, bg_auth := setState AuthAuthorized None (bg_auth b), bg_self := Some u\<rparr>"
    obtain x where w: "warmPeerCache T 100 ?b = (x, b')" and r: "r = None"
      using assms(1) u by (auto simp: Run_client_def Let_def split: prod.splits)
    have "bridge_ok ?b" using assms(2) by (simp add: bridge_ok_def peers_ok_def media_good_def setState_chans)
    from warm_facts [OF w this, of u]
    have f: "bridge_ok b'" "bg_clientReady b'" "bg_self b' = Some u" "bg_auth b' = setState AuthAuthorized None (bg_auth b)"
      by simp_all
    then have "waitReady T b' = (None, b')" by (intro waitReady_again) simp
    with f u show ?thesis by (simp add: Self_def) (simp add: setState_def Status_def)
  qed
  then show "bridge_ok b'" "r = None \<Longrightarrow> Self b' \<noteq> None \<and> waitReady T b' = (None, b') \<and> Status (bg_auth b') = (AuthAuthorized, None)"
    "auth_err = Some e \<Longrightarrow> Status (bg_auth b') = (AuthError, Some e)" by simp_all
qed

section \<open>A start-up, for the examples\<close>

definition sample_start :: start_io where
  "sample_start = \<lparr>st_file = Inr ''config'', st_unmarshal = (\<lambda>_. Inr sample_cfg), st_tls = sample_tls_io,
     st_certs = Map.empty, st_new = sample_new_io\<rparr>"

lemma sample_startup:
  "\<exists>b fp certs kf. New sample_cfg sample_new_io = (Inr b, kf, True)
     \<and> startup sample_start = (Inr (New_server sample_cfg b, fp), certs, kf)"
proof -
  have "config_ok sample_cfg" by (simp add: config_ok_def sample_cfg_def)
  then have cfg: "Load (st_file sample_start) (st_unmarshal sample_start) = Inr sample_cfg"
    by (simp add: Load_def sample_start_def validate_id)
  have tls: "EnsureSelfSigned (tls_CertPath (cfg_TLS sample_cfg)) (tls_KeyPath (cfg_TLS sample_cfg))
      (tls_Hosts (cfg_TLS sample_cfg)) (st_tls sample_start) (st_certs sample_start)
    = (Inr ([[1, 2]], hex_encode (sha256 [1, 2])), [''c'' \<mapsto> Readable [1, 2], ''k'' \<mapsto> Readable [3]])"
    by (simp add: sample_cfg_def sample_start_def EnsureSelfSigned_def generate_pair_def writePEM_def LoadX509KeyPair_def
        with_fingerprint_def fingerprint_def stat_ok_def os_ReadFile_def sample_tls_io_def)
  obtain b kf where new: "New sample_cfg sample_new_io = (Inr b, kf, True)" using New_sample by blast
  then have "New sample_cfg (st_new sample_start) = (Inr b, kf, True)" by (simp add: sample_start_def)
  then have "startup sample_start
      = (Inr (New_server sample_cfg b, hex_encode (sha256 [1, 2])), [''c'' \<mapsto> Readable [1, 2], ''k'' \<mapsto> Readable [3]], kf)"
    by (simp add: startup_def cfg tls)
  with new show ?thesis by (intro exI conjI)
qed

lemma sample_start_clean: "clean_cache_dir (st_new sample_start)"
  by (simp add: clean_cache_dir_def sample_start_def sample_new_io_def listing_true_def)

end
