(* ===== verification/Ws_Events.thy ===== *)
theory Ws_Events
  imports Updates
begin

text \<open>
  The event stream of \<open>internal/httpapi/ws.go\<close>: \<open>eventAllowed\<close>, \<open>writeEvent\<close> and the loop of
  \<open>handleEvents\<close>, as a system of any number of connections over the event broker. The upgrade
  and the outcomes of reading, writing and pinging the socket come from the WebSocket library and
  are free: a step may take either outcome.
\<close>

section \<open>The handler\<close>

definition eventAllowed :: "ClientConfig option \<Rightarrow> Event \<Rightarrow> bool" where
  "eventAllowed cl ev =
     (case cl of
        None \<Rightarrow> True
      | Some c \<Rightarrow> if cl_AllowedChats c = [] then True else slice_contains (cl_AllowedChats c) (ev_ChatID ev))"

text \<open>
  Where the handler of one connection is: before \<open>Events()\<close>, inside it between the new number and
  the entry into the broker's map, at the \<open>select\<close>, writing an event, pinging, running the deferred
  calls, gone.
\<close>

datatype ws_pc =
  WsAccepted | WsSubscribing | WsSelect | WsWriting Event | WsPinging | WsReturning | WsClosed

text \<open>
  A connection: the client of its token, its subscription, whether its context has ended, and
  three ghost fields: the events written to the socket, the event whose write failed, and the
  events published while it was in the broker's map, with a flag that one of them found its
  buffer full.
\<close>

record conn =
  cn_client :: "ClientConfig option"
  cn_pc :: ws_pc
  cn_sub :: "(u64 \<times> nat) option"
  cn_done :: bool
  cn_sent :: "Event list"
  cn_lost :: "Event list"
  cn_seen :: "Event list"
  cn_dropped :: bool

definition new_conn :: "ClientConfig option \<Rightarrow> conn" where
  "new_conn cl = \<lparr>cn_client = cl, cn_pc = WsAccepted, cn_sub = None, cn_done = False, cn_sent = [], cn_lost = [],
     cn_seen = [], cn_dropped = False\<rparr>"

text \<open>The cases of the \<open>select\<close>: the context, the channel (with or without a value), the ticker.\<close>

datatype select_case = CtxDone | FromSub "Event option" | PingDue

fun ws_select :: "ClientConfig option \<Rightarrow> select_case \<Rightarrow> ws_pc" where
  "ws_select cl CtxDone = WsReturning"
| "ws_select cl (FromSub None) = WsReturning"
| "ws_select cl (FromSub (Some ev)) = (if \<not> eventAllowed cl ev then WsSelect else WsWriting ev)"
| "ws_select cl PingDue = WsPinging"

text \<open>
  \<open>writeEvent\<close>: encoding an event cannot fail, so its result is the outcome of \<open>conn.Write\<close>; the
  loop goes on or returns.
\<close>

definition writeEvent :: "goerr option \<Rightarrow> Event \<Rightarrow> conn \<Rightarrow> goerr option \<times> conn" where
  "writeEvent w ev c =
     (case w of
        None \<Rightarrow> (None, c\<lparr>cn_sent := cn_sent c @ [ev]\<rparr>)
      | Some e \<Rightarrow> (Some e, c\<lparr>cn_lost := cn_lost c @ [ev]\<rparr>))"

definition after_write :: "goerr option \<Rightarrow> Event \<Rightarrow> conn \<Rightarrow> conn" where
  "after_write w ev c =
     (case writeEvent w ev c of
        (None, c1) \<Rightarrow> c1\<lparr>cn_pc := WsSelect\<rparr>
      | (Some e, c1) \<Rightarrow> c1\<lparr>cn_pc := WsReturning\<rparr>)"

definition after_ping :: "goerr option \<Rightarrow> conn \<Rightarrow> conn" where
  "after_ping err c = c\<lparr>cn_pc := (if err \<noteq> None then WsReturning else WsSelect)\<rparr>"

section \<open>The system\<close>

record ws_sys =
  wn_bs :: "Event broker_sys"
  wn_conns :: "nat \<rightharpoonup> conn"

definition ws_start :: ws_sys where
  "ws_start = \<lparr>wn_bs = sys_start 64, wn_conns = Map.empty\<rparr>"

text \<open>The ghost fields of a connection when an event is published.\<close>

definition note_publish :: "Event \<Rightarrow> Event broker \<Rightarrow> conn \<Rightarrow> conn" where
  "note_publish e b c =
     (case cn_sub c of
        None \<Rightarrow> c
      | Some p \<Rightarrow>
          (if p \<in> set (br_subs b)
           then c\<lparr>cn_seen := cn_seen c @ [e],
                  cn_dropped := cn_dropped c \<or> \<not> length (buffered b (snd p)) < br_bufSize b\<rparr>
           else c))"

abbreviation set_conn :: "nat \<Rightarrow> conn \<Rightarrow> ws_sys \<Rightarrow> ws_sys" where
  "set_conn i c s \<equiv> s\<lparr>wn_conns := (wn_conns s)(i \<mapsto> c)\<rparr>"

inductive ws_step :: "ws_sys \<Rightarrow> ws_sys \<Rightarrow> bool" where
  publish:
    "Publish e (bs_broker (wn_bs s)) = Inr b' \<Longrightarrow>
     ws_step s (s\<lparr>wn_bs := (wn_bs s)\<lparr>bs_broker := b', bs_published := bs_published (wn_bs s) @ [e]\<rparr>,
       wn_conns := (\<lambda>i. map_option (note_publish e (bs_broker (wn_bs s))) (wn_conns s i))\<rparr>)"
| accept:
    "wn_conns s i = None \<Longrightarrow> ws_step s (set_conn i (new_conn cl) s)"
| subscribe:
    "wn_conns s i = Some c \<Longrightarrow> cn_pc c = WsAccepted \<Longrightarrow> subscribe_alloc (bs_broker (wn_bs s)) = (p, b') \<Longrightarrow>
     ws_step s (set_conn i (c\<lparr>cn_sub := Some p, cn_pc := WsSubscribing\<rparr>)
       (s\<lparr>wn_bs := (wn_bs s)\<lparr>bs_broker := b', bs_pending := p # bs_pending (wn_bs s), bs_calls := Suc (bs_calls (wn_bs s))\<rparr>\<rparr>))"
| enter:
    "wn_conns s i = Some c \<Longrightarrow> cn_pc c = WsSubscribing \<Longrightarrow> cn_sub c = Some p \<Longrightarrow>
     bs_pending (wn_bs s) = ps @ p # qs \<Longrightarrow>
     ws_step s (set_conn i (c\<lparr>cn_pc := WsSelect\<rparr>)
       (s\<lparr>wn_bs := (wn_bs s)\<lparr>bs_broker := subscribe_insert p (bs_broker (wn_bs s)), bs_pending := ps @ qs\<rparr>\<rparr>))"
| hangup:
    "wn_conns s i = Some c \<Longrightarrow> ws_step s (set_conn i (c\<lparr>cn_done := True\<rparr>) s)"
| select_done:
    "wn_conns s i = Some c \<Longrightarrow> cn_pc c = WsSelect \<Longrightarrow> cn_done c \<Longrightarrow>
     ws_step s (set_conn i (c\<lparr>cn_pc := ws_select (cn_client c) CtxDone\<rparr>) s)"
| select_event:
    "wn_conns s i = Some c \<Longrightarrow> cn_pc c = WsSelect \<Longrightarrow> cn_sub c = Some p \<Longrightarrow>
     sub_recv (snd p) (bs_broker (wn_bs s)) = Some (Some ev, b') \<Longrightarrow>
     ws_step s (set_conn i (c\<lparr>cn_pc := ws_select (cn_client c) (FromSub (Some ev))\<rparr>)
       (s\<lparr>wn_bs := (wn_bs s)\<lparr>bs_broker := b',
           bs_received := (bs_received (wn_bs s))(snd p := bs_received (wn_bs s) (snd p) @ [ev])\<rparr>\<rparr>))"
| select_closed:
    "wn_conns s i = Some c \<Longrightarrow> cn_pc c = WsSelect \<Longrightarrow> cn_sub c = Some p \<Longrightarrow>
     sub_recv (snd p) (bs_broker (wn_bs s)) = Some (None, b') \<Longrightarrow>
     ws_step s (set_conn i (c\<lparr>cn_pc := ws_select (cn_client c) (FromSub None)\<rparr>)
       (s\<lparr>wn_bs := (wn_bs s)\<lparr>bs_broker := b'\<rparr>\<rparr>))"
| select_ping:
    "wn_conns s i = Some c \<Longrightarrow> cn_pc c = WsSelect \<Longrightarrow>
     ws_step s (set_conn i (c\<lparr>cn_pc := ws_select (cn_client c) PingDue\<rparr>) s)"
| written:
    "wn_conns s i = Some c \<Longrightarrow> cn_pc c = WsWriting ev \<Longrightarrow> ws_step s (set_conn i (after_write w ev c) s)"
| pinged:
    "wn_conns s i = Some c \<Longrightarrow> cn_pc c = WsPinging \<Longrightarrow> ws_step s (set_conn i (after_ping err c) s)"
| finish:
    "wn_conns s i = Some c \<Longrightarrow> cn_pc c = WsReturning \<Longrightarrow> cn_sub c = Some p \<Longrightarrow>
     unsubscribe (fst p) (bs_broker (wn_bs s)) = Inr b' \<Longrightarrow>
     ws_step s (set_conn i (c\<lparr>cn_pc := WsClosed, cn_done := True\<rparr>) (s\<lparr>wn_bs := (wn_bs s)\<lparr>bs_broker := b'\<rparr>\<rparr>))"

inductive ws_reach :: "ws_sys \<Rightarrow> bool" where
  start: "ws_reach ws_start"
| step: "ws_reach s \<Longrightarrow> ws_step s t \<Longrightarrow> ws_reach t"

inductive_cases ws_stepE: "ws_step s t"

section \<open>The broker under the connections\<close>

text \<open>Every step is a step of the broker's system or leaves it alone.\<close>

lemma recv_closed_same: "sub_recv ref b = Some (None, b') \<Longrightarrow> b' = b"
  by (auto simp: sub_recv_def chan_recv_def map_upd_triv split: option.splits list.splits if_splits)

lemma ws_step_broker:
  assumes "ws_step s t"
  shows "wn_bs t = wn_bs s \<or> broker_step (wn_bs s) (wn_bs t)"
  using assms
proof cases
  case (publish e b')
  then show ?thesis using broker_step.publish [OF publish(2)] by simp
next
  case (subscribe i c p b')
  then show ?thesis using broker_step.alloc [OF subscribe(4)] by simp
next
  case (enter i c p ps qs)
  then show ?thesis using broker_step.insert [OF enter(5)] by simp
next
  case (select_event i c p ev b')
  then show ?thesis using broker_step.recv [OF select_event(5)] by simp
next
  case (select_closed i c p b')
  then show ?thesis using recv_closed_same [OF select_closed(5)] by simp
next
  case (finish i c p b')
  then show ?thesis using broker_step.unsub [OF finish(5)] by simp
qed simp_all

lemma ws_reach_broker: "ws_reach s \<Longrightarrow> broker_reach 64 (wn_bs s)"
proof (induction rule: ws_reach.induct)
  case start
  show ?case by (simp add: ws_start_def broker_reach.start)
next
  case (step s t)
  then show ?case using ws_step_broker [OF step.hyps(2)] broker_reach.step by (metis (no_types))
qed

section \<open>The invariant\<close>

definition writing :: "conn \<Rightarrow> Event list" where
  "writing c = (case cn_pc c of WsWriting ev \<Rightarrow> [ev] | _ \<Rightarrow> [])"

text \<open>
  \<open>conn_ok bs c\<close>: the connection's number and channel are where its program counter says; what it
  took off the channel, filtered, is what was sent, lost with the last write, or is being written;
  and unless an event found the buffer full, what it took and what waits is all that was published.
\<close>

definition conn_ok :: "Event broker_sys \<Rightarrow> conn \<Rightarrow> bool" where
  "conn_ok bs c \<longleftrightarrow>
     (case cn_sub c of
        None \<Rightarrow> cn_pc c = WsAccepted \<and> cn_sent c = [] \<and> cn_lost c = [] \<and> cn_seen c = [] \<and> \<not> cn_dropped c
      | Some p \<Rightarrow>
          cn_pc c \<noteq> WsAccepted \<and> snd p < br_fresh (bs_broker bs)
        \<and> (cn_pc c = WsSubscribing \<longrightarrow> p \<in> set (bs_pending bs))
        \<and> (cn_pc c = WsClosed \<longrightarrow> snd p \<notin> snd ` set (all_subs bs))
        \<and> (cn_pc c \<notin> {WsSubscribing, WsClosed} \<longrightarrow> p \<in> set (br_subs (bs_broker bs)))
        \<and> filter (eventAllowed (cn_client c)) (bs_received bs (snd p)) = cn_sent c @ cn_lost c @ writing c
        \<and> (cn_pc c \<notin> {WsReturning, WsClosed} \<longrightarrow> cn_lost c = []) \<and> length (cn_lost c) \<le> 1
        \<and> (\<not> cn_dropped c \<longrightarrow> cn_seen c = bs_received bs (snd p) @ buffered (bs_broker bs) (snd p)))"

definition ws_inv :: "ws_sys \<Rightarrow> bool" where
  "ws_inv s \<longleftrightarrow>
     (\<forall>i c. wn_conns s i = Some c \<longrightarrow> conn_ok (wn_bs s) c)
   \<and> (\<forall>i j c d p q. wn_conns s i = Some c \<and> wn_conns s j = Some d \<and> cn_sub c = Some p \<and> cn_sub d = Some q
        \<and> snd p = snd q \<longrightarrow> i = j)
   \<and> (\<forall>ref. br_fresh (bs_broker (wn_bs s)) \<le> ref \<longrightarrow> bs_received (wn_bs s) ref = [])
   \<and> (\<forall>p \<in> set (all_subs (wn_bs s)). \<exists>i c. wn_conns s i = Some c \<and> cn_sub c = Some p)"

text \<open>What a step on one connection leaves of another's view of the broker.\<close>

definition same_view :: "Event broker_sys \<Rightarrow> Event broker_sys \<Rightarrow> u64 \<times> nat \<Rightarrow> bool" where
  "same_view bs bs' p \<longleftrightarrow>
     bs_received bs' (snd p) = bs_received bs (snd p)
   \<and> buffered (bs_broker bs') (snd p) = buffered (bs_broker bs) (snd p)
   \<and> (p \<in> set (bs_pending bs) \<longrightarrow> p \<in> set (bs_pending bs'))
   \<and> (p \<in> set (br_subs (bs_broker bs)) \<longrightarrow> p \<in> set (br_subs (bs_broker bs')))
   \<and> (snd p \<notin> snd ` set (all_subs bs) \<longrightarrow> snd p \<notin> snd ` set (all_subs bs'))"

lemma conn_ok_view:
  assumes "conn_ok bs c" and "br_fresh (bs_broker bs) \<le> br_fresh (bs_broker bs')"
    and "\<And>p. cn_sub c = Some p \<Longrightarrow> same_view bs bs' p"
  shows "conn_ok bs' c"
proof (cases "cn_sub c")
  case None
  with assms(1) show ?thesis by (simp add: conn_ok_def)
next
  case (Some p)
  with assms(1,2) assms(3) [OF Some] show ?thesis by (simp add: conn_ok_def same_view_def)
qed

lemma ws_invD:
  assumes "ws_inv s"
  shows "wn_conns s i = Some c \<Longrightarrow> conn_ok (wn_bs s) c"
    "wn_conns s i = Some c \<Longrightarrow> wn_conns s j = Some d \<Longrightarrow> cn_sub c = Some p \<Longrightarrow> cn_sub d = Some q \<Longrightarrow> snd p = snd q \<Longrightarrow> i = j"
    "br_fresh (bs_broker (wn_bs s)) \<le> ref \<Longrightarrow> bs_received (wn_bs s) ref = []"
    "p \<in> set (all_subs (wn_bs s)) \<Longrightarrow> \<exists>i c. wn_conns s i = Some c \<and> cn_sub c = Some p"
  using assms unfolding ws_inv_def by blast+

lemma conn_ok_ref: "conn_ok bs c \<Longrightarrow> cn_sub c = Some p \<Longrightarrow> snd p < br_fresh (bs_broker bs)"
  by (simp add: conn_ok_def)

text \<open>A step that touches one connection, keeping its subscription.\<close>

lemma ws_inv_one:
  assumes inv: "ws_inv s" and c: "wn_conns s i = Some c" and sub: "cn_sub c' = cn_sub c" and ok: "conn_ok bs' c'"
    and fresh: "br_fresh (bs_broker bs') = br_fresh (bs_broker (wn_bs s))"
    and others: "\<And>j d q. j \<noteq> i \<Longrightarrow> wn_conns s j = Some d \<Longrightarrow> cn_sub d = Some q \<Longrightarrow>
      (\<And>p. cn_sub c = Some p \<Longrightarrow> snd q \<noteq> snd p) \<Longrightarrow> same_view (wn_bs s) bs' q"
    and recv: "\<And>ref. br_fresh (bs_broker (wn_bs s)) \<le> ref \<Longrightarrow> bs_received bs' ref = bs_received (wn_bs s) ref"
    and subs: "set (all_subs bs') \<subseteq> set (all_subs (wn_bs s))"
  shows "ws_inv (set_conn i c' (s\<lparr>wn_bs := bs'\<rparr>))" (is "ws_inv ?t")
proof -
  note D = ws_invD [OF inv]
  have same: "\<exists>d. wn_conns s j = Some d \<and> cn_sub d = cn_sub d'" if "wn_conns ?t j = Some d'" for j d'
    using that c sub by (auto split: if_splits)
  have A: "conn_ok bs' d" if "wn_conns ?t j = Some d" for j d
  proof (cases "j = i")
    case True
    then show ?thesis using that ok by simp
  next
    case False
    then have d: "wn_conns s j = Some d" using that by simp
    show ?thesis
    proof (rule conn_ok_view [OF D(1) [OF d]])
      fix q assume q: "cn_sub d = Some q"
      show "same_view (wn_bs s) bs' q" by (rule others [OF False d q]) (use D(2) [OF d c q] False in blast)
    qed (simp add: fresh)
  qed
  have B: "j = k" if two: "wn_conns ?t j = Some d" "wn_conns ?t k = Some e" "cn_sub d = Some p" "cn_sub e = Some q"
    "snd p = snd q" for j k d e p q
  proof -
    obtain d0 e0 where de: "wn_conns s j = Some d0" "cn_sub d0 = Some p" "wn_conns s k = Some e0" "cn_sub e0 = Some q"
      using same [OF two(1)] same [OF two(2)] two(3,4) by auto
    from D(2) [OF de(1,3,2,4) two(5)] show ?thesis .
  qed
  have E: "\<exists>j d. wn_conns ?t j = Some d \<and> cn_sub d = Some p" if p: "p \<in> set (all_subs bs')" for p
  proof -
    obtain j d where "wn_conns s j = Some d" "cn_sub d = Some p" using D(4) p subs by blast
    then show ?thesis using c sub by (cases "j = i") auto
  qed
  have bs: "wn_bs ?t = bs'" by simp
  show ?thesis unfolding ws_inv_def bs
  proof (intro conjI allI impI ballI)
    show "conn_ok bs' d" if "wn_conns ?t j = Some d" for j d by (rule A [OF that])
    show "j = k" if "wn_conns ?t j = Some d \<and> wn_conns ?t k = Some e \<and> cn_sub d = Some p \<and> cn_sub e = Some q
      \<and> snd p = snd q" for j k d e p q
      using that by (elim conjE) (rule B)
    show "bs_received bs' ref = []" if "br_fresh (bs_broker bs') \<le> ref" for ref
      using that recv D(3) fresh by simp
    show "\<exists>j d. wn_conns ?t j = Some d \<and> cn_sub d = Some p" if "p \<in> set (all_subs bs')" for p by (rule E [OF that])
  qed
qed

lemma same_view_refl [simp]: "same_view bs bs p"
  by (simp add: same_view_def)

lemma ws_inv_local:
  assumes "ws_inv s" and "wn_conns s i = Some c" and "cn_sub c' = cn_sub c" and "conn_ok (wn_bs s) c'"
  shows "ws_inv (set_conn i c' s)"
proof -
  have "ws_inv (set_conn i c' (s\<lparr>wn_bs := wn_bs s\<rparr>))" by (rule ws_inv_one [OF assms]) simp_all
  then show ?thesis by simp
qed

text \<open>The steps that leave the broker alone.\<close>

lemma conn_ok_hangup: "conn_ok bs c \<Longrightarrow> conn_ok bs (c\<lparr>cn_done := True\<rparr>)"
  by (cases "cn_sub c") (simp_all add: conn_ok_def writing_def)

lemma conn_ok_select:
  "conn_ok bs c \<Longrightarrow> cn_pc c = WsSelect \<Longrightarrow> pc \<in> {WsReturning, WsPinging} \<Longrightarrow> conn_ok bs (c\<lparr>cn_pc := pc\<rparr>)"
  by (auto simp: conn_ok_def writing_def split: option.splits)

lemma conn_ok_write: "conn_ok bs c \<Longrightarrow> cn_pc c = WsWriting ev \<Longrightarrow> conn_ok bs (after_write w ev c)"
  by (auto simp: conn_ok_def writing_def after_write_def writeEvent_def split: option.splits)

lemma conn_ok_ping: "conn_ok bs c \<Longrightarrow> cn_pc c = WsPinging \<Longrightarrow> conn_ok bs (after_ping err c)"
  by (auto simp: conn_ok_def writing_def after_ping_def split: option.splits)

lemma after_sub: "cn_sub (after_write w ev c) = cn_sub c" "cn_sub (after_ping err c) = cn_sub c"
  by (simp_all add: after_write_def writeEvent_def after_ping_def split: option.splits)

lemma accept_inv:
  assumes inv: "ws_inv s" and new: "wn_conns s i = None"
  shows "ws_inv (set_conn i (new_conn cl) s)"
proof -
  have "conn_ok (wn_bs s) (new_conn cl)" by (simp add: conn_ok_def new_conn_def)
  moreover have "cn_sub (new_conn cl) = None" by (simp add: new_conn_def)
  moreover have "\<exists>j d. ((wn_conns s)(i \<mapsto> new_conn cl)) j = Some d \<and> cn_sub d = Some p"
    if p: "p \<in> set (all_subs (wn_bs s))" for p
  proof -
    obtain j d where "wn_conns s j = Some d" "cn_sub d = Some p" using ws_invD(4) [OF inv p] by blast
    moreover from this new have "j \<noteq> i" by auto
    ultimately show ?thesis by (intro exI [of _ j] exI [of _ d]) simp
  qed
  ultimately show ?thesis using inv unfolding ws_inv_def by (auto split: if_splits)
qed

lemma subscribe_inv:
  assumes inv: "ws_inv s" and br: "broker_inv 64 (wn_bs s)" and c: "wn_conns s i = Some c" and pc: "cn_pc c = WsAccepted"
    and al: "subscribe_alloc (bs_broker (wn_bs s)) = (p, b')"
  shows "ws_inv (set_conn i (c\<lparr>cn_sub := Some p, cn_pc := WsSubscribing\<rparr>)
    (s\<lparr>wn_bs := (wn_bs s)\<lparr>bs_broker := b', bs_pending := p # bs_pending (wn_bs s), bs_calls := Suc (bs_calls (wn_bs s))\<rparr>\<rparr>))"
    (is "ws_inv (set_conn i ?c (s\<lparr>wn_bs := ?bs\<rparr>))")
proof -
  note D = ws_invD [OF inv]
  let ?b = "bs_broker (wn_bs s)"
  have p: "snd p = br_fresh ?b" and b': "br_subs b' = br_subs ?b" "br_fresh b' = Suc (br_fresh ?b)"
    "br_chans b' = (br_chans ?b)(br_fresh ?b \<mapsto> make_chan (br_bufSize ?b))"
    using al by (auto simp: subscribe_alloc_def Let_def)
  have none: "cn_sub c = None" "cn_sent c = []" "cn_lost c = []" "cn_seen c = []" "\<not> cn_dropped c"
    using D(1) [OF c] pc by (auto simp: conn_ok_def split: option.splits)
  have buf: "buffered b' ref = (if ref = br_fresh ?b then [] else buffered ?b ref)" for ref
    by (simp add: buffered_def b' make_chan_def)
  have all: "set (all_subs ?bs) = insert p (set (all_subs (wn_bs s)))" by (auto simp: all_subs_def b')
  have "conn_ok ?bs ?c"
    using none D(3) [of "br_fresh ?b"] by (simp add: conn_ok_def p b' buf writing_def)
  moreover have "conn_ok ?bs d" if d: "wn_conns s j = Some d" for j d
  proof (rule conn_ok_view [OF D(1) [OF d]])
    fix q assume "cn_sub d = Some q"
    from conn_ok_ref [OF D(1) [OF d] this] have "snd q \<noteq> snd p" by (simp add: p)
    then show "same_view (wn_bs s) ?bs q" using p by (auto simp: same_view_def buf b' all)
  qed (simp add: b')
  moreover have "snd q \<noteq> snd p" if "wn_conns s j = Some d" "cn_sub d = Some q" for j d q
    using conn_ok_ref [OF D(1) [OF that(1)] that(2)] by (simp add: p)
  moreover have "\<exists>j d. ((wn_conns s)(i \<mapsto> ?c)) j = Some d \<and> cn_sub d = Some q" if q: "q \<in> set (all_subs ?bs)" for q
  proof (cases "q = p")
    case True
    then show ?thesis by (intro exI [of _ i] exI [of _ ?c]) simp
  next
    case False
    then obtain j d where "wn_conns s j = Some d" "cn_sub d = Some q" using q D(4) unfolding all by blast
    moreover from this none(1) c have "j \<noteq> i" by auto
    ultimately show ?thesis by (intro exI [of _ j] exI [of _ d]) simp
  qed
  ultimately show ?thesis using D(2,3) b'(2) unfolding ws_inv_def by (auto split: if_splits) (metis Suc_leD)+
qed

text \<open>What the broker's invariant says of a connection's subscription.\<close>

lemma broker_invD:
  assumes "broker_inv m bs"
  shows "distinct (map fst (all_subs bs))" "distinct (map snd (all_subs bs))" "br_bufSize (bs_broker bs) = m"
    "chans_ok m (bs_broker bs)" "p \<in> set (all_subs bs) \<Longrightarrow> open_chan (br_chans (bs_broker bs)) (snd p)"
  using assms by (auto simp: broker_inv_def sub_ok_def)

lemma not_subscribed_ref:
  assumes "broker_inv m bs" and "conn_ok bs c" and "cn_sub c = Some p" and "p \<notin> set (br_subs (bs_broker bs))"
  shows "snd p \<notin> snd ` set (br_subs (bs_broker bs))"
proof (cases "cn_pc c = WsSubscribing")
  case True
  then have "p \<in> set (bs_pending bs)" using assms(2,3) by (simp add: conn_ok_def)
  then show ?thesis using broker_invD(2) [OF assms(1)] by (auto simp: all_subs_def)
next
  case False
  then have "cn_pc c = WsClosed" using assms(2-4) by (auto simp: conn_ok_def)
  then show ?thesis using assms(2,3) by (auto simp: conn_ok_def all_subs_def)
qed

lemma note_fields [simp]:
  "cn_sub (note_publish e b c) = cn_sub c" "cn_pc (note_publish e b c) = cn_pc c"
  "cn_client (note_publish e b c) = cn_client c" "cn_sent (note_publish e b c) = cn_sent c"
  "cn_lost (note_publish e b c) = cn_lost c" "cn_done (note_publish e b c) = cn_done c"
  by (simp_all add: note_publish_def split: option.splits)

lemma conn_ok_publish:
  assumes br: "broker_inv m bs" and ok: "conn_ok bs c" and pub: "Publish e (bs_broker bs) = Inr b'"
  shows "conn_ok (bs\<lparr>bs_broker := b', bs_published := l\<rparr>) (note_publish e (bs_broker bs) c)"
proof (cases "cn_sub c")
  case None
  with ok show ?thesis by (simp add: conn_ok_def note_publish_def)
next
  case (Some p)
  let ?b = "bs_broker bs"
  have b': "b' = ?b\<lparr>br_chans := (\<lambda>ref. if ref \<in> snd ` set (br_subs ?b)
      then map_option (offered e) (br_chans ?b ref) else br_chans ?b ref)\<rparr>"
    using inv_Publish [OF br, of e] pub by simp
  have same: "br_subs b' = br_subs ?b" "br_fresh b' = br_fresh ?b" by (simp_all add: b')
  have all: "all_subs (bs\<lparr>bs_broker := b', bs_published := l\<rparr>) = all_subs bs" by (simp add: all_subs_def same)
  show ?thesis
  proof (cases "p \<in> set (br_subs ?b)")
    case True
    then have "open_chan (br_chans ?b) (snd p)" using broker_invD(5) [OF br] by (simp add: all_subs_def)
    then obtain ch where ch: "br_chans ?b (snd p) = Some ch" by (auto simp: open_chan_def)
    have cap: "ch_cap ch = br_bufSize ?b" using chans_okD [OF broker_invD(4) [OF br] ch] broker_invD(3) [OF br] by simp
    have "snd p \<in> snd ` set (br_subs ?b)" using True by simp
    then have "buffered b' (snd p)
        = buffered ?b (snd p) @ (if length (buffered ?b (snd p)) < br_bufSize ?b then [e] else [])"
      using ch cap by (simp add: buffered_def b')
    then show ?thesis using ok Some True
      by (auto simp: conn_ok_def same all writing_def) (simp_all add: note_publish_def)
  next
    case False
    note no = not_subscribed_ref [OF br ok Some False]
    then have "buffered b' (snd p) = buffered ?b (snd p)" by (simp add: buffered_def b')
    then show ?thesis using ok Some False by (simp add: conn_ok_def same all writing_def note_publish_def)
  qed
qed

lemma publish_inv_ws:
  assumes inv: "ws_inv s" and br: "broker_inv 64 (wn_bs s)" and pub: "Publish e (bs_broker (wn_bs s)) = Inr b'"
  shows "ws_inv (s\<lparr>wn_bs := (wn_bs s)\<lparr>bs_broker := b', bs_published := bs_published (wn_bs s) @ [e]\<rparr>,
       wn_conns := (\<lambda>i. map_option (note_publish e (bs_broker (wn_bs s))) (wn_conns s i))\<rparr>)"
    (is "ws_inv ?t")
proof -
  note D = ws_invD [OF inv]
  have b': "br_subs b' = br_subs (bs_broker (wn_bs s))" "br_fresh b' = br_fresh (bs_broker (wn_bs s))"
    using inv_Publish [OF br, of e] pub by auto
  have "conn_ok (wn_bs ?t) c" if "wn_conns ?t i = Some c" for i c
  proof -
    from that obtain c0 where c0: "wn_conns s i = Some c0" "c = note_publish e (bs_broker (wn_bs s)) c0" by auto
    show ?thesis using conn_ok_publish [OF br D(1) [OF c0(1)] pub] by (simp add: c0(2))
  qed
  moreover have "i = j" if two: "wn_conns ?t i = Some c" "wn_conns ?t j = Some d" "cn_sub c = Some p" "cn_sub d = Some q"
    "snd p = snd q" for i j c d p q
  proof -
    obtain c0 d0 where "wn_conns s i = Some c0" "wn_conns s j = Some d0" "cn_sub c0 = Some p" "cn_sub d0 = Some q"
      using two by auto
    from D(2) [OF this two(5)] show ?thesis .
  qed
  moreover have "bs_received (wn_bs ?t) ref = []" if "br_fresh (bs_broker (wn_bs ?t)) \<le> ref" for ref
    using that D(3) by (simp add: b')
  moreover have "\<exists>i c. wn_conns ?t i = Some c \<and> cn_sub c = Some p" if p: "p \<in> set (all_subs (wn_bs ?t))" for p
  proof -
    have "p \<in> set (all_subs (wn_bs s))" using p by (simp add: all_subs_def b')
    from D(4) [OF this] obtain i c where "wn_conns s i = Some c" "cn_sub c = Some p" by blast
    then show ?thesis by (intro exI [of _ i]) simp
  qed
  ultimately show ?thesis unfolding ws_inv_def by (intro conjI allI impI ballI) (blast, blast, blast, blast)
qed

lemma enter_inv:
  assumes inv: "ws_inv s" and br: "broker_inv 64 (wn_bs s)" and c: "wn_conns s i = Some c"
    and pc: "cn_pc c = WsSubscribing" and sub: "cn_sub c = Some p" and pend: "bs_pending (wn_bs s) = ps @ p # qs"
  shows "ws_inv (set_conn i (c\<lparr>cn_pc := WsSelect\<rparr>)
    (s\<lparr>wn_bs := (wn_bs s)\<lparr>bs_broker := subscribe_insert p (bs_broker (wn_bs s)), bs_pending := ps @ qs\<rparr>\<rparr>))"
    (is "ws_inv (set_conn i ?c (s\<lparr>wn_bs := ?bs\<rparr>))")
proof -
  let ?b = "bs_broker (wn_bs s)"
  have "fst p \<notin> fst ` set (br_subs ?b)" using broker_invD(1) [OF br] by (auto simp: all_subs_def pend)
  then have b: "subscribe_insert p ?b = ?b\<lparr>br_subs := br_subs ?b @ [p]\<rparr>"
    by (simp add: subscribe_insert_def subs_update_fresh)
  have all: "set (all_subs ?bs) = set (all_subs (wn_bs s))" by (auto simp: all_subs_def b pend)
  have buf: "buffered (bs_broker ?bs) ref = buffered ?b ref" for ref by (simp add: buffered_def b)
  show ?thesis
  proof (rule ws_inv_one [OF inv c])
    show "conn_ok ?bs ?c" using ws_invD(1) [OF inv c] pc sub by (auto simp: conn_ok_def writing_def buffered_def b)
    show "same_view (wn_bs s) ?bs q" if q: "\<And>p. cn_sub c = Some p \<Longrightarrow> snd q \<noteq> snd p" for j d q
      using q [OF sub] by (auto simp: same_view_def buf all pend) (auto simp: b buffered_def)
  qed (use all in \<open>auto simp: b\<close>)
qed

lemma event_inv:
  assumes inv: "ws_inv s" and c: "wn_conns s i = Some c" and pc: "cn_pc c = WsSelect"
    and sub: "cn_sub c = Some p" and rc: "sub_recv (snd p) (bs_broker (wn_bs s)) = Some (Some ev, b')"
  shows "ws_inv (set_conn i (c\<lparr>cn_pc := ws_select (cn_client c) (FromSub (Some ev))\<rparr>)
       (s\<lparr>wn_bs := (wn_bs s)\<lparr>bs_broker := b',
           bs_received := (bs_received (wn_bs s))(snd p := bs_received (wn_bs s) (snd p) @ [ev])\<rparr>\<rparr>))"
    (is "ws_inv (set_conn i ?c (s\<lparr>wn_bs := ?bs\<rparr>))")
proof -
  let ?b = "bs_broker (wn_bs s)"
  obtain ch ch' where ch: "br_chans ?b (snd p) = Some ch" "chan_recv ch = Some (Some ev, ch')"
    and b': "b' = ?b\<lparr>br_chans := (br_chans ?b)(snd p \<mapsto> ch')\<rparr>"
    using rc by (auto simp: sub_recv_def split: option.splits)
  have "ch_buf ch = ev # ch_buf ch'" using ch(2) by (auto simp: chan_recv_def split: list.splits if_splits)
  then have buf: "buffered ?b (snd p) = ev # buffered b' (snd p)"
    "\<And>ref. ref \<noteq> snd p \<Longrightarrow> buffered b' ref = buffered ?b ref"
    using ch(1) by (simp_all add: buffered_def b')
  have all: "all_subs ?bs = all_subs (wn_bs s)" by (simp add: all_subs_def b')
  have fresh: "snd p < br_fresh ?b" by (rule conn_ok_ref [OF ws_invD(1) [OF inv c] sub])
  show ?thesis
  proof (rule ws_inv_one [OF inv c])
    show "conn_ok ?bs ?c" using ws_invD(1) [OF inv c] pc sub by (auto simp: conn_ok_def writing_def buf(1) all) (simp_all add: b')
    show "same_view (wn_bs s) ?bs q" if q: "\<And>p. cn_sub c = Some p \<Longrightarrow> snd q \<noteq> snd p" for j d q
      using q [OF sub] by (simp add: same_view_def buf(2) all) (simp add: b')
  qed (use fresh in \<open>auto simp: all_subs_def b'\<close>)
qed

lemma finish_inv:
  assumes inv: "ws_inv s" and br: "broker_inv 64 (wn_bs s)" and c: "wn_conns s i = Some c"
    and pc: "cn_pc c = WsReturning" and sub: "cn_sub c = Some p" and un: "unsubscribe (fst p) (bs_broker (wn_bs s)) = Inr b'"
  shows "ws_inv (set_conn i (c\<lparr>cn_pc := WsClosed, cn_done := True\<rparr>) (s\<lparr>wn_bs := (wn_bs s)\<lparr>bs_broker := b'\<rparr>\<rparr>))"
    (is "ws_inv (set_conn i ?c (s\<lparr>wn_bs := ?bs\<rparr>))")
    "set (all_subs ((wn_bs s)\<lparr>bs_broker := b'\<rparr>)) = set (all_subs (wn_bs s)) - {p}"
proof -
  let ?b = "bs_broker (wn_bs s)"
  note BD = broker_invD [OF br]
  have ok: "conn_ok (wn_bs s) c" by (rule ws_invD(1) [OF inv c])
  have mem: "p \<in> set (br_subs ?b)" using ok pc sub by (simp add: conn_ok_def)
  have "distinct (map fst (br_subs ?b))" using BD(1) by (simp add: all_subs_def)
  from map_of_is_SomeI [OF this, of "fst p" "snd p"] mem have "map_of (br_subs ?b) (fst p) = Some (snd p)" by simp
  then have b': "b' = ?b\<lparr>br_subs := filter (\<lambda>q. fst q \<noteq> fst p) (br_subs ?b),
      br_chans := (br_chans ?b)(snd p := map_option (\<lambda>c. c\<lparr>ch_closed := True\<rparr>) (br_chans ?b (snd p)))\<rparr>"
    using inv_unsubscribe [OF br, of "fst p"] un by simp
  have p: "p \<in> set (all_subs (wn_bs s))" using mem by (simp add: all_subs_def)
  have eq1: "q = p" if "q \<in> set (all_subs (wn_bs s))" "fst q = fst p" for q by (rule distinct_map_eq [OF BD(1) that(1) p that(2)])
  have eq2: "q = p" if "q \<in> set (all_subs (wn_bs s))" "snd q = snd p" for q by (rule distinct_map_eq [OF BD(2) that(1) p that(2)])
  have "p \<notin> set (bs_pending (wn_bs s))" using BD(1) mem by (auto simp: all_subs_def)
  then show all: "set (all_subs ?bs) = set (all_subs (wn_bs s)) - {p}"
    using eq1 by (auto simp: all_subs_def b')
  have buf: "buffered b' ref = buffered ?b ref" for ref by (simp add: buffered_def b' split: option.splits)
  have gone: "snd p \<notin> snd ` set (all_subs ?bs)" using eq2 unfolding all by force
  show "ws_inv (set_conn i ?c (s\<lparr>wn_bs := ?bs\<rparr>))"
  proof (rule ws_inv_one [OF inv c])
    show "conn_ok ?bs ?c" using ok pc sub gone by (auto simp: conn_ok_def writing_def buf) (simp_all add: b')
    show "same_view (wn_bs s) ?bs q" if q: "\<And>p. cn_sub c = Some p \<Longrightarrow> snd q \<noteq> snd p" for j d q
    proof -
      have "q \<in> set (br_subs b')" if "q \<in> set (br_subs ?b)"
        using that q [OF sub] eq1 [of q] by (auto simp: all_subs_def b')
      moreover have "snd ` set (all_subs ?bs) \<subseteq> snd ` set (all_subs (wn_bs s))" unfolding all by auto
      ultimately show ?thesis by (auto simp: same_view_def buf)
    qed
  qed (use all in \<open>auto simp: b'\<close>)
qed

lemma ws_step_inv:
  assumes inv: "ws_inv s" and br: "broker_inv 64 (wn_bs s)" and step: "ws_step s t"
  shows "ws_inv t"
  using step
proof cases
  case (publish e b')
  then show ?thesis using publish_inv_ws [OF inv br publish(2)] by simp
next
  case (accept i cl)
  then show ?thesis using accept_inv [OF inv] by simp
next
  case (subscribe i c p b')
  then show ?thesis using subscribe_inv [OF inv br subscribe(2-4)] by simp
next
  case (enter i c p ps qs)
  then show ?thesis using enter_inv [OF inv br enter(2-5)] by simp
next
  case (hangup i c)
  then show ?thesis using ws_inv_local [OF inv hangup(2) _ conn_ok_hangup] ws_invD(1) [OF inv hangup(2)] by simp
next
  case (select_done i c)
  then show ?thesis using ws_inv_local [OF inv select_done(2) _ conn_ok_select] ws_invD(1) [OF inv select_done(2)] by simp
next
  case (select_event i c p ev b')
  then show ?thesis using event_inv [OF inv select_event(2-5)] by simp
next
  case (select_closed i c p b')
  then show ?thesis using ws_inv_local [OF inv select_closed(2) _ conn_ok_select] ws_invD(1) [OF inv select_closed(2)]
      recv_closed_same [OF select_closed(5)] by simp
next
  case (select_ping i c)
  then show ?thesis using ws_inv_local [OF inv select_ping(2) _ conn_ok_select] ws_invD(1) [OF inv select_ping(2)] by simp
next
  case (written i c ev w)
  then show ?thesis using ws_inv_local [OF inv written(2) after_sub(1) conn_ok_write] ws_invD(1) [OF inv written(2)] by simp
next
  case (pinged i c err)
  then show ?thesis using ws_inv_local [OF inv pinged(2) after_sub(2) conn_ok_ping] ws_invD(1) [OF inv pinged(2)] by simp
next
  case (finish i c p b')
  then show ?thesis using finish_inv(1) [OF inv br finish(2-5)] by simp
qed

lemma ws_reach_inv: "ws_reach s \<Longrightarrow> bs_calls (wn_bs s) < 2 ^ 64 \<Longrightarrow> ws_inv s \<and> broker_inv 64 (wn_bs s)"
proof (induction rule: ws_reach.induct)
  case start
  show ?case using start_inv [of 64]
    by (simp add: ws_inv_def ws_start_def) (simp add: sys_start_def newBroker_def all_subs_def)
next
  case (step s t)
  have "bs_calls (wn_bs s) \<le> bs_calls (wn_bs t)" using ws_step_broker [OF step.hyps(2)] step_calls by force
  then have s: "ws_inv s" "broker_inv 64 (wn_bs s)" using step.IH step.prems by simp_all
  have "broker_inv 64 (wn_bs t)" by (rule reach_inv [OF ws_reach_broker [OF ws_reach.step [OF step.hyps]] step.prems])
  with ws_step_inv [OF s step.hyps(2)] show ?case by simp
qed

section \<open>Closing a connection\<close>

definition closes :: "nat \<Rightarrow> ws_sys \<Rightarrow> bool" where
  "closes i s \<longleftrightarrow> (\<exists>t c. ws_step\<^sup>*\<^sup>* s t \<and> wn_conns t i = Some c \<and> cn_pc c = WsClosed)"

lemma closes_step: "ws_step s t \<Longrightarrow> closes i t \<Longrightarrow> closes i s"
  unfolding closes_def by (meson converse_rtranclp_into_rtranclp)

text \<open>The deferred unsubscription never fails.\<close>

lemma finish_enabled:
  assumes r: "ws_reach s" "bs_calls (wn_bs s) < 2 ^ 64" and c: "wn_conns s i = Some c" "cn_pc c = WsReturning"
  shows "\<exists>p t d. cn_sub c = Some p \<and> ws_step s t \<and> wn_conns t i = Some d \<and> cn_pc d = WsClosed
    \<and> set (all_subs (wn_bs t)) = set (all_subs (wn_bs s)) - {p}"
proof -
  have inv: "ws_inv s" and br: "broker_inv 64 (wn_bs s)" using ws_reach_inv [OF r] by simp_all
  obtain p where p: "cn_sub c = Some p" using ws_invD(1) [OF inv c(1)] c(2) by (cases "cn_sub c") (auto simp: conn_ok_def)
  obtain b' where b': "unsubscribe (fst p) (bs_broker (wn_bs s)) = Inr b'"
    using inv_unsubscribe [OF br, of "fst p"] by (auto split: option.splits)
  have "set (all_subs ((wn_bs s)\<lparr>bs_broker := b'\<rparr>)) = set (all_subs (wn_bs s)) - {p}"
    by (rule finish_inv(2) [OF inv br c p b'])
  with ws_step.finish [OF c p b'] p show ?thesis
    by (intro exI [of _ p] exI [of _ "set_conn i (c\<lparr>cn_pc := WsClosed, cn_done := True\<rparr>) (s\<lparr>wn_bs := (wn_bs s)\<lparr>bs_broker := b'\<rparr>\<rparr>)"]
        exI [of _ "c\<lparr>cn_pc := WsClosed, cn_done := True\<rparr>"]) simp
qed

lemma closes_returning:
  assumes "ws_reach s" and "bs_calls (wn_bs s) < 2 ^ 64" and "wn_conns s i = Some c" and "cn_pc c = WsReturning"
  shows "closes i s"
  using finish_enabled [OF assms] unfolding closes_def by (meson r_into_rtranclp)

lemma closes_select:
  assumes r: "ws_reach s" "bs_calls (wn_bs s) < 2 ^ 64" and c: "wn_conns s i = Some c" "cn_pc c = WsSelect" "cn_done c"
  shows "closes i s"
proof (rule closes_step [OF ws_step.select_done [OF c]])
  show "closes i (set_conn i (c\<lparr>cn_pc := ws_select (cn_client c) CtxDone\<rparr>) s)"
    by (rule closes_returning [where c = "c\<lparr>cn_pc := WsReturning\<rparr>", OF ws_reach.step [OF r(1) ws_step.select_done [OF c]]])
      (use r in simp_all)
qed

lemma closes_subscribing:
  assumes r: "ws_reach s" "bs_calls (wn_bs s) < 2 ^ 64" and c: "wn_conns s i = Some c" "cn_pc c = WsSubscribing" "cn_done c"
  shows "closes i s"
proof -
  have "conn_ok (wn_bs s) c" using ws_reach_inv [OF r] ws_invD(1) c(1) by blast
  with c(2) obtain p where p: "cn_sub c = Some p" "p \<in> set (bs_pending (wn_bs s))"
    by (cases "cn_sub c") (auto simp: conn_ok_def)
  obtain ps qs where "bs_pending (wn_bs s) = ps @ p # qs" using split_list [OF p(2)] by blast
  note st = ws_step.enter [OF c(1,2) p(1) this]
  show ?thesis
    by (rule closes_step [OF st], rule closes_select [where c = "c\<lparr>cn_pc := WsSelect\<rparr>", OF ws_reach.step [OF r(1) st]])
      (use r c in simp_all)
qed

lemma closes_done:
  assumes r: "ws_reach s" "Suc (bs_calls (wn_bs s)) < 2 ^ 64" and c: "wn_conns s i = Some c" "cn_done c"
  shows "closes i s"
proof -
  have few: "bs_calls (wn_bs s) < 2 ^ 64" using r(2) by simp
  show ?thesis
  proof (cases "cn_pc c")
    case WsAccepted
    obtain p b' where "subscribe_alloc (bs_broker (wn_bs s)) = (p, b')" by (cases "subscribe_alloc (bs_broker (wn_bs s))")
    note st = ws_step.subscribe [OF c(1) WsAccepted this]
    show ?thesis
      by (rule closes_step [OF st], rule closes_subscribing [where c = "c\<lparr>cn_sub := Some p, cn_pc := WsSubscribing\<rparr>",
            OF ws_reach.step [OF r(1) st]]) (use r c in simp_all)
  next
    case WsSubscribing
    then show ?thesis by (rule closes_subscribing [OF r(1) few c(1) _ c(2)])
  next
    case WsSelect
    then show ?thesis by (rule closes_select [OF r(1) few c(1) _ c(2)])
  next
    case (WsWriting ev)
    note st = ws_step.written [OF c(1) WsWriting, of None]
    show ?thesis
      by (rule closes_step [OF st], rule closes_select [where c = "after_write None ev c", OF ws_reach.step [OF r(1) st]])
        (use few c in \<open>simp_all add: after_write_def writeEvent_def\<close>)
  next
    case WsPinging
    note st = ws_step.pinged [OF c(1) WsPinging, of None]
    show ?thesis
      by (rule closes_step [OF st], rule closes_select [where c = "after_ping None c", OF ws_reach.step [OF r(1) st]])
        (use few c in \<open>simp_all add: after_ping_def\<close>)
  next
    case WsReturning
    then show ?thesis by (rule closes_returning [OF r(1) few c(1)])
  next
    case WsClosed
    with c show ?thesis unfolding closes_def by blast
  qed
qed

section \<open>Properties\<close>

lemma no_sub_facts:
  assumes "ws_reach s" and "bs_calls (wn_bs s) < 2 ^ 64" and "wn_conns s i = Some c" and "cn_sub c = None"
  shows "cn_sent c = []" "cn_lost c = []" "cn_seen c = []" "writing c = []"
proof -
  have "ws_inv s" using ws_reach_inv [OF assms(1,2)] by simp
  from ws_invD(1) [OF this assms(3)] assms(4)
  show "cn_sent c = []" "cn_lost c = []" "cn_seen c = []" "writing c = []" by (simp_all add: conn_ok_def writing_def)
qed

lemma stream_facts:
  assumes r: "ws_reach s" "bs_calls (wn_bs s) < 2 ^ 64" and c: "wn_conns s i = Some c" and p: "cn_sub c = Some p"
  shows "filter (eventAllowed (cn_client c)) (bs_received (wn_bs s) (snd p)) = cn_sent c @ cn_lost c @ writing c"
    "subseq (bs_received (wn_bs s) (snd p)) (bs_published (wn_bs s))"
    "length (buffered (bs_broker (wn_bs s)) (snd p)) \<le> 64"
    "\<not> cn_dropped c \<Longrightarrow> cn_seen c = bs_received (wn_bs s) (snd p) @ buffered (bs_broker (wn_bs s)) (snd p)"
    "cn_pc c \<notin> {WsReturning, WsClosed} \<Longrightarrow> cn_lost c = []" "length (cn_lost c) \<le> 1"
proof -
  have inv: "ws_inv s" "broker_inv 64 (wn_bs s)" using ws_reach_inv [OF r] by simp_all
  have ok: "conn_ok (wn_bs s) c" by (rule ws_invD(1) [OF inv(1) c])
  then show "filter (eventAllowed (cn_client c)) (bs_received (wn_bs s) (snd p)) = cn_sent c @ cn_lost c @ writing c"
    "\<not> cn_dropped c \<Longrightarrow> cn_seen c = bs_received (wn_bs s) (snd p) @ buffered (bs_broker (wn_bs s)) (snd p)"
    "cn_pc c \<notin> {WsReturning, WsClosed} \<Longrightarrow> cn_lost c = []" "length (cn_lost c) \<le> 1"
    using p by (simp_all add: conn_ok_def)
  have "log_inv (wn_bs s)" by (rule reach_log [OF ws_reach_broker [OF r(1)] r(2)])
  then have "subseq (bs_received (wn_bs s) (snd p) @ buffered (bs_broker (wn_bs s)) (snd p)) (bs_published (wn_bs s))"
    by (simp add: log_inv_def)
  then show "subseq (bs_received (wn_bs s) (snd p)) (bs_published (wn_bs s))" by (rule subseq_order.order_trans [rotated]) (simp add: prefix_imp_subseq)
  show "length (buffered (bs_broker (wn_bs s)) (snd p)) \<le> 64"
    using broker_invD(4) [OF inv(2)] by (auto simp: buffered_def chan_ok_def dest: chans_okD split: option.splits)
qed

text \<open>
  C2: A connection is sent only events its client may see, in the order of publication and each
  once; and as long as its buffer of 64 never was full, it has been sent every such event
  published since it subscribed, but for the at most 64 that wait and the one being written or
  lost with the connection.
\<close>

theorem ws_stream_exact:
  assumes "ws_reach s" and "bs_calls (wn_bs s) < 2 ^ 64" and "wn_conns s i = Some c"
  shows "subseq (cn_sent c) (filter (eventAllowed (cn_client c)) (bs_published (wn_bs s)))
    \<and> (\<not> cn_dropped c \<longrightarrow> (\<exists>waiting. length waiting \<le> 64
         \<and> filter (eventAllowed (cn_client c)) (cn_seen c)
           = cn_sent c @ cn_lost c @ writing c @ filter (eventAllowed (cn_client c)) waiting))
    \<and> length (cn_lost c) \<le> 1 \<and> (cn_pc c \<notin> {WsReturning, WsClosed} \<longrightarrow> cn_lost c = [])"
proof (cases "cn_sub c")
  case None
  show ?thesis using no_sub_facts [OF assms None] by (simp add: exI [of _ "[]"])
next
  case (Some p)
  note f = stream_facts [OF assms Some]
  let ?P = "eventAllowed (cn_client c)"
  have "subseq (filter ?P (bs_received (wn_bs s) (snd p))) (filter ?P (bs_published (wn_bs s)))"
    using f(2) by (rule subseq_filter)
  then have "subseq (cn_sent c @ cn_lost c @ writing c) (filter ?P (bs_published (wn_bs s)))" by (simp only: f(1))
  then have "subseq (cn_sent c) (filter ?P (bs_published (wn_bs s)))"
    by (rule subseq_order.order_trans [rotated]) (simp add: prefix_imp_subseq)
  moreover have "filter ?P (cn_seen c) = cn_sent c @ cn_lost c @ writing c @ filter ?P (buffered (bs_broker (wn_bs s)) (snd p))"
    if "\<not> cn_dropped c"
    using f(1,4) that by simp
  ultimately show ?thesis using f(3,5,6) by blast
qed

text \<open>A connection that is accepted, subscribes, and gets the one event that is published.\<close>

definition event_in :: "i64 \<Rightarrow> string \<Rightarrow> Event" where
  "event_in chat t = \<lparr>ev_Type = ''message'', ev_ChatID = chat, ev_MsgID = 21, ev_From = '''', ev_FromID = 0,
     ev_Text = t, ev_Media = None, ev_Ts = 5, ev_ReplyTo = 0\<rparr>"

definition one_conn :: "Event broker \<Rightarrow> (u64 \<times> nat) list \<Rightarrow> Event list \<Rightarrow> Event list \<Rightarrow> conn \<Rightarrow> ws_sys" where
  "one_conn b pending published received c =
     \<lparr>wn_bs = \<lparr>bs_broker = b, bs_pending = pending, bs_calls = 1, bs_published = published,
        bs_received = (\<lambda>ref. if ref = 0 then received else [])\<rparr>, wn_conns = [0 \<mapsto> c]\<rparr>"

definition one_sub :: "(u64 \<times> nat) list \<Rightarrow> Event list \<Rightarrow> Event broker" where
  "one_sub subs buf = \<lparr>br_nextID = 1, br_subs = subs, br_bufSize = 64,
     br_chans = [0 \<mapsto> \<lparr>ch_cap = 64, ch_buf = buf, ch_closed = False\<rparr>], br_fresh = 1\<rparr>"

definition one_stream :: "ClientConfig \<Rightarrow> ws_pc \<Rightarrow> Event list \<Rightarrow> conn" where
  "one_stream cl pc seen = (new_conn (Some cl))\<lparr>cn_sub := Some (1, 0), cn_pc := pc, cn_seen := seen\<rparr>"

text \<open>The steps of one connection over one subscription.\<close>

abbreviation stream_new :: "ClientConfig \<Rightarrow> ws_sys" where
  "stream_new cl \<equiv> set_conn 0 (new_conn (Some cl)) ws_start"

abbreviation stream_half :: "ClientConfig \<Rightarrow> ws_sys" where
  "stream_half cl \<equiv> one_conn (one_sub [] []) [(1, 0)] [] [] (one_stream cl WsSubscribing [])"

abbreviation stream_idle :: "ClientConfig \<Rightarrow> ws_sys" where
  "stream_idle cl \<equiv> one_conn (one_sub [(1, 0)] []) [] [] [] (one_stream cl WsSelect [])"

abbreviation stream_full :: "ClientConfig \<Rightarrow> Event \<Rightarrow> ws_sys" where
  "stream_full cl ev \<equiv> one_conn (one_sub [(1, 0)] [ev]) [] [ev] [] (one_stream cl WsSelect [ev])"

abbreviation stream_took :: "ClientConfig \<Rightarrow> Event \<Rightarrow> ws_sys" where
  "stream_took cl ev \<equiv>
     one_conn (one_sub [(1, 0)] []) [] [ev] [ev] (one_stream cl (ws_select (Some cl) (FromSub (Some ev))) [ev])"

abbreviation stream_wrote :: "ClientConfig \<Rightarrow> Event \<Rightarrow> ws_sys" where
  "stream_wrote cl ev \<equiv>
     one_conn (one_sub [(1, 0)] []) [] [ev] [ev] ((one_stream cl WsSelect [ev])\<lparr>cn_sent := [ev]\<rparr>)"

lemma stream_alloc_step: "ws_step (stream_new cl) (stream_half cl)"
proof -
  have "subscribe_alloc (newBroker 64) = ((1, 0), one_sub [] [])"
    by (simp add: subscribe_alloc_def newBroker_def one_sub_def make_chan_def)
  then have "ws_step (stream_new cl)
      (set_conn 0 ((new_conn (Some cl))\<lparr>cn_sub := Some (1, 0), cn_pc := WsSubscribing\<rparr>)
        ((stream_new cl)\<lparr>wn_bs := (wn_bs (stream_new cl))
          \<lparr>bs_broker := one_sub [] [], bs_pending := (1, 0) # bs_pending (wn_bs (stream_new cl)),
           bs_calls := Suc (bs_calls (wn_bs (stream_new cl)))\<rparr>\<rparr>))"
    by (intro ws_step.subscribe) (simp_all add: ws_start_def sys_start_def new_conn_def)
  then show ?thesis by (simp add: ws_start_def sys_start_def one_conn_def one_stream_def new_conn_def)
qed

lemma stream_enter_step: "ws_step (stream_half cl) (stream_idle cl)"
  using ws_step.enter [of "one_conn (one_sub [] []) ([] @ (1, 0) # []) [] [] (one_stream cl WsSubscribing [])" 0
      "one_stream cl WsSubscribing []" "(1, 0)" "[]" "[]"]
  by (simp add: one_conn_def one_stream_def new_conn_def subscribe_insert_def one_sub_def)

lemma stream_note: "note_publish ev (one_sub [(1, 0)] []) (one_stream cl WsSelect []) = one_stream cl WsSelect [ev]"
  by (simp add: note_publish_def one_stream_def new_conn_def) (simp add: one_sub_def buffered_def)

lemma stream_Publish: "Publish ev (one_sub [(1, 0)] []) = Inr (one_sub [(1, 0)] [ev])"
  by (simp add: Publish_def one_sub_def chan_try_send_def)

lemma stream_publish_step: "ws_step (stream_idle cl) (stream_full cl ev)"
proof -
  have "Publish ev (bs_broker (wn_bs (stream_idle cl))) = Inr (one_sub [(1, 0)] [ev])"
    using stream_Publish by (simp add: one_conn_def)
  note st = ws_step.publish [OF this]
  have "(\<lambda>i. map_option (note_publish ev (bs_broker (wn_bs (stream_idle cl)))) (wn_conns (stream_idle cl) i))
      = [0 \<mapsto> one_stream cl WsSelect [ev]]"
    using stream_note by (simp add: one_conn_def fun_eq_iff)
  with st show ?thesis by (simp only:) (simp add: one_conn_def)
qed

text \<open>The event is taken off the channel, and written if the client may see it.\<close>

lemma stream_take_step: "ws_step (stream_full cl ev) (stream_took cl ev)"
proof -
  let ?s = "stream_full cl ev"
  have "sub_recv (snd (1, 0)) (bs_broker (wn_bs ?s)) = Some (Some ev, one_sub [(1, 0)] [])"
    by (simp add: one_conn_def one_sub_def sub_recv_def chan_recv_def)
  note st = ws_step.select_event [where s = ?s and i = 0 and c = "one_stream cl WsSelect [ev]" and p = "(1, 0)", OF _ _ _ this]
  show ?thesis using st by (simp add: one_conn_def one_stream_def new_conn_def fun_upd_def cong: if_cong)
qed

lemma stream_write_step:
  assumes "eventAllowed (Some cl) ev"
  shows "ws_step (stream_took cl ev) (stream_wrote cl ev)"
  using assms ws_step.written [of "stream_took cl ev" 0 "one_stream cl (WsWriting ev) [ev]" ev None]
  by (simp add: one_conn_def one_stream_def new_conn_def after_write_def writeEvent_def)

lemma stream_subscribed: "ws_reach (stream_idle cl)"
proof -
  have "ws_reach (stream_new cl)"
    by (rule ws_reach.step [OF ws_reach.start ws_step.accept]) (simp add: ws_start_def)
  from ws_reach.step [OF ws_reach.step [OF this stream_alloc_step] stream_enter_step] show ?thesis .
qed

lemma stream_taken: "ws_reach (stream_took cl ev)"
  by (rule ws_reach.step [OF ws_reach.step [OF stream_subscribed stream_publish_step] stream_take_step])

lemma stream_filtered:
  "\<not> eventAllowed (Some cl) ev \<Longrightarrow> ws_reach (one_conn (one_sub [(1, 0)] []) [] [ev] [ev] (one_stream cl WsSelect [ev]))"
  using stream_taken [where cl = cl and ev = ev] by simp

lemma stream_written: "eventAllowed (Some cl) ev \<Longrightarrow> ws_reach (stream_wrote cl ev)"
  by (rule ws_reach.step [OF stream_taken stream_write_step])

text \<open>The two clients of the sample configuration.\<close>

abbreviation client_a :: ClientConfig where
  "client_a \<equiv> \<lparr>cl_Name = ''a'', cl_Token = ''ta'', cl_AllowedChats = [7]\<rparr>"

abbreviation client_b :: ClientConfig where
  "client_b \<equiv> \<lparr>cl_Name = ''b'', cl_Token = ''tb'', cl_AllowedChats = [8]\<rparr>"

theorem ws_stream_exact_witness:
  "\<exists>s c. ws_reach s \<and> wn_conns s 0 = Some c \<and> cn_sent c = [event_in 7 ''hi'']
     \<and> subseq (cn_sent c) (filter (eventAllowed (cn_client c)) (bs_published (wn_bs s)))"
proof -
  let ?ev = "event_in 7 ''hi''"
  let ?c = "(one_stream client_a WsSelect [?ev])\<lparr>cn_sent := [?ev]\<rparr>"
  let ?s = "one_conn (one_sub [(1, 0)] []) [] [?ev] [?ev] ?c"
  have "eventAllowed (Some client_a) ?ev" by (simp add: eventAllowed_def event_in_def)
  then have r: "ws_reach ?s" by (rule stream_written)
  have c: "wn_conns ?s 0 = Some ?c" "bs_calls (wn_bs ?s) < 2 ^ 64" by (simp_all add: one_conn_def)
  from ws_stream_exact [OF r c(2,1)]
  have "subseq (cn_sent ?c) (filter (eventAllowed (cn_client ?c)) (bs_published (wn_bs ?s)))" by blast
  moreover have "cn_sent ?c = [?ev]" by simp
  ultimately show ?thesis using r c(1) by (intro exI conjI)
qed

text \<open>
  C37: The broker's map holds exactly the subscriptions of connections that are not closed, also
  those half made; a connection that is returning can always unsubscribe, which removes its entry
  and no other; and from any state in which its client has gone it can come to be closed.
\<close>

theorem ws_no_leak:
  assumes "ws_reach s" and "Suc (bs_calls (wn_bs s)) < 2 ^ 64" and "wn_conns s i = Some c"
  shows "set (all_subs (wn_bs s)) = {p. \<exists>j d. wn_conns s j = Some d \<and> cn_sub d = Some p \<and> cn_pc d \<noteq> WsClosed}
    \<and> (cn_pc c = WsReturning \<longrightarrow> (\<exists>p t d. cn_sub c = Some p \<and> ws_step s t \<and> wn_conns t i = Some d \<and> cn_pc d = WsClosed
         \<and> set (all_subs (wn_bs t)) = set (all_subs (wn_bs s)) - {p}))
    \<and> (cn_done c \<longrightarrow> closes i s)"
proof -
  have few: "bs_calls (wn_bs s) < 2 ^ 64" using assms(2) by simp
  have inv: "ws_inv s" using ws_reach_inv [OF assms(1) few] by simp
  have "cn_pc d \<noteq> WsClosed" if "wn_conns s j = Some d" "cn_sub d = Some p" "p \<in> set (all_subs (wn_bs s))" for j d p
    using ws_invD(1) [OF inv that(1)] that(2,3) by (auto simp: conn_ok_def)
  moreover have "p \<in> set (all_subs (wn_bs s))" if "wn_conns s j = Some d" "cn_sub d = Some p" "cn_pc d \<noteq> WsClosed" for j d p
    using ws_invD(1) [OF inv that(1)] that(2,3) by (cases "cn_pc d = WsSubscribing") (auto simp: conn_ok_def all_subs_def)
  ultimately have "set (all_subs (wn_bs s)) = {p. \<exists>j d. wn_conns s j = Some d \<and> cn_sub d = Some p \<and> cn_pc d \<noteq> WsClosed}"
    using ws_invD(4) [OF inv] by blast
  then show ?thesis using finish_enabled [OF assms(1) few assms(3)] closes_done [OF assms] by blast
qed

theorem ws_no_leak_witness:
  "\<exists>s c. ws_reach s \<and> wn_conns s 0 = Some c \<and> cn_pc c = WsSelect \<and> cn_done c \<and> set (all_subs (wn_bs s)) = {(1, 0)} \<and> closes 0 s"
proof -
  let ?c = "(one_stream client_a WsSelect [])\<lparr>cn_done := True\<rparr>"
  let ?s = "one_conn (one_sub [(1, 0)] []) [] [] [] ?c"
  have "ws_step (one_conn (one_sub [(1, 0)] []) [] [] [] (one_stream client_a WsSelect [])) ?s"
    using ws_step.hangup [of "one_conn (one_sub [(1, 0)] []) [] [] [] (one_stream client_a WsSelect [])" 0]
    by (simp add: one_conn_def)
  with stream_subscribed have r: "ws_reach ?s" by (rule ws_reach.step)
  have c: "wn_conns ?s 0 = Some ?c" "Suc (bs_calls (wn_bs ?s)) < 2 ^ 64" by (simp_all add: one_conn_def)
  have "closes 0 ?s" using ws_no_leak [OF r c(2,1)] by simp
  moreover have "set (all_subs (wn_bs ?s)) = {(1, 0)}" by (simp add: one_conn_def one_sub_def all_subs_def)
  moreover have "cn_pc ?c = WsSelect" "cn_done ?c" by (simp_all add: one_stream_def)
  ultimately show ?thesis using r c(1) by (intro exI conjI)
qed

text \<open>
  The events that \<open>dispatchMessage\<close> publishes pass the first client's allow-list, and every
  connection filters them by its own: a client whose list shares no chat with the first client's
  never gets an event.
\<close>

theorem ws_second_client_starved:
  assumes "ws_reach s" and "bs_calls (wn_bs s) < 2 ^ 64" and "wn_conns s i = Some c"
    and published: "\<forall>ev \<in> set (bs_published (wn_bs s)). chatAllowed b (ev_ChatID ev)"
    and first: "cfg_Clients (bg_cfg b) = first # rest" "cl_AllowedChats first \<noteq> []"
    and client: "cn_client c = Some cl" "cl_AllowedChats cl \<noteq> []" "set (cl_AllowedChats cl) \<inter> set (cl_AllowedChats first) = {}"
  shows "cn_sent c = []"
proof (cases "cn_sub c")
  case None
  then show ?thesis using no_sub_facts(1) [OF assms(1-3)] by simp
next
  case (Some p)
  note f = stream_facts [OF assms(1-3) Some]
  have "\<not> eventAllowed (cn_client c) ev" if "ev \<in> set (bs_received (wn_bs s) (snd p))" for ev
  proof -
    have "ev \<in> set (bs_published (wn_bs s))" by (rule list_emb_set [OF f(2) that]) simp
    then have "chatAllowed b (ev_ChatID ev)" using published by blast
    then show ?thesis using first client by (auto simp: chatAllowed_def eventAllowed_def)
  qed
  then show ?thesis using f(1) by (simp add: filter_empty_conv [THEN iffD2])
qed

theorem ws_second_client_starved_witness:
  "\<exists>s c. ws_reach s \<and> wn_conns s 0 = Some c \<and> bs_published (wn_bs s) = [event_in 7 ''hi''] \<and> cn_sent c = []"
proof -
  let ?ev = "event_in 7 ''hi''"
  let ?c = "one_stream client_b WsSelect [?ev]"
  let ?s = "one_conn (one_sub [(1, 0)] []) [] [?ev] [?ev] ?c"
  have "\<not> eventAllowed (Some client_b) ?ev" by (simp add: eventAllowed_def event_in_def)
  then have r: "ws_reach ?s" by (rule stream_filtered)
  have c: "wn_conns ?s 0 = Some ?c" "bs_calls (wn_bs ?s) < 2 ^ 64" "bs_published (wn_bs ?s) = [?ev]"
    by (simp_all add: one_conn_def)
  have "\<forall>ev \<in> set (bs_published (wn_bs ?s)). chatAllowed sample_bridge (ev_ChatID ev)"
    unfolding c(3) by (simp add: chatAllowed_def sample_bridge_def sample_cfg_def event_in_def)
  moreover have "cfg_Clients (bg_cfg sample_bridge) = client_a # [client_b]" by (simp add: sample_bridge_def sample_cfg_def)
  ultimately have "cn_sent ?c = []"
    by (rule ws_second_client_starved [OF r c(2,1), where cl = client_b]) (simp_all add: one_stream_def new_conn_def)
  with r c show ?thesis by (intro exI conjI)
qed

end
