(* ===== verification/Daemon.thy ===== *)
theory Daemon
  imports Startup Ws_Events
begin

text \<open>
  The daemon as one system: requests (\<open>Http_Api\<close>), the login goroutine (\<open>Auth_Flow\<close>), the update
  loop (\<open>Updates\<close>) and the event streams (\<open>Ws_Events\<close>) take steps in any order on the one bridge
  that the start-up (\<open>Startup\<close>) made. A request, an update and each step of the others is atomic.
\<close>

section \<open>The system\<close>

text \<open>As ghost state, \<open>dm_updates\<close> lists the updates handled so far, in order.\<close>

record daemon =
  dm_server :: Server
  dm_login :: auth_sys
  dm_streams :: ws_sys
  dm_updates :: "(tgEntities \<times> UpdateClass) list"

abbreviation dm_br :: "daemon \<Rightarrow> Bridge" where
  "dm_br s \<equiv> sv_br (dm_server s)"

definition with_bridge :: "Bridge \<Rightarrow> daemon \<Rightarrow> daemon" where
  "with_bridge b s = s\<lparr>dm_server := (dm_server s)\<lparr>sv_br := b\<rparr>\<rparr>"

lemma with_bridge_simps [simp]:
  "sv_br (dm_server (with_bridge b s)) = b" "sv_cfg (dm_server (with_bridge b s)) = sv_cfg (dm_server s)"
  "dm_login (with_bridge b s) = dm_login s" "dm_streams (with_bridge b s) = dm_streams s"
  "dm_updates (with_bridge b s) = dm_updates s"
  by (simp_all add: with_bridge_def)

text \<open>
  What a request leaves in the two other parts: the value the login goroutine was handed, if the
  handler answered that it was accepted, and the new connection, if it was upgraded.
\<close>

definition accepted :: "endpoint \<Rightarrow> string \<Rightarrow> request \<Rightarrow> response \<Rightarrow> string list" where
  "accepted ep field r resp =
     (if find_route r = Some ep \<and> rs_Reply resp = ReplyStatus ''accepted''
      then (case decode_string field (rq_Body r) of Inr v \<Rightarrow> [v] | Inl _ \<Rightarrow> []) else [])"

definition after_request :: "request \<Rightarrow> response \<Rightarrow> Server \<Rightarrow> auth_sys \<Rightarrow> auth_sys" where
  "after_request r resp sv l =
     l\<lparr>as_auth := bg_auth (sv_br sv),
       as_phones := as_phones l @ accepted AuthPhoneRoute ''phone'' r resp,
       as_codes := as_codes l @ accepted AuthCodeRoute ''code'' r resp,
       as_passwds := as_passwds l @ accepted AuthPasswordRoute ''password'' r resp\<rparr>"

definition after_upgrade :: "nat \<Rightarrow> request \<Rightarrow> response \<Rightarrow> Server \<Rightarrow> ws_sys \<Rightarrow> ws_sys" where
  "after_upgrade i r resp sv w =
     (if rs_Reply resp = ReplyUpgrade then set_conn i (new_conn (client_of (sv_cfg sv) r)) w else w)"

text \<open>What an update leaves in the streams: the broker after \<open>Publish\<close>, if it was called.\<close>

definition after_publish :: "Event list \<Rightarrow> Event broker \<Rightarrow> ws_sys \<Rightarrow> ws_sys" where
  "after_publish evs b' w =
     (case evs of
        [] \<Rightarrow> w
      | e # _ \<Rightarrow>
          w\<lparr>wn_bs := (wn_bs w)\<lparr>bs_broker := b', bs_published := bs_published (wn_bs w) @ [e]\<rparr>,
            wn_conns := (\<lambda>i. map_option (note_publish e (bs_broker (wn_bs w))) (wn_conns w i))\<rparr>)"

fun from_handler :: "auth_ev \<Rightarrow> bool" where
  "from_handler (EvSubmitPhone v) = True"
| "from_handler (EvSubmitCode v) = True"
| "from_handler (EvSubmitPassword v) = True"
| "from_handler _ = False"

text \<open>
  The steps. \<open>connect\<close>, \<open>own_user\<close> and \<open>warm\<close> are those of \<open>Run\<close> around the login. A request that
  waits for the login in \<open>waitReady\<close> is a step after the login is over, or one whose context ended
  first. The login takes every step but a submission, and the streams every step but a
  publication and a new connection: those are steps of an update and of requests.
\<close>

inductive daemon_step :: "auth_env \<Rightarrow> daemon \<Rightarrow> daemon \<Rightarrow> bool" for E where
  request:
    "serve env r (dm_server s) = (resp, sv) \<Longrightarrow>
     as_pc (dm_login s) = RunAuthorized \<or> (\<forall>h. \<exists>e. tele_wait (he_telegram env) h = Inl e) \<Longrightarrow>
     wn_conns (dm_streams s) i = None \<Longrightarrow>
     daemon_step E s (s\<lparr>dm_server := sv, dm_login := after_request r resp sv (dm_login s),
        dm_streams := after_upgrade i r resp sv (dm_streams s)\<rparr>)"
| connect:
    "daemon_step E s (with_bridge ((dm_br s)\<lparr>bg_clientReady := True\<rparr>) s)"
| login:
    "bg_clientReady (dm_br s) \<Longrightarrow> auth_step E (dm_login s) ev = Some l \<Longrightarrow> \<not> from_handler ev \<Longrightarrow>
     daemon_step E s ((with_bridge ((dm_br s)\<lparr>bg_auth := as_auth l\<rparr>) s)\<lparr>dm_login := l\<rparr>)"
| own_user:
    "as_pc (dm_login s) = RunAuthorized \<Longrightarrow> daemon_step E s (with_bridge ((dm_br s)\<lparr>bg_self := Some u\<rparr>) s)"
| warm:
    "as_pc (dm_login s) = RunAuthorized \<Longrightarrow> bg_self (dm_br s) \<noteq> None \<Longrightarrow>
     warmPeerCache T 100 (dm_br s) = (x, b) \<Longrightarrow> daemon_step E s (with_bridge b s)"
| update:
    "on_update e u (dm_br s) = Inr b \<Longrightarrow>
     daemon_step E s ((with_bridge b s)\<lparr>dm_streams :=
       after_publish (events_of (dm_br s) e (update_message u)) (bg_events b) (dm_streams s),
       dm_updates := dm_updates s @ [(e, u)]\<rparr>)"
| stream:
    "ws_step (dm_streams s) w \<Longrightarrow> bs_published (wn_bs w) = bs_published (wn_bs (dm_streams s)) \<Longrightarrow>
     dom (wn_conns w) = dom (wn_conns (dm_streams s)) \<Longrightarrow>
     daemon_step E s ((with_bridge ((dm_br s)\<lparr>bg_events := bs_broker (wn_bs w)\<rparr>) s)\<lparr>dm_streams := w\<rparr>)"

definition daemon_start :: "Server \<Rightarrow> daemon" where
  "daemon_start sv = \<lparr>dm_server = sv, dm_login = auth_start, dm_streams = ws_start, dm_updates = []\<rparr>"

text \<open>
  The states of a daemon that was started, successfully, on a cache directory in order
  (\<open>clean_cache_dir\<close>): the invariant of the media cache needs it.
\<close>

inductive daemon_reach :: "auth_env \<Rightarrow> daemon \<Rightarrow> bool" for E where
  start:
    "startup io = (Inr (sv, fp), certs, kf) \<Longrightarrow> clean_cache_dir (st_new io) \<Longrightarrow>
     daemon_reach E (daemon_start sv)"
| step: "daemon_reach E s \<Longrightarrow> daemon_step E s t \<Longrightarrow> daemon_reach E t"

inductive_cases daemon_stepE: "daemon_step E s t"

section \<open>Requests and the rest of the daemon\<close>

fun submits :: "endpoint \<Rightarrow> bool" where
  "submits AuthPhoneRoute = True"
| "submits AuthCodeRoute = True"
| "submits AuthPasswordRoute = True"
| "submits _ = False"

text \<open>What a handler leaves alone: the configuration and the broker, and but for the three that
  submit a value the authenticator.\<close>

definition request_frame :: "Bridge \<Rightarrow> Bridge \<Rightarrow> bool" where
  "request_frame b b' \<longleftrightarrow> bg_cfg b' = bg_cfg b \<and> bg_events b' = bg_events b \<and> bg_mediaKey b' = bg_mediaKey b"

lemma request_frame_refl [simp]: "request_frame b b"
  by (simp add: request_frame_def)

lemma acts_on_frame: "acts_on A b b' \<Longrightarrow> bg_auth b' = bg_auth b \<and> request_frame b b'"
  by (simp add: acts_on_def request_frame_def)

lemma fetch_frame: "FetchMedia T download i b = (r, b') \<Longrightarrow> bg_auth b' = bg_auth b \<and> request_frame b b'"
  using FetchMedia_frame [of T download i b r b'] by (simp add: request_frame_def)

lemma inner_frame:
  assumes ok: "bridge_ok (sv_br s)" and h: "inner_handler ep env r cl s = (resp, s')"
  shows "request_frame (sv_br s) (sv_br s')" "\<not> submits ep \<Longrightarrow> bg_auth (sv_br s') = bg_auth (sv_br s)"
proof -
  note p = bridge_ok_peers [OF ok]
  have sub: "request_frame (sv_br s) (sv_br s')" if "auth_submit_handler f submit env r cl s = (resp, s')" for f submit
    using that by (auto simp: auth_submit_handler_def request_frame_def Let_def split: sum.splits if_splits prod.splits option.splits)
  have "request_frame (sv_br s) (sv_br s') \<and> (\<not> submits ep \<longrightarrow> bg_auth (sv_br s') = bg_auth (sv_br s))"
    using h
  proof (cases ep)
    case ListChatsRoute
    with h show ?thesis
      by (auto simp: handleListChats_def dest: acts_on_frame [OF ListChats_acts [OF p]] split: if_splits prod.splits sum.splits)
  next
    case (GetMessagesRoute i)
    with h show ?thesis
      by (auto simp: handleGetMessages_def dest: acts_on_frame [OF GetMessages_acts [OF p]] split: prod.splits sum.splits)
  next
    case (SendMessageRoute i)
    with h show ?thesis
      by (auto simp: handleSendMessage_def dest: acts_on_frame [OF SendText_acts [OF p]] split: prod.splits sum.splits if_splits)
  next
    case (MarkReadRoute i)
    with h show ?thesis
      by (auto simp: handleMarkRead_def dest: acts_on_frame [OF MarkRead_acts [OF p]] split: prod.splits sum.splits option.splits)
  next
    case (GetMediaRoute i)
    with h show ?thesis
      by (auto simp: handleGetMedia_def dest: fetch_frame split: if_splits prod.splits option.splits sum.splits)
  qed (auto simp: handleAuthStatus_def handleMe_def handleEvents_accept_def handleAuthPhone_def handleAuthCode_def
      handleAuthPassword_def intro: sub split: prod.splits option.splits handshake.splits)
  then show "request_frame (sv_br s) (sv_br s')" "\<not> submits ep \<Longrightarrow> bg_auth (sv_br s') = bg_auth (sv_br s)" by blast+
qed

text \<open>A submission is one step of the login's system, or changes nothing.\<close>

lemma auth_submit_cases:
  assumes "auth_submit_handler f submit env r cl s = (resp, s')" and "submit_ok submit" and "bridge_ok (sv_br s)"
  obtains (refused) "s' = s" "rs_Reply resp \<noteq> ReplyStatus ''accepted''"
  | (submitted) v err a where "decode_string f (rq_Body r) = Inr v" "submit v (bg_auth (sv_br s)) = Inr (err, a)"
      "bg_auth (sv_br s') = a" "rs_Reply resp = ReplyStatus ''accepted'' \<longleftrightarrow> err = None"
proof (cases "\<exists>v. decode_string f (rq_Body r) = Inr v \<and> v \<noteq> ''''")
  case False
  then have "resp = writeError 400 (f @ '' required'')" "s' = s"
    using assms(1) by (auto simp: auth_submit_handler_def split: sum.splits)
  then show ?thesis by (intro refused) simp_all
next
  case True
  then obtain v where v: "decode_string f (rq_Body r) = Inr v" "v \<noteq> ''''" by blast
  obtain err a where a: "submit v (bg_auth (sv_br s)) = Inr (err, a)"
    using assms(2,3) unfolding submit_ok_def bridge_ok_def by blast
  have "bg_auth (sv_br s') = a" "rs_Reply resp = ReplyStatus ''accepted'' \<longleftrightarrow> err = None"
    using assms(1) v a by (auto simp: auth_submit_handler_def Let_def split: option.splits)
  with v(1) a show ?thesis by (rule submitted)
qed

text \<open>A request that changes nothing of the login, in the eyes of the login.\<close>

lemma after_request_same:
  assumes "as_auth l = bg_auth (sv_br sv)" and "\<And>ep field. submits ep \<Longrightarrow> accepted ep field r resp = []"
  shows "after_request r resp sv l = l"
  using assms by (simp add: after_request_def)

lemma inner_login:
  assumes ok: "bridge_ok (sv_br s)" and h: "inner_handler ep env r cl s = (resp, s')" and ep: "find_route r = Some ep"
    and link: "as_auth l = bg_auth (sv_br s)"
  shows "after_request r resp s' l = l \<or> (\<exists>ev. auth_step E l ev = Some (after_request r resp s' l))"
proof (cases "submits ep")
  case False
  have "accepted ep' field r resp = []" if "submits ep'" for ep' field
    using that False ep by (auto simp: accepted_def)
  with inner_frame(2) [OF ok h False] link have "after_request r resp s' l = l" by (intro after_request_same) simp_all
  then show ?thesis ..
next
  case True
  have refused: "after_request r resp s' l = l" if "s' = s" "rs_Reply resp \<noteq> ReplyStatus ''accepted''"
    using that link by (intro after_request_same) (simp_all add: accepted_def)
  from True consider "ep = AuthPhoneRoute" | "ep = AuthCodeRoute" | "ep = AuthPasswordRoute" by (cases ep) simp_all
  then show ?thesis
  proof cases
    case 1
    with h have a: "auth_submit_handler ''phone'' Bridge_SubmitPhone env r cl s = (resp, s')" by (simp add: handleAuthPhone_def)
    from a submits_ok(1) ok show ?thesis
    proof (cases rule: auth_submit_cases)
      case (submitted v err a)
      with 1 ep link have "auth_step E l (EvSubmitPhone v) = Some (after_request r resp s' l)"
        by (auto simp: Bridge_SubmitPhone_def submit_result_def after_request_def accepted_def map_sum_def split: sum.splits if_splits)
      then show ?thesis by blast
    qed (use refused in blast)
  next
    case 2
    with h have a: "auth_submit_handler ''code'' Bridge_SubmitCode env r cl s = (resp, s')" by (simp add: handleAuthCode_def)
    from a submits_ok(2) ok show ?thesis
    proof (cases rule: auth_submit_cases)
      case (submitted v err a)
      with 2 ep link have "auth_step E l (EvSubmitCode v) = Some (after_request r resp s' l)"
        by (auto simp: Bridge_SubmitCode_def submit_result_def after_request_def accepted_def map_sum_def split: sum.splits if_splits)
      then show ?thesis by blast
    qed (use refused in blast)
  next
    case 3
    with h have a: "auth_submit_handler ''password'' Bridge_SubmitPassword env r cl s = (resp, s')" by (simp add: handleAuthPassword_def)
    from a submits_ok(3) ok show ?thesis
    proof (cases rule: auth_submit_cases)
      case (submitted v err a)
      with 3 ep link have "auth_step E l (EvSubmitPassword v) = Some (after_request r resp s' l)"
        by (auto simp: Bridge_SubmitPassword_def submit_result_def after_request_def accepted_def map_sum_def split: sum.splits if_splits)
      then show ?thesis by blast
    qed (use refused in blast)
  qed
qed


text \<open>A request as a whole: refused, or its handler on the same bridge.\<close>

lemma serve_cases:
  assumes "serve env r s = (resp, s')"
  obtains (refused) m where "sv_br s' = sv_br s" "rs_Reply resp \<in> {ReplyError m, ReplyText m}"
  | (handled) ep cl rl where "find_route r = Some ep" "client_of (sv_cfg s) r = Some cl"
      "inner_handler ep env r (Some cl) (s\<lparr>sv_authRL := rl\<rparr>) = (resp, s')"
proof (cases "find_route r = None \<or> client_of (sv_cfg s) r = None")
  case True
  from serve_refused [OF this, of env] assms show ?thesis by (auto intro: refused)
next
  case False
  then obtain ep cl where ep: "find_route r = Some ep" and cl: "client_of (sv_cfg s) r = Some cl" by auto
  have "route_handler ep env r (Some cl) s = (resp, s')" using assms serve_routed [OF ep cl] by simp
  then show ?thesis
  proof (cases rule: route_handler_cases)
    case free
    then have "inner_handler ep env r (Some cl) (s\<lparr>sv_authRL := sv_authRL s\<rparr>) = (resp, s')" by simp
    with ep cl show ?thesis by (rule handled)
  next
    case (limited_out rl)
    then show ?thesis by (auto intro: refused)
  next
    case (admitted rl)
    with ep cl show ?thesis by (intro handled)
  qed
qed

lemma serve_login:
  assumes "bridge_ok (sv_br s)" and "serve env r s = (resp, s')" and "as_auth l = bg_auth (sv_br s)"
  shows "after_request r resp s' l = l \<or> (\<exists>ev. auth_step E l ev = Some (after_request r resp s' l))"
  using assms(2)
proof (cases rule: serve_cases)
  case (refused m)
  with assms(3) have "after_request r resp s' l = l" by (intro after_request_same) (auto simp: accepted_def)
  then show ?thesis ..
next
  case (handled ep cl rl)
  from inner_login [OF _ handled(3,1)] assms(1,3) show ?thesis by simp
qed

lemma serve_frame:
  assumes "bridge_ok (sv_br s)" and "serve env r s = (resp, s')"
  shows "request_frame (sv_br s) (sv_br s')"
  using assms(2)
proof (cases rule: serve_cases)
  case (handled ep cl rl)
  from inner_frame(1) [OF _ handled(3)] assms(1) show ?thesis by simp
qed simp

lemma serve_upgrade:
  assumes "serve env r s = (resp, s')" and "rs_Reply resp = ReplyUpgrade"
  shows "\<exists>cl \<in> set (cfg_Clients (sv_cfg s)). client_of (sv_cfg s) r = Some cl"
  using assms(1)
proof (cases rule: serve_cases)
  case (handled ep cl rl)
  then show ?thesis using TokenToClient_member by (auto simp: client_of_def split: if_splits)
qed (use assms(2) in simp)

text \<open>Before the bridge knows its own user no handler calls Telegram, if waiting for it fails.\<close>

lemma fetch_not_ready:
  assumes "FetchMedia T download i b = (r, b')" and "bg_self b = None" and "\<forall>h. \<exists>e. tele_wait T h = Inl e"
  shows "bg_self b' = None \<and> bg_rpcs b' = bg_rpcs b"
proof -
  have wait: "\<exists>e. waitReady T (b\<lparr>bg_mediaCache := c\<rparr>) = (Some e, b\<lparr>bg_mediaCache := c\<rparr>)" for c
    using assms(2) assms(3) [rule_format, of "bg_rpcs b"] by (auto simp: waitReady_def Self_def)
  from assms(1) show ?thesis
  proof (cases rule: FetchMedia_cases)
    case (refused e c)
    then show ?thesis using wait [of c] assms(2) by auto
  next
    case (fetched c ref b1 q c2 d2)
    then show ?thesis using wait [of c] by auto
  qed (simp add: assms(2))
qed

lemma inner_not_ready:
  assumes h: "inner_handler ep env r cl s = (resp, s')" and self: "bg_self (sv_br s) = None"
    and wait: "\<forall>h. \<exists>e. tele_wait (he_telegram env) h = Inl e"
  shows "bg_self (sv_br s') = None \<and> bg_rpcs (sv_br s') = bg_rpcs (sv_br s)"
proof -
  have sub: "bg_self (sv_br s') = None \<and> bg_rpcs (sv_br s') = bg_rpcs (sv_br s)"
    if "auth_submit_handler f submit env r cl s = (resp, s')" for f submit
    using that self by (auto simp: auth_submit_handler_def Let_def split: sum.splits if_splits prod.splits option.splits)
  have checks: "\<exists>e. chat_checks p cl s = Inl e" for p
    using self by (simp add: chat_checks_def Self_def)
  show ?thesis
  proof (cases ep)
    case (GetMediaRoute i)
    with h self show ?thesis
      by (auto simp: handleGetMedia_def dest: fetch_not_ready [OF _ self wait] split: if_splits prod.splits option.splits sum.splits)
  next
    case (GetMessagesRoute i)
    with h self checks [of i] show ?thesis by (auto simp: handleGetMessages_def)
  next
    case (SendMessageRoute i)
    with h self checks [of i] show ?thesis by (auto simp: handleSendMessage_def)
  next
    case (MarkReadRoute i)
    with h self checks [of i] show ?thesis by (auto simp: handleMarkRead_def)
  qed (use h self in \<open>auto simp: handleListChats_def Self_def handleAuthStatus_def handleMe_def handleEvents_accept_def
      handleAuthPhone_def handleAuthCode_def handleAuthPassword_def dest: sub
      split: prod.splits option.splits handshake.splits\<close>)
qed

lemma serve_not_ready:
  assumes "serve env r s = (resp, s')" and "bg_self (sv_br s) = None"
    and "\<forall>h. \<exists>e. tele_wait (he_telegram env) h = Inl e"
  shows "bg_self (sv_br s') = None \<and> bg_rpcs (sv_br s') = bg_rpcs (sv_br s)"
  using assms(1)
proof (cases rule: serve_cases)
  case (handled ep cl rl)
  from inner_not_ready [OF handled(3) _ assms(3)] assms(2) show ?thesis by simp
qed (simp add: assms(2))

section \<open>The invariant\<close>

text \<open>
  The parts stay linked, each is in a state its own theory knows, and the bridge acts for no one
  before the login is over. What was published are the events of the updates handled so far, in
  order, and every connection belongs to a configured client.
\<close>

definition update_events :: "Bridge \<Rightarrow> (tgEntities \<times> UpdateClass) list \<Rightarrow> Event list" where
  "update_events b us = concat (map (\<lambda>(e, u). events_of b e (update_message u)) us)"

lemma update_events_simps [simp]:
  "update_events b [] = []"
  "update_events b (us @ [(e, u)]) = update_events b us @ events_of b e (update_message u)"
  by (simp_all add: update_events_def)

lemma update_events_frame:
  "bg_cfg b' = bg_cfg b \<Longrightarrow> bg_mediaKey b' = bg_mediaKey b \<Longrightarrow> update_events b' us = update_events b us"
  by (simp add: update_events_def events_of_frame [of b' b])

lemma update_events_member:
  "ev \<in> set (update_events b us) \<longleftrightarrow>
     (\<exists>e u msg. (e, u) \<in> set us \<and> u \<in> {UpdateNewMessage (TheMessage msg), UpdateNewChannelMessage (TheMessage msg)}
        \<and> \<not> msg_Out msg \<and> chatAllowed b (peerToChatID (msg_PeerID msg)) \<and> ev = message_event (bg_mediaKey b) e msg)"
proof -
  have "ev \<in> set (events_of b e (update_message u)) \<longleftrightarrow>
      (\<exists>msg. u \<in> {UpdateNewMessage (TheMessage msg), UpdateNewChannelMessage (TheMessage msg)}
        \<and> \<not> msg_Out msg \<and> chatAllowed b (peerToChatID (msg_PeerID msg)) \<and> ev = message_event (bg_mediaKey b) e msg)"
    for e u
    by (auto simp: events_of_def update_message_def split: UpdateClass.splits MessageClass.splits)
  moreover have "ev \<in> set (update_events b us) \<longleftrightarrow>
      (\<exists>e u. (e, u) \<in> set us \<and> ev \<in> set (events_of b e (update_message u)))"
    by (auto simp: update_events_def)
  ultimately show ?thesis by (simp only: ex_simps [symmetric])
qed

definition daemon_inv :: "auth_env \<Rightarrow> daemon \<Rightarrow> bool" where
  "daemon_inv E s \<longleftrightarrow>
     bridge_ok (dm_br s) \<and> auth_reach E (dm_login s) \<and> ws_reach (dm_streams s)
   \<and> as_auth (dm_login s) = bg_auth (dm_br s) \<and> bs_broker (wn_bs (dm_streams s)) = bg_events (dm_br s)
   \<and> bg_cfg (dm_br s) = sv_cfg (dm_server s)
   \<and> (bg_self (dm_br s) \<noteq> None \<or> bg_rpcs (dm_br s) \<noteq> [] \<longrightarrow> as_pc (dm_login s) = RunAuthorized)
   \<and> bs_published (wn_bs (dm_streams s)) = update_events (dm_br s) (dm_updates s)
   \<and> (\<forall>i c. wn_conns (dm_streams s) i = Some c \<longrightarrow> (\<exists>cl \<in> set (cfg_Clients (sv_cfg (dm_server s))). cn_client c = Some cl))"

lemma daemon_invD:
  assumes "daemon_inv E s"
  shows "bridge_ok (dm_br s)" "auth_reach E (dm_login s)" "ws_reach (dm_streams s)"
    "as_auth (dm_login s) = bg_auth (dm_br s)" "bs_broker (wn_bs (dm_streams s)) = bg_events (dm_br s)"
    "bg_cfg (dm_br s) = sv_cfg (dm_server s)"
    "bg_self (dm_br s) \<noteq> None \<or> bg_rpcs (dm_br s) \<noteq> [] \<Longrightarrow> as_pc (dm_login s) = RunAuthorized"
    "bs_published (wn_bs (dm_streams s)) = update_events (dm_br s) (dm_updates s)"
    "wn_conns (dm_streams s) i = Some c \<Longrightarrow> \<exists>cl \<in> set (cfg_Clients (sv_cfg (dm_server s))). cn_client c = Some cl"
  using assms unfolding daemon_inv_def by blast+

text \<open>What a step keeps of the bridge, to be given once for each step.\<close>

lemma daemon_inv_frame:
  assumes inv: "daemon_inv E s" and "bridge_ok (dm_br t)" and "request_frame (dm_br s) (dm_br t)"
    and "sv_cfg (dm_server t) = sv_cfg (dm_server s)" and "dm_streams t = dm_streams s"
    and "dm_updates t = dm_updates s"
    and "auth_reach E (dm_login t)" and "as_auth (dm_login t) = bg_auth (dm_br t)"
    and "bg_self (dm_br t) \<noteq> None \<or> bg_rpcs (dm_br t) \<noteq> [] \<Longrightarrow> as_pc (dm_login t) = RunAuthorized"
  shows "daemon_inv E t"
  using assms update_events_frame [of "dm_br t" "dm_br s"] unfolding daemon_inv_def by (auto simp: request_frame_def)

text \<open>A login that is over stays so: only submissions follow.\<close>

lemma authorized_stays: "auth_step E l ev = Some l' \<Longrightarrow> as_pc l = RunAuthorized \<Longrightarrow> as_pc l' = RunAuthorized"
  by (erule auth_stepE) auto

lemma conn_client_stays:
  assumes "ws_step w w'" and "wn_conns w' i = Some c" and "dom (wn_conns w') = dom (wn_conns w)"
  shows "\<exists>d. wn_conns w i = Some d \<and> cn_client c = cn_client d"
proof -
  have "i \<in> dom (wn_conns w)" using assms(2,3) by auto
  then obtain d where d: "wn_conns w i = Some d" by blast
  have keep: "cn_client (note_publish e b x) = cn_client x" "cn_client (after_write o' ev x) = cn_client x"
    "cn_client (after_ping err x) = cn_client x" for e b o' ev err x
    by (auto simp: note_publish_def after_write_def writeEvent_def after_ping_def split: option.splits)
  from assms(1) have "cn_client c = cn_client d"
    by (cases rule: ws_step.cases) (use d assms(2) keep in \<open>auto split: if_splits\<close>)
  with d show ?thesis by blast
qed

lemma New_fields:
  "New cfg io = (Inr b, kf, db_open) \<Longrightarrow>
     bg_auth b = newHTTPAuthenticator \<and> bg_events b = newBroker 64 \<and> bg_self b = None \<and> bg_rpcs b = [] \<and> bg_cfg b = cfg"
  by (auto simp: New_def split: option.splits sum.splits prod.splits)

lemma daemon_start_inv:
  assumes st: "startup io = (Inr (sv, fp), certs, kf)" and dir: "clean_cache_dir (st_new io)"
  shows "daemon_inv E (daemon_start sv)"
  using st
proof (rule startup_Inr)
  fix cfg cert br
  assume br: "New cfg (st_new io) = (Inr br, kf, True)" and sv: "sv = New_server cfg br"
  have "bs_broker (wn_bs ws_start) = newBroker 64" "bs_published (wn_bs ws_start) = []" "wn_conns ws_start = Map.empty"
    by (simp_all add: ws_start_def sys_start_def)
  with New_bridge_ok [OF br dir] New_fields [OF br] ws_reach.start auth_reach.start [of E] show ?thesis
    by (simp add: daemon_inv_def daemon_start_def sv) (simp add: auth_start_def)
qed

lemma request_inv:
  assumes inv: "daemon_inv E s" and h: "serve env r (dm_server s) = (resp, sv)"
    and wait: "as_pc (dm_login s) = RunAuthorized \<or> (\<forall>h. \<exists>e. tele_wait (he_telegram env) h = Inl e)"
    and i: "wn_conns (dm_streams s) i = None"
  shows "daemon_inv E (s\<lparr>dm_server := sv, dm_login := after_request r resp sv (dm_login s),
           dm_streams := after_upgrade i r resp sv (dm_streams s)\<rparr>)"
proof -
  note D = daemon_invD [OF inv]
  note st = serve_step [OF D(1) h] and fr = serve_frame [OF D(1) h]
  let ?l = "after_request r resp sv (dm_login s)" and ?w = "after_upgrade i r resp sv (dm_streams s)"
  have l: "auth_reach E ?l" "as_auth ?l = bg_auth (sv_br sv)" "as_pc ?l = as_pc (dm_login s)"
    using serve_login [OF D(1) h D(4), of E] auth_reach.step [OF D(2)] D(2) by (auto simp: after_request_def)
  have "as_pc (dm_login s) = RunAuthorized" if acted: "bg_self (sv_br sv) \<noteq> None \<or> bg_rpcs (sv_br sv) \<noteq> []"
  proof (rule ccontr)
    assume not: "as_pc (dm_login s) \<noteq> RunAuthorized"
    with D(7) have "bg_self (dm_br s) = None" "bg_rpcs (dm_br s) = []" by blast+
    with serve_not_ready [OF h] wait not acted show False by auto
  qed
  then have "daemon_inv E (s\<lparr>dm_server := sv, dm_login := ?l\<rparr>)"
    by (intro daemon_inv_frame [OF inv]) (use st fr l in simp_all)
  moreover have "ws_reach ?w"
    unfolding after_upgrade_def using ws_reach.step [OF D(3) ws_step.accept [OF i]] D(3) by simp
  moreover have "wn_bs ?w = wn_bs (dm_streams s)" by (simp add: after_upgrade_def)
  moreover have "\<exists>cl \<in> set (cfg_Clients (sv_cfg sv)). cn_client c = Some cl" if c: "wn_conns ?w j = Some c" for j c
    using c D(9) [of j c] serve_upgrade [OF h] st(2)
    by (auto simp: after_upgrade_def new_conn_def split: if_splits)
  ultimately show ?thesis unfolding daemon_inv_def by simp
qed

lemma login_inv_daemon:
  assumes inv: "daemon_inv E s" and step: "auth_step E (dm_login s) ev = Some l"
  shows "daemon_inv E ((with_bridge ((dm_br s)\<lparr>bg_auth := as_auth l\<rparr>) s)\<lparr>dm_login := l\<rparr>)"
proof -
  note D = daemon_invD [OF inv]
  have l: "auth_reach E l" by (rule auth_reach.step [OF D(2) step])
  then have "auth_chans_ok (as_auth l)" using fifo_reach by (simp add: fifo_inv_def auth_chans_ok_def)
  then have "bridge_ok ((dm_br s)\<lparr>bg_auth := as_auth l\<rparr>)" using D(1) by (simp add: bridge_ok_def peers_ok_def media_good_def)
  with l show ?thesis
    by (intro daemon_inv_frame [OF inv]) (use D(7) authorized_stays [OF step] in \<open>auto simp: request_frame_def\<close>)
qed

lemma warm_inv:
  assumes inv: "daemon_inv E s" and "as_pc (dm_login s) = RunAuthorized" and w: "warmPeerCache T n (dm_br s) = (x, b)"
  shows "daemon_inv E (with_bridge b s)"
proof -
  note D = daemon_invD [OF inv]
  obtain y where l: "ListChats T n (dm_br s) = (y, b)"
    using w by (cases "ListChats T n (dm_br s)") (auto simp: warmPeerCache_def split: sum.splits)
  note a = ListChats_acts [OF bridge_ok_peers [OF D(1)] l]
  show ?thesis
    by (intro daemon_inv_frame [OF inv]) (use D acts_on_bridge_ok [OF a D(1)] acts_on_frame [OF a] assms(2) in simp_all)
qed

lemma update_inv:
  assumes inv: "daemon_inv E s" and up: "dispatchMessage e m (dm_br s) = Inr b" and m_def: "m = update_message u"
  shows "daemon_inv E ((with_bridge b s)\<lparr>dm_streams := after_publish (events_of (dm_br s) e m) (bg_events b) (dm_streams s),
    dm_updates := dm_updates s @ [(e, u)]\<rparr>)"
proof (cases "events_of (dm_br s) e m")
  case Nil
  then have "b = dm_br s"
    using up by (auto simp: events_of_def dispatchMessage_def split: MessageClass.splits if_splits)
  with Nil inv show ?thesis unfolding daemon_inv_def by (simp add: after_publish_def m_def)
next
  case (Cons ev l)
  note D = daemon_invD [OF inv]
  let ?br = "dm_br s" and ?w = "dm_streams s"
  let ?b' = "bg_events b" and ?t = "after_publish [ev] (bg_events b) (dm_streams s)"
  obtain msg where m: "m = TheMessage msg" "\<not> msg_Out msg" "chatAllowed ?br (peerToChatID (msg_PeerID msg))"
    and ev: "ev = message_event (bg_mediaKey ?br) e msg" "l = []"
    using Cons by (auto simp: events_of_def split: MessageClass.splits if_splits)
  have pub: "Publish ev (bg_events ?br) = Inr ?b'" and b: "b = ?br\<lparr>bg_events := ?b'\<rparr>"
    using up m by (auto simp: dispatchMessage_def ev split: sum.splits)
  have "update_events b (dm_updates s @ [(e, u)]) = update_events ?br (dm_updates s @ [(e, u)])"
    by (rule update_events_frame) (subst b, simp)+
  then have "update_events b (dm_updates s @ [(e, u)]) = update_events ?br (dm_updates s) @ [ev]"
    using Cons ev(2) by (simp only: update_events_simps m_def)
  moreover have "ws_reach ?t" unfolding after_publish_def list.case
    by (rule ws_reach.step [OF D(3) ws_step.publish]) (simp add: D(5) pub)
  moreover have "bs_broker (wn_bs ?t) = ?b'" "bs_published (wn_bs ?t) = bs_published (wn_bs ?w) @ [ev]"
    by (simp_all add: after_publish_def)
  moreover have "\<exists>cl \<in> set (cfg_Clients (sv_cfg (dm_server s))). cn_client c = Some cl" if "wn_conns ?t i = Some c" for i c
    using that D(9) by (auto simp: after_publish_def)
  moreover have "bridge_ok b" "bg_auth b = bg_auth ?br" "bg_cfg b = bg_cfg ?br" "bg_self b = bg_self ?br" "bg_rpcs b = bg_rpcs ?br"
    using D(1) by (subst b, simp add: bridge_ok_def peers_ok_def media_good_def)+
  ultimately show ?thesis using D unfolding daemon_inv_def by (simp add: Cons ev(2))
qed

lemma stream_inv:
  assumes inv: "daemon_inv E s" and step: "ws_step (dm_streams s) w"
    and pub: "bs_published (wn_bs w) = bs_published (wn_bs (dm_streams s))" and doms: "dom (wn_conns w) = dom (wn_conns (dm_streams s))"
  shows "daemon_inv E ((with_bridge ((dm_br s)\<lparr>bg_events := bs_broker (wn_bs w)\<rparr>) s)\<lparr>dm_streams := w\<rparr>)"
proof -
  note D = daemon_invD [OF inv]
  let ?b = "(dm_br s)\<lparr>bg_events := bs_broker (wn_bs w)\<rparr>"
  have "bridge_ok ?b" using D(1) by (simp add: bridge_ok_def peers_ok_def media_good_def)
  moreover have "update_events ?b us = update_events (dm_br s) us" for us by (rule update_events_frame) simp_all
  moreover have "\<exists>cl \<in> set (cfg_Clients (sv_cfg (dm_server s))). cn_client c = Some cl" if "wn_conns w i = Some c" for i c
    using conn_client_stays [OF step that doms] D(9) by auto
  ultimately show ?thesis using D ws_reach.step [OF D(3) step] pub unfolding daemon_inv_def by simp
qed

lemma daemon_step_inv:
  assumes "daemon_step E s t" and inv: "daemon_inv E s"
  shows "daemon_inv E t"
  using assms(1)
proof (cases rule: daemon_step.cases)
  case (request env r resp sv i)
  with inv show ?thesis by (simp add: request_inv)
next
  case connect
  show ?thesis unfolding connect
    by (intro daemon_inv_frame [OF inv])
      (use daemon_invD [OF inv] in \<open>simp_all add: request_frame_def bridge_ok_def peers_ok_def media_good_def\<close>)
next
  case (login ev l)
  with inv show ?thesis by (simp add: login_inv_daemon)
next
  case (own_user u)
  show ?thesis unfolding own_user(1)
    by (intro daemon_inv_frame [OF inv])
      (use daemon_invD [OF inv] own_user(2) in \<open>simp_all add: request_frame_def bridge_ok_def peers_ok_def media_good_def\<close>)
next
  case (warm T x b)
  with inv show ?thesis by (simp add: warm_inv)
next
  case (update e u b)
  with inv show ?thesis by (simp only: update_inv [OF inv _ refl] on_update_dispatch)
next
  case (stream w)
  with inv show ?thesis by (simp add: stream_inv)
qed

lemma daemon_reach_inv: "daemon_reach E s \<Longrightarrow> daemon_inv E s"
  by (induction rule: daemon_reach.induct) (auto intro: daemon_start_inv daemon_step_inv)

section \<open>A run of the daemon, for the examples\<close>

definition sample_daemon :: "(tgEntities \<times> UpdateClass) list \<Rightarrow> Bridge \<Rightarrow> auth_sys \<Rightarrow> ws_sys \<Rightarrow> daemon" where
  "sample_daemon us b l w =
     \<lparr>dm_server = New_server sample_cfg (b\<lparr>bg_events := bs_broker (wn_bs w)\<rparr>), dm_login = l, dm_streams = w, dm_updates = us\<rparr>"

lemma New_server_upd: "(New_server cfg b)\<lparr>sv_br := b'\<rparr> = New_server cfg b'"
  by (simp add: New_server_def)

lemma sample_reach:
  obtains b where "\<And>E. daemon_reach E (sample_daemon [] b auth_start ws_start)"
    "bg_auth b = newHTTPAuthenticator" "bg_cfg b = sample_cfg"
proof -
  obtain b fp certs kf where new: "New sample_cfg sample_new_io = (Inr b, kf, True)"
    and start: "startup sample_start = (Inr (New_server sample_cfg b, fp), certs, kf)"
    using sample_startup by blast
  note f = New_fields [OF new]
  have "bs_broker (wn_bs ws_start) = newBroker 64" by (simp add: ws_start_def sys_start_def)
  with f have "sample_daemon [] b auth_start ws_start = daemon_start (New_server sample_cfg b)"
    by (simp add: sample_daemon_def daemon_start_def)
  with daemon_reach.start [OF start sample_start_clean] f show ?thesis by (intro that [of b]) simp_all
qed

lemma sample_stream:
  assumes "daemon_reach E (sample_daemon us b l w)" and "ws_step w w'"
    and "bs_published (wn_bs w') = bs_published (wn_bs w)" and "dom (wn_conns w') = dom (wn_conns w)"
  shows "daemon_reach E (sample_daemon us b l w')"
proof -
  have "daemon_step E (sample_daemon us b l w) (sample_daemon us b l w')"
    using daemon_step.stream [of "sample_daemon us b l w" w' E] assms(2-4)
    by (simp add: sample_daemon_def with_bridge_def New_server_upd)
  with assms(1) show ?thesis by (rule daemon_reach.step)
qed

lemma sample_upgrade:
  assumes "daemon_reach E (sample_daemon [] b auth_start ws_start)" and "bg_auth b = newHTTPAuthenticator"
  shows "daemon_reach E (sample_daemon [] b auth_start (stream_new client_a))"
proof -
  let ?r = "sample_request [''events''] ''ta''" and ?s = "sample_daemon [] b auth_start ws_start"
  have "client_of sample_cfg ?r = Some client_a" "find_route ?r = Some EventsRoute"
    by (simp_all add: client_of_def bearerToken_def sample_request_def TokenToClient_def sample_cfg_def
        strings_HasPrefix_def find_route_def get_route_def Let_def)
  moreover from this have "serve sample_env ?r (dm_server ?s) = (writeJSON 101 ReplyUpgrade, dm_server ?s)"
    using serve_routed [of ?r EventsRoute "dm_server ?s" client_a sample_env]
    by (simp add: sample_daemon_def route_handler_def handleEvents_accept_def sample_env_def)
  note st = daemon_step.request [OF this, of 0 E]
  moreover have "tele_wait (he_telegram sample_env) h = Inl ErrDeadline" for h
    by (simp add: sample_env_def sample_telegram_def)
  ultimately have "daemon_step E ?s (sample_daemon [] b auth_start (stream_new client_a))"
    using assms(2)
    by (simp add: sample_daemon_def after_request_def after_upgrade_def accepted_def auth_start_def ws_start_def)
  with assms(1) show ?thesis by (rule daemon_reach.step)
qed

definition hi_update :: "tgEntities \<times> UpdateClass" where
  "hi_update = (sample_entities, UpdateNewMessage (incoming (PeerUser 7) ''hi''))"

lemma sample_update:
  assumes r: "daemon_reach E (sample_daemon [] b l (stream_idle client_a))" and cfg: "bg_cfg b = sample_cfg"
  obtains ev where "daemon_reach E (sample_daemon [hi_update] b l (stream_full client_a ev))" "ev_ChatID ev = 7" "ev_Text ev = ''hi''"
proof -
  let ?m = "incoming (PeerUser 7) ''hi''" and ?s = "sample_daemon [] b l (stream_idle client_a)"
  have allowed: "chatAllowed (dm_br ?s) 7" using cfg by (simp add: chatAllowed_def sample_daemon_def sample_cfg_def)
  obtain msg where m: "?m = TheMessage msg" "\<not> msg_Out msg" "msg_PeerID msg = PeerUser 7" "msg_Message msg = ''hi''"
    by (simp add: incoming_def)
  let ?ev = "message_event (bg_mediaKey b) sample_entities msg"
  have evs: "events_of (dm_br ?s) sample_entities ?m = [?ev]"
    using m allowed by (simp add: events_of_def) (simp add: sample_daemon_def)
  have "dispatchMessage sample_entities ?m (dm_br ?s) = Inr (b\<lparr>bg_events := one_sub [(1, 0)] [?ev]\<rparr>)"
    using m allowed stream_Publish [of ?ev] by (simp add: dispatchMessage_def) (simp add: sample_daemon_def one_conn_def)
  then have "on_update sample_entities (UpdateNewMessage ?m) (dm_br ?s) = Inr (b\<lparr>bg_events := one_sub [(1, 0)] [?ev]\<rparr>)"
    by (simp add: on_update_dispatch update_message_def)
  note st = daemon_step.update [OF this, of E]
  have "after_publish [?ev] (one_sub [(1, 0)] [?ev]) (stream_idle client_a) = stream_full client_a ?ev"
    using stream_note by (simp add: after_publish_def one_conn_def fun_eq_iff)
  with st have "daemon_step E ?s (sample_daemon [hi_update] b l (stream_full client_a ?ev))"
    using evs by (simp add: update_message_def sample_daemon_def hi_update_def with_bridge_def New_server_upd) (simp add: one_conn_def)
  with r have "daemon_reach E (sample_daemon [hi_update] b l (stream_full client_a ?ev))" by (rule daemon_reach.step)
  then show ?thesis by (rule that) (simp_all add: m)
qed

lemma sample_conns: "dom (wn_conns (one_conn bs ps pub rcv c)) = {0}" "dom (wn_conns (stream_new cl)) = {0}"
  "bs_published (wn_bs (one_conn bs ps pub rcv c)) = pub" "bs_published (wn_bs (stream_new cl)) = []"
  by (simp_all add: one_conn_def ws_start_def sys_start_def)

lemma sample_stream_run:
  "\<exists>b ev. daemon_reach E (sample_daemon [hi_update] b auth_start (stream_wrote client_a ev)) \<and> ev_ChatID ev = 7 \<and> ev_Text ev = ''hi''"
proof -
  obtain b where b: "daemon_reach E (sample_daemon [] b auth_start ws_start)" "bg_auth b = newHTTPAuthenticator"
    "bg_cfg b = sample_cfg" using sample_reach by blast
  have "daemon_reach E (sample_daemon [] b auth_start (stream_half client_a))"
    by (rule sample_stream [OF sample_upgrade [OF b(1,2)] stream_alloc_step]) (simp_all only: sample_conns)
  then have "daemon_reach E (sample_daemon [] b auth_start (stream_idle client_a))"
    by (rule sample_stream [OF _ stream_enter_step]) (simp_all only: sample_conns)
  from sample_update [OF this b(3)] obtain ev where
    ev: "daemon_reach E (sample_daemon [hi_update] b auth_start (stream_full client_a ev))" "ev_ChatID ev = 7" "ev_Text ev = ''hi''" .
  from ev(1) have "daemon_reach E (sample_daemon [hi_update] b auth_start (stream_took client_a ev))"
    by (rule sample_stream [OF _ stream_take_step]) (simp_all only: sample_conns)
  moreover have "eventAllowed (Some client_a) ev" using ev(2) by (simp add: eventAllowed_def)
  ultimately have "daemon_reach E (sample_daemon [hi_update] b auth_start (stream_wrote client_a ev))"
    by (intro sample_stream [OF _ stream_write_step]) (simp_all only: sample_conns)
  with ev(2,3) show ?thesis by blast
qed

text \<open>A login that Telegram accepts at once, and the own user.\<close>

lemma sample_login_daemon:
  "\<exists>s. daemon_reach E s \<and> Self (dm_br s) = Some sample_user \<and> as_calls (dm_login s) = [CallStatus (Inr True)]"
proof -
  obtain b where b: "daemon_reach E (sample_daemon [] b auth_start ws_start)" "bg_auth b = newHTTPAuthenticator"
    using sample_reach by blast
  let ?s1 = "with_bridge ((dm_br (sample_daemon [] b auth_start ws_start))\<lparr>bg_clientReady := True\<rparr>) (sample_daemon [] b auth_start ws_start)"
  have 1: "daemon_reach E ?s1" by (rule daemon_reach.step [OF b(1) daemon_step.connect])
  have login: "dm_login ?s1 = auth_start" by (simp add: sample_daemon_def)
  obtain l1 where l1: "auth_step E auth_start (EvStatus (Inr True)) = Some l1" "as_pc l1 = Returned None"
    "as_calls l1 = [CallStatus (Inr True)]"
    by (simp add: auth_start_def auth_answer_def after_status_def)
  then obtain l2 where l2: "auth_step E l1 EvProceed = Some l2" "as_pc l2 = RunAuthorized" "as_calls l2 = [CallStatus (Inr True)]"
    by simp
  let ?s2 = "(with_bridge ((dm_br ?s1)\<lparr>bg_auth := as_auth l1\<rparr>) ?s1)\<lparr>dm_login := l1\<rparr>"
  have 2: "daemon_reach E ?s2"
    by (rule daemon_reach.step [OF 1 daemon_step.login [where ev = "EvStatus (Inr True)"]]) (use login l1(1) in simp_all)
  let ?s3 = "(with_bridge ((dm_br ?s2)\<lparr>bg_auth := as_auth l2\<rparr>) ?s2)\<lparr>dm_login := l2\<rparr>"
  have 3: "daemon_reach E ?s3"
    by (rule daemon_reach.step [OF 2 daemon_step.login [where ev = EvProceed]])
      (use l2(1) in \<open>simp_all add: with_bridge_def\<close>)
  let ?s4 = "with_bridge ((dm_br ?s3)\<lparr>bg_self := Some sample_user\<rparr>) ?s3"
  have "daemon_reach E ?s4"
    by (rule daemon_reach.step [OF 3 daemon_step.own_user]) (use l2(2) in simp)
  moreover have "Self (dm_br ?s4) = Some sample_user" "as_calls (dm_login ?s4) = [CallStatus (Inr True)]"
    by (simp_all add: Self_def l2(3))
  ultimately show ?thesis by (intro exI conjI)
qed

section \<open>Properties\<close>

text \<open>
  C3: In a daemon started on a cache directory in order (\<open>clean_cache_dir\<close>), the bridge acts for no one
  before Telegram has accepted the login, whatever requests, updates and streams do meanwhile: as long as no call of the login was accepted it has made no other call
  to Telegram, knows no own user, and \<open>Status\<close> does not show \<open>authorized\<close>. The authenticator that
  the handlers see is the login's, which is in a state of its own system, so that the properties of
  the login hold for values that come in by HTTP.
\<close>

theorem daemon_acts_after_login:
  assumes "daemon_reach E s"
  shows "auth_reach E (dm_login s) \<and> bg_auth (dm_br s) = as_auth (dm_login s)
    \<and> (bg_rpcs (dm_br s) \<noteq> [] \<or> Self (dm_br s) \<noteq> None \<or> fst (Status (bg_auth (dm_br s))) = AuthAuthorized
        \<longrightarrow> (\<exists>c \<in> set (as_calls (dm_login s)). login_ok c))"
proof -
  note D = daemon_invD [OF daemon_reach_inv [OF assms]]
  have inv: "login_inv (dm_login s)" "shown_ok (as_pc (dm_login s)) (Status (as_auth (dm_login s)))"
    using auth_reach_inv [OF D(2)] by (simp_all add: shown_inv_def)
  have "as_pc (dm_login s) = RunAuthorized"
    if "bg_rpcs (dm_br s) \<noteq> [] \<or> Self (dm_br s) \<noteq> None \<or> fst (Status (bg_auth (dm_br s))) = AuthAuthorized"
    using that D(7) inv(2) unfolding D(4) [symmetric] by (cases "as_pc (dm_login s)") (auto simp: Self_def)
  then show ?thesis using D(2,4) inv(1) by (simp add: login_inv_def)
qed

theorem daemon_acts_after_login_witness:
  "\<exists>s. daemon_reach text_env s \<and> Self (dm_br s) = Some sample_user \<and> (\<exists>c \<in> set (as_calls (dm_login s)). login_ok c)"
proof -
  obtain s where s: "daemon_reach text_env s" "Self (dm_br s) = Some sample_user" using sample_login_daemon by blast
  from daemon_acts_after_login [OF s(1)] s show ?thesis by auto
qed

text \<open>
  C6: In a daemon started on a cache directory in order, whatever is written to an event stream goes
  to a configured client and comes of an update that the daemon handled: it is the event of a
  message of this update that was not sent by the own account, in a chat of this client's allow-list
  and of the list that \<open>chatAllowed\<close> applies; and a stream gets its events in the order of the
  updates, at most one for each.
\<close>

theorem daemon_streams_isolated:
  assumes "daemon_reach E s" and "bs_calls (wn_bs (dm_streams s)) < 2 ^ 64" and "wn_conns (dm_streams s) i = Some c"
  shows "\<exists>cl \<in> set (cfg_Clients (sv_cfg (dm_server s))). cn_client c = Some cl
    \<and> (\<forall>ev \<in> set (cn_sent c). ev_ChatID ev \<in> client_chats cl
        \<and> (\<exists>e u msg. (e, u) \<in> set (dm_updates s)
            \<and> u \<in> {UpdateNewMessage (TheMessage msg), UpdateNewChannelMessage (TheMessage msg)}
            \<and> \<not> msg_Out msg \<and> chatAllowed (dm_br s) (peerToChatID (msg_PeerID msg))
            \<and> ev = message_event (bg_mediaKey (dm_br s)) e msg))
    \<and> subseq (cn_sent c) (concat (map (\<lambda>(e, u). events_of (dm_br s) e (update_message u)) (dm_updates s)))"
proof -
  note D = daemon_invD [OF daemon_reach_inv [OF assms(1)]]
  note all = D(8) [unfolded update_events_def]
  obtain cl where cl: "cl \<in> set (cfg_Clients (sv_cfg (dm_server s)))" "cn_client c = Some cl" using D(9) [OF assms(3)] by blast
  have sub: "subseq (cn_sent c) (bs_published (wn_bs (dm_streams s))) \<and> (\<forall>ev \<in> set (cn_sent c). eventAllowed (cn_client c) ev)"
  proof (cases "cn_sub c")
    case None
    then show ?thesis using no_sub_facts(1) [OF D(3) assms(2,3)] by simp
  next
    case (Some p)
    note f = stream_facts [OF D(3) assms(2,3) Some]
    have "subseq (cn_sent c) (filter (eventAllowed (cn_client c)) (bs_received (wn_bs (dm_streams s)) (snd p)))"
      unfolding f(1) by (simp add: prefix_imp_subseq)
    then have "subseq (cn_sent c) (bs_received (wn_bs (dm_streams s)) (snd p))"
      by (rule subseq_order.order_trans) (rule subseq_filter_left)
    moreover have "set (cn_sent c) \<subseteq> set (filter (eventAllowed (cn_client c)) (bs_received (wn_bs (dm_streams s)) (snd p)))"
      unfolding f(1) by auto
    ultimately show ?thesis using subseq_order.order_trans [OF _ f(2)] by auto
  qed
  have "ev_ChatID ev \<in> client_chats cl" if "ev \<in> set (cn_sent c)" for ev
    using sub that cl(2) by (auto simp: eventAllowed_def client_chats_def split: if_splits)
  moreover have "ev \<in> set (update_events (dm_br s) (dm_updates s))" if "ev \<in> set (cn_sent c)" for ev
    using sub that D(8) by (auto dest: list_emb_set)
  ultimately show ?thesis
    using cl sub unfolding update_events_member all by blast
qed

theorem daemon_streams_isolated_witness:
  "\<exists>s c. daemon_reach text_env s \<and> wn_conns (dm_streams s) 0 = Some c \<and> map ev_Text (cn_sent c) = [''hi'']
     \<and> (\<exists>cl \<in> set (cfg_Clients (sv_cfg (dm_server s))). \<forall>ev \<in> set (cn_sent c). ev_ChatID ev \<in> client_chats cl)"
proof -
  obtain b ev where s: "daemon_reach text_env (sample_daemon [hi_update] b auth_start (stream_wrote client_a ev))" (is "daemon_reach _ ?s")
    and ev: "ev_Text ev = ''hi''" using sample_stream_run by blast
  let ?c = "(one_stream client_a WsSelect [ev])\<lparr>cn_sent := [ev]\<rparr>"
  have c: "bs_calls (wn_bs (dm_streams ?s)) < 2 ^ 64" "wn_conns (dm_streams ?s) 0 = Some ?c"
    by (simp_all add: sample_daemon_def one_conn_def)
  from daemon_streams_isolated [OF s c] have
    "\<exists>cl \<in> set (cfg_Clients (sv_cfg (dm_server ?s))). \<forall>ev \<in> set (cn_sent ?c). ev_ChatID ev \<in> client_chats cl" by blast
  moreover have "map ev_Text (cn_sent ?c) = [''hi'']" by (simp add: ev)
  ultimately show ?thesis using s c(2) by (intro exI conjI)
qed

text \<open>
  C14: No part of a daemon started on a cache directory in order panics, in whatever order its parts run: every request gets an
  answer that is not a panic, every update is handled, a value submitted to the login is taken or
  refused, and a returning stream can unsubscribe.
\<close>

theorem daemon_no_panic:
  assumes "daemon_reach E s" and "bs_calls (wn_bs (dm_streams s)) < 2 ^ 64"
  shows "(\<forall>env r. rs_Reply (fst (serve env r (dm_server s))) \<noteq> ReplyPanic)
    \<and> (\<forall>e m. \<exists>b. dispatchMessage e m (dm_br s) = Inr b)
    \<and> (\<forall>v. (\<exists>x. SubmitPhone v (bg_auth (dm_br s)) = Inr x) \<and> (\<exists>x. SubmitCode v (bg_auth (dm_br s)) = Inr x)
        \<and> (\<exists>x. SubmitPassword v (bg_auth (dm_br s)) = Inr x))
    \<and> (\<forall>sid. \<exists>b. unsubscribe sid (bg_events (dm_br s)) = Inr b)"
proof -
  note D = daemon_invD [OF daemon_reach_inv [OF assms(1)]]
  have "rs_Reply (fst (serve env r (dm_server s))) \<noteq> ReplyPanic" for env r
    using serve_step(3) [OF D(1)] by (cases "serve env r (dm_server s)") auto
  moreover have "events_reached (dm_br s) (wn_bs (dm_streams s))"
    using ws_reach_broker [OF D(3)] assms(2) D(5) by (simp add: events_reached_def)
  then have "\<exists>b. dispatchMessage e m (dm_br s) = Inr b" for e m using dispatch_step by blast
  moreover have "auth_chans_ok (bg_auth (dm_br s))" using D(1) by (simp add: bridge_ok_def)
  then have "(\<exists>x. SubmitPhone v (bg_auth (dm_br s)) = Inr x) \<and> (\<exists>x. SubmitCode v (bg_auth (dm_br s)) = Inr x)
        \<and> (\<exists>x. SubmitPassword v (bg_auth (dm_br s)) = Inr x)" for v
    using trySend_ok [of _ v] by (fastforce simp: SubmitPhone_def SubmitCode_def SubmitPassword_def auth_chans_ok_def)
  moreover have "\<exists>b. unsubscribe sid (bg_events (dm_br s)) = Inr b" for sid
    using inv_unsubscribe [OF reach_inv [OF ws_reach_broker [OF D(3)] assms(2)], of sid] D(5)
    by (simp split: option.splits)
  ultimately show ?thesis by blast
qed

theorem daemon_no_panic_witness:
  "\<exists>s. daemon_reach text_env s \<and> wn_conns (dm_streams s) \<noteq> Map.empty
     \<and> (\<exists>b. dispatchMessage sample_entities (incoming (PeerUser 7) ''again'') (dm_br s) = Inr b)"
proof -
  obtain b ev where s: "daemon_reach text_env (sample_daemon [hi_update] b auth_start (stream_wrote client_a ev))" (is "daemon_reach _ ?s")
    using sample_stream_run by blast
  have "bs_calls (wn_bs (dm_streams ?s)) < 2 ^ 64" "wn_conns (dm_streams ?s) \<noteq> Map.empty"
    by (simp_all add: sample_daemon_def one_conn_def)
  with daemon_no_panic [OF s this(1)] s show ?thesis by blast
qed

end
