(* ===== verification/Wire.thy ===== *)
theory Wire
  imports Http_Api
begin

text \<open>
  What goes over the wire: the JSON of the structs by their field tags, the bodies of the responses
  and the frames of the event stream, and the line that \<open>requestLog\<close> writes for a request. The
  readers are the reference a client would use; they are not code of the repository.
\<close>

section \<open>Structs as JSON\<close>

text \<open>A field with \<open>omitempty\<close>: left out when the value is the zero value.\<close>

definition omitempty :: "bool \<Rightarrow> string \<Rightarrow> json \<Rightarrow> (string \<times> json) list" where
  "omitempty zero k j = (if zero then [] else [(k, j)])"

definition json_MediaSummary :: "MediaSummary \<Rightarrow> json" where
  "json_MediaSummary m = JObj
     ([(''type'', JStr (sum_Type m))]
      @ omitempty (sum_MediaID m = '''') ''media_id'' (JStr (sum_MediaID m))
      @ omitempty (sum_MimeType m = '''') ''mime'' (JStr (sum_MimeType m))
      @ omitempty (sum_Size m = 0) ''size'' (jint (sum_Size m))
      @ omitempty (sum_Width m = 0) ''w'' (jint (sum_Width m))
      @ omitempty (sum_Height m = 0) ''h'' (jint (sum_Height m)))"

text \<open>The field \<open>Media any\<close>, which holds nothing or a summary.\<close>

definition media_field :: "MediaSummary option \<Rightarrow> (string \<times> json) list" where
  "media_field m = (case m of None \<Rightarrow> [] | Some x \<Rightarrow> [(''media'', json_MediaSummary x)])"

definition json_Event :: "Event \<Rightarrow> json" where
  "json_Event e = JObj
     ([(''type'', JStr (ev_Type e)), (''chat_id'', jint (ev_ChatID e))]
      @ omitempty (ev_MsgID e = 0) ''msg_id'' (jint (ev_MsgID e))
      @ omitempty (ev_From e = '''') ''from'' (JStr (ev_From e))
      @ omitempty (ev_FromID e = 0) ''from_id'' (jint (ev_FromID e))
      @ omitempty (ev_Text e = '''') ''text'' (JStr (ev_Text e))
      @ media_field (ev_Media e)
      @ omitempty (ev_Ts e = 0) ''ts'' (jint (ev_Ts e))
      @ omitempty (ev_ReplyTo e = 0) ''reply_to'' (jint (ev_ReplyTo e)))"

definition json_Chat :: "Chat \<Rightarrow> json" where
  "json_Chat c = JObj
     ([(''id'', jint (chat_ID c)), (''type'', JStr (chat_Type c)), (''title'', JStr (chat_Title c)),
       (''unread'', jint (chat_Unread c))]
      @ omitempty (chat_LastMsg c = '''') ''last_msg'' (JStr (chat_LastMsg c))
      @ omitempty (chat_LastTs c = 0) ''last_ts'' (jint (chat_LastTs c))
      @ omitempty (chat_Username c = '''') ''username'' (JStr (chat_Username c)))"

definition json_Message :: "Message \<Rightarrow> json" where
  "json_Message m = JObj
     ([(''id'', jint (out_ID m)), (''chat_id'', jint (out_ChatID m))]
      @ omitempty (out_From m = '''') ''from'' (JStr (out_From m))
      @ omitempty (out_FromID m = 0) ''from_id'' (jint (out_FromID m))
      @ [(''text'', JStr (out_Text m)), (''ts'', jint (out_Ts m)), (''out'', JBool (out_Out m))]
      @ omitempty (out_ReplyTo m = 0) ''reply_to'' (jint (out_ReplyTo m))
      @ media_field (out_Media m))"

text \<open>The map of \<open>handleMe\<close>; the encoder writes a map's keys in order.\<close>

definition json_Me :: "tgUser \<Rightarrow> json" where
  "json_Me u = JObj
     [(''first'', JStr (usr_FirstName u)), (''id'', jint (usr_ID u)), (''last'', JStr (usr_LastName u)),
      (''phone'', JStr (usr_Phone u)), (''username'', JStr (usr_Username u))]"

definition json_authStatus :: "string \<Rightarrow> string \<Rightarrow> json" where
  "json_authStatus st err = JObj ([(''state'', JStr st)] @ omitempty (err = '''') ''error'' (JStr err))"

fun reply_json :: "reply \<Rightarrow> json option" where
  "reply_json (ReplyError m) = Some (JObj [(''error'', JStr m)])"
| "reply_json (ReplyMe u) = Some (json_Me u)"
| "reply_json (ReplyChats cs) = Some (JArr (map json_Chat cs))"
| "reply_json (ReplyMessages ms) = Some (JArr (map json_Message ms))"
| "reply_json (ReplyMsgID i) = Some (JObj [(''msg_id'', jint i)])"
| "reply_json (ReplyStatus st) = Some (JObj [(''status'', JStr st)])"
| "reply_json (ReplyAuth st err) = Some (json_authStatus st err)"
| "reply_json _ = None"

text \<open>
  The body that the handler writes, and the content type: \<open>Encode\<close> and \<open>http.Error\<close> end the body with a
  line break; a file is sent as it is. \<open>net/http\<close> sends no body in the answer to a HEAD request, which
  the mux routes as GET: what the handler writes is then dropped.
\<close>

abbreviation newline :: char where "newline \<equiv> CHR 0x0A"

definition response_body :: "response \<Rightarrow> string" where
  "response_body resp =
     (case rs_Reply resp of
        ReplyText m \<Rightarrow> m @ [newline]
      | ReplyFile mime data \<Rightarrow> map char_of_byte data
      | rep \<Rightarrow> (case reply_json rep of Some j \<Rightarrow> json_encode j @ [newline] | None \<Rightarrow> []))"

definition content_type :: "response \<Rightarrow> string" where
  "content_type resp =
     (case rs_Reply resp of
        ReplyText m \<Rightarrow> ''text/plain; charset=utf-8''
      | ReplyFile mime data \<Rightarrow> mime
      | rep \<Rightarrow> (case reply_json rep of Some j \<Rightarrow> ''application/json'' | None \<Rightarrow> ''''))"

text \<open>\<open>writeEvent\<close>: the text frame of an event; \<open>Marshal\<close> cannot fail on this struct.\<close>

definition event_frame :: "Event \<Rightarrow> string" where
  "event_frame e = json_encode (json_Event e)"

section \<open>Reading them back\<close>

fun member :: "string \<Rightarrow> (string \<times> json) list \<Rightarrow> json option" where
  "member k [] = None"
| "member k ((k', j) # ms) = (if k' = k then Some j else member k ms)"

definition str_member :: "string \<Rightarrow> (string \<times> json) list \<Rightarrow> string option" where
  "str_member k ms = (case member k ms of None \<Rightarrow> Some '''' | Some (JStr s) \<Rightarrow> Some s | Some _ \<Rightarrow> None)"

definition int_member :: "string \<Rightarrow> (string \<times> json) list \<Rightarrow> i64 option" where
  "int_member k ms = (case member k ms of None \<Rightarrow> Some 0 | Some (JNum t) \<Rightarrow> Some (fst (parse_int t)) | Some _ \<Rightarrow> None)"

definition bool_member :: "string \<Rightarrow> (string \<times> json) list \<Rightarrow> bool option" where
  "bool_member k ms = (case member k ms of None \<Rightarrow> Some False | Some (JBool b) \<Rightarrow> Some b | Some _ \<Rightarrow> None)"

fun read_MediaSummary :: "json \<Rightarrow> MediaSummary option" where
  "read_MediaSummary (JObj ms) =
     do { ty \<leftarrow> str_member ''type'' ms; i \<leftarrow> str_member ''media_id'' ms; mime \<leftarrow> str_member ''mime'' ms;
          n \<leftarrow> int_member ''size'' ms; w \<leftarrow> int_member ''w'' ms; h \<leftarrow> int_member ''h'' ms;
          Some \<lparr>sum_Type = ty, sum_MediaID = i, sum_MimeType = mime, sum_Size = n, sum_Width = w, sum_Height = h\<rparr> }"
| "read_MediaSummary _ = None"

definition media_member :: "(string \<times> json) list \<Rightarrow> MediaSummary option option" where
  "media_member ms = (case member ''media'' ms of None \<Rightarrow> Some None | Some j \<Rightarrow> map_option Some (read_MediaSummary j))"

fun read_Event :: "json \<Rightarrow> Event option" where
  "read_Event (JObj ms) =
     do { ty \<leftarrow> str_member ''type'' ms; c \<leftarrow> int_member ''chat_id'' ms; i \<leftarrow> int_member ''msg_id'' ms;
          f \<leftarrow> str_member ''from'' ms; fi \<leftarrow> int_member ''from_id'' ms; t \<leftarrow> str_member ''text'' ms;
          m \<leftarrow> media_member ms; ts \<leftarrow> int_member ''ts'' ms; rt \<leftarrow> int_member ''reply_to'' ms;
          Some \<lparr>ev_Type = ty, ev_ChatID = c, ev_MsgID = i, ev_From = f, ev_FromID = fi, ev_Text = t,
            ev_Media = m, ev_Ts = ts, ev_ReplyTo = rt\<rparr> }"
| "read_Event _ = None"

fun read_Chat :: "json \<Rightarrow> Chat option" where
  "read_Chat (JObj ms) =
     do { i \<leftarrow> int_member ''id'' ms; ty \<leftarrow> str_member ''type'' ms; t \<leftarrow> str_member ''title'' ms;
          u \<leftarrow> int_member ''unread'' ms; lm \<leftarrow> str_member ''last_msg'' ms; lt \<leftarrow> int_member ''last_ts'' ms;
          n \<leftarrow> str_member ''username'' ms;
          Some \<lparr>chat_ID = i, chat_Type = ty, chat_Title = t, chat_Unread = u, chat_LastMsg = lm,
            chat_LastTs = lt, chat_Username = n\<rparr> }"
| "read_Chat _ = None"

fun read_Message :: "json \<Rightarrow> Message option" where
  "read_Message (JObj ms) =
     do { i \<leftarrow> int_member ''id'' ms; c \<leftarrow> int_member ''chat_id'' ms; f \<leftarrow> str_member ''from'' ms;
          fi \<leftarrow> int_member ''from_id'' ms; t \<leftarrow> str_member ''text'' ms; ts \<leftarrow> int_member ''ts'' ms;
          ou \<leftarrow> bool_member ''out'' ms; rt \<leftarrow> int_member ''reply_to'' ms; m \<leftarrow> media_member ms;
          Some \<lparr>out_ID = i, out_ChatID = c, out_From = f, out_FromID = fi, out_Text = t, out_Ts = ts,
            out_Out = ou, out_ReplyTo = rt, out_Media = m\<rparr> }"
| "read_Message _ = None"

text \<open>What becomes of the text in them: ill-formed UTF-8 is replaced, all else stays.\<close>

definition valid_MediaSummary :: "MediaSummary \<Rightarrow> MediaSummary" where
  "valid_MediaSummary m = m\<lparr>sum_Type := to_valid (sum_Type m), sum_MediaID := to_valid (sum_MediaID m),
     sum_MimeType := to_valid (sum_MimeType m)\<rparr>"

definition valid_Event :: "Event \<Rightarrow> Event" where
  "valid_Event e = e\<lparr>ev_Type := to_valid (ev_Type e), ev_From := to_valid (ev_From e),
     ev_Text := to_valid (ev_Text e), ev_Media := map_option valid_MediaSummary (ev_Media e)\<rparr>"

definition valid_Chat :: "Chat \<Rightarrow> Chat" where
  "valid_Chat c = c\<lparr>chat_Type := to_valid (chat_Type c), chat_Title := to_valid (chat_Title c),
     chat_LastMsg := to_valid (chat_LastMsg c), chat_Username := to_valid (chat_Username c)\<rparr>"

definition valid_Message :: "Message \<Rightarrow> Message" where
  "valid_Message m = m\<lparr>out_From := to_valid (out_From m), out_Text := to_valid (out_Text m),
     out_Media := map_option valid_MediaSummary (out_Media m)\<rparr>"

section \<open>Structs go over the wire\<close>

text \<open>
  The contract of a struct's encoding: it is read back as the same value with its text made valid.
\<close>

locale wire_struct =
  fixes enc :: "'a \<Rightarrow> json" and dec :: "json \<Rightarrow> 'a option" and norm :: "'a \<Rightarrow> 'a"
  assumes enc_ok: "2 \<le> d \<Longrightarrow> json_ok d (enc x)"
    and dec_enc: "dec (json_clean (enc x)) = Some (norm x)"
begin

lemma text_roundtrip:
  assumes "stops rest"
  shows "Option.bind (json_decode (json_encode (enc x) @ rest)) dec = Some (norm x)"
proof -
  have "json_ok 10000 (enc x)" by (rule enc_ok) simp
  from json_decode_encode [OF this assms] dec_enc show ?thesis by simp
qed

lemma text_same: "json_encode (enc x) = json_encode (enc y) \<Longrightarrow> norm x = norm y"
  using text_roundtrip [of "[]" x] text_roundtrip [of "[]" y] by simp

lemma elems_enc_ok: "2 \<le> d \<Longrightarrow> elems_ok d (map enc xs)"
  by (induction xs) (simp_all add: enc_ok)

lemma map_dec_clean: "map dec (clean_elems (map enc xs)) = map (Some \<circ> norm) xs"
  by (induction xs) (simp_all add: dec_enc)

lemma list_roundtrip:
  assumes "stops rest"
  shows "\<exists>js. json_decode (json_encode (JArr (map enc xs)) @ rest) = Some (JArr js) \<and> map dec js = map (Some \<circ> norm) xs"
proof -
  have "json_ok 10000 (JArr (map enc xs))" by (simp add: elems_enc_ok)
  from json_decode_encode [OF this assms] map_dec_clean show ?thesis by simp
qed

end

lemma member_append: "member k (xs @ ys) = (case member k xs of None \<Rightarrow> member k ys | Some j \<Rightarrow> Some j)"
  by (induction xs) auto

lemma clean_members_append [simp]: "clean_members (xs @ ys) = clean_members xs @ clean_members ys"
  by (induction xs) auto

lemma members_ok_append [simp]: "members_ok d (xs @ ys) \<longleftrightarrow> members_ok d xs \<and> members_ok d ys"
  by (induction xs) auto

lemma clean_omitempty [simp]: "clean_members (omitempty e k j) = omitempty e (to_valid k) (json_clean j)"
  by (simp add: omitempty_def)

lemma members_ok_omitempty [simp]: "members_ok d (omitempty e k j) \<longleftrightarrow> e \<or> json_ok d j"
  by (simp add: omitempty_def)

lemma member_omitempty [simp]:
  "member k (omitempty e k' j @ ms) = (if k' = k \<and> \<not> e then Some j else member k ms)"
  "member k (omitempty e k' j) = (if k' = k \<and> \<not> e then Some j else None)"
  by (simp_all add: omitempty_def)

text \<open>The names of the members are ASCII.\<close>

lemma ascii_names [simp]:
  "to_valid ''type'' = ''type''" "to_valid ''media_id'' = ''media_id''" "to_valid ''mime'' = ''mime''"
  "to_valid ''size'' = ''size''" "to_valid ''w'' = ''w''" "to_valid ''h'' = ''h''" "to_valid ''chat_id'' = ''chat_id''"
  "to_valid ''msg_id'' = ''msg_id''" "to_valid ''from'' = ''from''" "to_valid ''from_id'' = ''from_id''"
  "to_valid ''text'' = ''text''" "to_valid ''media'' = ''media''" "to_valid ''ts'' = ''ts''"
  "to_valid ''reply_to'' = ''reply_to''" "to_valid ''id'' = ''id''" "to_valid ''title'' = ''title''"
  "to_valid ''unread'' = ''unread''" "to_valid ''last_msg'' = ''last_msg''" "to_valid ''last_ts'' = ''last_ts''"
  "to_valid ''username'' = ''username''" "to_valid ''out'' = ''out''" "to_valid ''error'' = ''error''"
  "to_valid ''status'' = ''status''" "to_valid ''state'' = ''state''" "to_valid ''first'' = ''first''"
  "to_valid ''last'' = ''last''" "to_valid ''phone'' = ''phone''"
  by (rule to_valid_id, rule valid_utf8_ascii, simp add: between_def)+

lemma parse_print_fst [simp]: "fst (parse_int (print_i64 n)) = n"
  by (simp add: parse_int_print_i64)

lemmas member_defs = str_member_def int_member_def bool_member_def media_member_def

lemma media_enc: "1 \<le> d \<Longrightarrow> json_ok d (json_MediaSummary m)"
  "read_MediaSummary (json_clean (json_MediaSummary m)) = Some (valid_MediaSummary m)"
  by (simp_all add: json_MediaSummary_def member_defs valid_MediaSummary_def)

lemma media_field_facts [simp]:
  "clean_members (media_field m) = (case m of None \<Rightarrow> [] | Some x \<Rightarrow> [(''media'', json_clean (json_MediaSummary x))])"
  "1 \<le> d \<Longrightarrow> members_ok d (media_field m)"
  by (simp_all add: media_field_def media_enc split: option.split)

interpretation wire_event: wire_struct json_Event read_Event valid_Event
proof
  fix d :: nat and x :: Event
  show "2 \<le> d \<Longrightarrow> json_ok d (json_Event x)" by (simp add: json_Event_def)
  show "read_Event (json_clean (json_Event x)) = Some (valid_Event x)"
    by (cases "ev_Media x") (simp_all add: json_Event_def member_defs valid_Event_def media_enc)
qed

interpretation wire_chat: wire_struct json_Chat read_Chat valid_Chat
proof
  fix d :: nat and x :: Chat
  show "2 \<le> d \<Longrightarrow> json_ok d (json_Chat x)" by (simp add: json_Chat_def)
  show "read_Chat (json_clean (json_Chat x)) = Some (valid_Chat x)"
    by (simp add: json_Chat_def member_defs valid_Chat_def)
qed

interpretation wire_message: wire_struct json_Message read_Message valid_Message
proof
  fix d :: nat and x :: Message
  show "2 \<le> d \<Longrightarrow> json_ok d (json_Message x)" by (simp add: json_Message_def)
  show "read_Message (json_clean (json_Message x)) = Some (valid_Message x)"
    by (cases "out_Media x") (simp_all add: json_Message_def member_defs valid_Message_def media_enc)
qed

section \<open>The type of each response\<close>

text \<open>Types of JSON values: an object has the named members only, and those marked true always.\<close>

datatype jtype = TStr | TInt | TBool | TArr jtype | TObj "(string \<times> bool \<times> jtype) list"

fun has_type :: "jtype \<Rightarrow> json \<Rightarrow> bool" and elems_type :: "jtype \<Rightarrow> json list \<Rightarrow> bool"
  and members_type :: "(string \<times> bool \<times> jtype) list \<Rightarrow> (string \<times> json) list \<Rightarrow> bool" where
  "has_type TStr (JStr s) = True"
| "has_type TInt (JNum t) = (t = print_i64 (fst (parse_int t)))"
| "has_type TBool (JBool b) = True"
| "has_type (TArr t) (JArr js) = elems_type t js"
| "has_type (TObj fs) (JObj ms) = (members_type fs ms \<and> (\<forall>(k, always, t) \<in> set fs. always \<longrightarrow> member k ms \<noteq> None))"
| "has_type _ _ = False"
| "elems_type t [] = True"
| "elems_type t (j # js) = (has_type t j \<and> elems_type t js)"
| "members_type fs [] = True"
| "members_type fs ((k, j) # ms) =
     ((case map_of fs k of Some (always, t) \<Rightarrow> has_type t j | None \<Rightarrow> False) \<and> members_type fs ms)"

definition media_T :: jtype where
  "media_T = TObj [(''type'', True, TStr), (''media_id'', False, TStr), (''mime'', False, TStr),
     (''size'', False, TInt), (''w'', False, TInt), (''h'', False, TInt)]"

definition chat_T :: jtype where
  "chat_T = TObj [(''id'', True, TInt), (''type'', True, TStr), (''title'', True, TStr), (''unread'', True, TInt),
     (''last_msg'', False, TStr), (''last_ts'', False, TInt), (''username'', False, TStr)]"

definition message_T :: jtype where
  "message_T = TObj [(''id'', True, TInt), (''chat_id'', True, TInt), (''from'', False, TStr), (''from_id'', False, TInt),
     (''text'', True, TStr), (''ts'', True, TInt), (''out'', True, TBool), (''reply_to'', False, TInt), (''media'', False, media_T)]"

definition me_T :: jtype where
  "me_T = TObj [(''first'', True, TStr), (''id'', True, TInt), (''last'', True, TStr), (''phone'', True, TStr), (''username'', True, TStr)]"

definition error_T :: jtype where
  "error_T = TObj [(''error'', True, TStr)]"

definition status_T :: jtype where
  "status_T = TObj [(''status'', True, TStr)]"

text \<open>The statuses an endpoint answers with an error, and the type of its answer with status 200.\<close>

definition error_codes :: "endpoint \<Rightarrow> nat list" where
  "error_codes ep = 401 # (if limited ep then [429] else []) @
     (case ep of
        AuthStatusRoute \<Rightarrow> []
      | AuthPhoneRoute \<Rightarrow> [400, 409] | AuthCodeRoute \<Rightarrow> [400, 409] | AuthPasswordRoute \<Rightarrow> [400, 409]
      | MeRoute \<Rightarrow> [503]
      | ListChatsRoute \<Rightarrow> [503, 500]
      | GetMessagesRoute i \<Rightarrow> [503, 400, 403, 500]
      | SendMessageRoute i \<Rightarrow> [503, 400, 403, 502]
      | MarkReadRoute i \<Rightarrow> [503, 400, 403, 502]
      | GetMediaRoute i \<Rightarrow> [400]
      | EventsRoute \<Rightarrow> [])"

fun result_type :: "endpoint \<Rightarrow> jtype option" where
  "result_type AuthStatusRoute = Some (TObj [(''state'', True, TStr), (''error'', False, TStr)])"
| "result_type MeRoute = Some me_T"
| "result_type ListChatsRoute = Some (TArr chat_T)"
| "result_type (GetMessagesRoute i) = Some (TArr message_T)"
| "result_type (SendMessageRoute i) = Some (TObj [(''msg_id'', True, TInt)])"
| "result_type (GetMediaRoute i) = None"
| "result_type EventsRoute = None"
| "result_type _ = Some status_T"

definition response_type :: "endpoint \<Rightarrow> nat \<Rightarrow> jtype option" where
  "response_type ep code = (if code \<in> set (error_codes ep) then Some error_T else if code = 200 then result_type ep else None)"

text \<open>The answers that are not JSON: a file, which may have gone, and the upgrade, which may be refused.\<close>

fun raw_response :: "endpoint \<Rightarrow> response \<Rightarrow> bool" where
  "raw_response (GetMediaRoute i) resp =
     (case rs_Reply resp of ReplyFile mime data \<Rightarrow> rs_Code resp = 200 | ReplyText m \<Rightarrow> rs_Code resp = 404 | _ \<Rightarrow> False)"
| "raw_response EventsRoute resp =
     (case rs_Reply resp of ReplyUpgrade \<Rightarrow> rs_Code resp = 101 | ReplyText m \<Rightarrow> 400 \<le> rs_Code resp | _ \<Rightarrow> False)"
| "raw_response _ resp = False"

lemma members_type_append [simp]: "members_type fs (xs @ ys) \<longleftrightarrow> members_type fs xs \<and> members_type fs ys"
  by (induction xs) auto

lemma members_type_omitempty [simp]:
  "members_type fs (omitempty e k j) \<longleftrightarrow> e \<or> (case map_of fs k of Some (always, t) \<Rightarrow> has_type t j | None \<Rightarrow> False)"
  by (simp add: omitempty_def)

lemma has_type_structs:
  "has_type media_T (json_clean (json_MediaSummary m))" "has_type chat_T (json_clean (json_Chat c))"
  "has_type message_T (json_clean (json_Message x))" "has_type me_T (json_clean (json_Me u))"
proof -
  show m: "has_type media_T (json_clean (json_MediaSummary m))" for m by (simp add: media_T_def json_MediaSummary_def)
  show "has_type chat_T (json_clean (json_Chat c))" by (simp add: chat_T_def json_Chat_def)
  show "has_type message_T (json_clean (json_Message x))"
    by (cases "out_Media x") (simp_all add: message_T_def json_Message_def m)
  show "has_type me_T (json_clean (json_Me u))" by (simp add: me_T_def json_Me_def)
qed

lemma elems_type_map: "(\<And>x. has_type t (json_clean (f x))) \<Longrightarrow> elems_type t (clean_elems (map f xs))"
  by (induction xs) simp_all

definition typed_reply :: "endpoint \<Rightarrow> response \<Rightarrow> bool" where
  "typed_reply ep resp \<longleftrightarrow> rs_RetryAfter resp = (if rs_Code resp = 429 then ''60'' else '''') \<and>
     (raw_response ep resp \<or>
      (\<exists>j T. reply_json (rs_Reply resp) = Some j \<and> json_ok 10000 j \<and> response_type ep (rs_Code resp) = Some T
         \<and> has_type T (json_clean j)))"

lemma typed_error:
  "c \<in> set (error_codes ep) \<Longrightarrow> c \<noteq> 429 \<Longrightarrow> typed_reply ep (writeError c m)"
  by (simp add: typed_reply_def response_type_def error_T_def writeError_def writeJSON_def)

lemma typed_json:
  assumes "200 \<notin> set (error_codes ep)" and "reply_json rep = Some j" and "json_ok 10000 j" and "result_type ep = Some T"
    and "has_type T (json_clean j)"
  shows "typed_reply ep (writeJSON 200 rep)"
  using assms by (simp add: typed_reply_def response_type_def writeJSON_def)

lemma typed_raw: "raw_response ep resp \<Longrightarrow> rs_Code resp \<noteq> 429 \<Longrightarrow> rs_RetryAfter resp = '''' \<Longrightarrow> typed_reply ep resp"
  by (simp add: typed_reply_def)

lemma typed_status: "result_type ep = Some status_T \<Longrightarrow> typed_reply ep (writeJSON 200 (ReplyStatus st))"
  by (rule typed_json [where j = "JObj [(''status'', JStr st)]" and T = status_T])
    (auto simp: error_codes_def status_T_def split: endpoint.split)

lemma error_codes_simps [simp]: "401 \<in> set (error_codes ep)" "limited ep \<Longrightarrow> 429 \<in> set (error_codes ep)" "200 \<notin> set (error_codes ep)"
  by (auto simp: error_codes_def split: endpoint.split)

lemma typed_submit:
  assumes "auth_submit_handler f submit env r cl s = (resp, s')" and "rs_Reply resp \<noteq> ReplyPanic"
    and "result_type ep = Some status_T" and "{400, 409} \<subseteq> set (error_codes ep)"
  shows "typed_reply ep resp"
  using assms by (auto simp: auth_submit_handler_def Let_def intro: typed_error typed_status split: sum.splits if_splits prod.splits option.splits)

lemma typed_checks:
  assumes "chat_checks p cl s = Inl resp" and "{503, 400, 403} \<subseteq> set (error_codes ep)"
  shows "typed_reply ep resp"
  using assms by (auto simp: chat_checks_def intro!: typed_error split: if_splits sum.splits)

lemma typed_chats: "typed_reply ListChatsRoute (writeJSON 200 (ReplyChats cs))"
  by (rule typed_json [where j = "JArr (map json_Chat cs)" and T = "TArr chat_T"])
    (simp_all add: wire_chat.elems_enc_ok elems_type_map has_type_structs)

lemma typed_messages: "typed_reply (GetMessagesRoute i) (writeJSON 200 (ReplyMessages ms))"
  by (rule typed_json [where j = "JArr (map json_Message ms)" and T = "TArr message_T"])
    (simp_all add: wire_message.elems_enc_ok elems_type_map has_type_structs)

lemma typed_me: "typed_reply MeRoute (writeJSON 200 (ReplyMe u))"
  by (rule typed_json [where j = "json_Me u" and T = me_T]) (simp_all add: has_type_structs, simp add: json_Me_def)

lemma typed_msg_id: "typed_reply (SendMessageRoute i) (writeJSON 200 (ReplyMsgID n))"
  by (rule typed_json [where j = "JObj [(''msg_id'', jint n)]" and T = "TObj [(''msg_id'', True, TInt)]"]) simp_all

lemma typed_auth: "typed_reply AuthStatusRoute (writeJSON 200 (ReplyAuth st err))"
  by (rule typed_json [where j = "json_authStatus st err" and T = "TObj [(''state'', True, TStr), (''error'', False, TStr)]"])
    (simp_all add: json_authStatus_def)

lemma inner_typed:
  assumes h: "inner_handler ep env r cl s = (resp, s')" and "rs_Reply resp \<noteq> ReplyPanic"
  shows "typed_reply ep resp"
proof (cases ep)
  case AuthStatusRoute
  with h show ?thesis by (auto simp: handleAuthStatus_def typed_auth split: prod.splits)
next
  case AuthPhoneRoute
  with h assms(2) show ?thesis by (auto simp: handleAuthPhone_def error_codes_def elim!: typed_submit)
next
  case AuthCodeRoute
  with h assms(2) show ?thesis by (auto simp: handleAuthCode_def error_codes_def elim!: typed_submit)
next
  case AuthPasswordRoute
  with h assms(2) show ?thesis by (auto simp: handleAuthPassword_def error_codes_def elim!: typed_submit)
next
  case MeRoute
  with h show ?thesis by (auto simp: handleMe_def typed_me error_codes_def intro!: typed_error split: option.splits)
next
  case ListChatsRoute
  with h show ?thesis
    by (auto simp: handleListChats_def typed_chats error_codes_def intro!: typed_error split: if_splits prod.splits sum.splits)
next
  case (GetMessagesRoute i)
  with h show ?thesis
    by (auto simp: handleGetMessages_def typed_messages error_codes_def intro!: typed_error elim!: typed_checks
        split: prod.splits sum.splits)
next
  case (SendMessageRoute i)
  with h show ?thesis
    by (auto simp: handleSendMessage_def typed_msg_id error_codes_def intro!: typed_error elim!: typed_checks
        split: if_splits prod.splits sum.splits)
next
  case (MarkReadRoute i)
  with h show ?thesis
    by (auto simp: handleMarkRead_def error_codes_def intro!: typed_error typed_status elim!: typed_checks
        split: option.splits prod.splits sum.splits)
next
  case (GetMediaRoute i)
  with h assms(2) show ?thesis
    by (auto simp: handleGetMedia_def error_codes_def http_Error_def writeJSON_def intro!: typed_error typed_raw
        split: if_splits option.splits prod.splits sum.splits)
next
  case EventsRoute
  with h show ?thesis
    by (auto simp: handleEvents_accept_def http_Error_def writeJSON_def intro!: typed_raw split: handshake.splits)
qed

lemma serve_typed:
  assumes ok: "bridge_ok (sv_br s)" and ep: "find_route r = Some ep" and h: "serve env r s = (resp, s')"
  shows "typed_reply ep resp"
proof (cases "client_of (sv_cfg s) r")
  case None
  with serve_refused [of r s env] ep h show ?thesis by (auto intro: typed_error)
next
  case (Some cl)
  have panic: "rs_Reply resp \<noteq> ReplyPanic" by (rule serve_step(3) [OF ok h])
  from serve_routed [OF ep Some] h have "route_handler ep env r (Some cl) s = (resp, s')" by simp
  then show ?thesis
  proof (cases "limited ep")
    case True
    obtain b rl where a: "allow (he_choice env) (he_now env) (clientIP r) (sv_authRL s) = (b, rl)" by fastforce
    show ?thesis
    proof (cases b)
      case True
      with \<open>route_handler ep env r (Some cl) s = (resp, s')\<close> \<open>limited ep\<close> a
      have "inner_handler ep env r (Some cl) (s\<lparr>sv_authRL := rl\<rparr>) = (resp, s')" by (simp add: route_handler_def withRateLimit_def)
      from inner_typed [OF this panic] show ?thesis .
    next
      case False
      with \<open>route_handler ep env r (Some cl) s = (resp, s')\<close> \<open>limited ep\<close> a
      have "resp = (writeError 429 ''rate limited'')\<lparr>rs_RetryAfter := ''60''\<rparr>" by (simp add: route_handler_def withRateLimit_def Let_def)
      with \<open>limited ep\<close> show ?thesis
        by (simp add: typed_reply_def response_type_def error_T_def)
    qed
  next
    case False
    with \<open>route_handler ep env r (Some cl) s = (resp, s')\<close> have "inner_handler ep env r (Some cl) s = (resp, s')"
      by (simp add: route_handler_def)
    from inner_typed [OF this panic] show ?thesis .
  qed
qed

lemma json_body:
  assumes "reply_json (rs_Reply resp) = Some j"
  shows "response_body resp = json_encode j @ [newline]" "content_type resp = ''application/json''"
  using assms by (cases "rs_Reply resp"; simp add: response_body_def content_type_def)+

text \<open>A request body that a client wrote with the same encoder gives the handlers its text.\<close>

lemma decode_string_encoded:
  assumes "valid_utf8 field" and "stops rest"
  shows "decode_string field (json_encode (JObj [(field, JStr t)]) @ rest) = Inr (to_valid t)"
  using json_decode_encode [of "JObj [(field, JStr t)]" rest] assms by (simp add: decode_string_def to_valid_id)

lemma texts_append [simp]: "texts (xs @ ys) = texts xs @ texts ys"
  by (simp add: texts_def)

text \<open>
  The peer a text for a chat goes to, or the error why there is none: the bridge is not ready in
  time, or the chat is not known even after the dialogs were listed again.
\<close>

definition target_peer :: "telegram \<Rightarrow> i64 \<Rightarrow> Bridge \<Rightarrow> InputPeer result" where
  "target_peer T chatID b =
     (case waitReady T b of
        (Some e, b1) \<Rightarrow> Inl e
      | (None, b1) \<Rightarrow> fst (resolvePeer T chatID b1))"

lemma SendText_exact:
  assumes "peers_ok b" and "SendText T chatID t b = (r, b')"
  shows "\<exists>rs. texts rs = [] \<and> (case target_peer T chatID b of
      Inl e \<Rightarrow> r = Inl e \<and> bg_rpcs b' = bg_rpcs b @ rs
    | Inr q \<Rightarrow> input_chat_id q = chatID \<and> bg_rpcs b' = bg_rpcs b @ rs @ [RpcText q t]
        \<and> r = (case tele_Text T (bg_rpcs b @ rs) q t of Inl e \<Rightarrow> Inl (ErrWrap ''send'' e) | Inr u \<Rightarrow> Inr (extractMessageID u)))"
proof -
  obtain e b1 where w: "waitReady T b = (e, b1)" by (cases "waitReady T b")
  show ?thesis
  proof (cases e)
    case (Some x)
    then show ?thesis using assms(2) w waitReady_frame [OF w] by (auto simp: SendText_def texts_def target_peer_def)
  next
    case None
    obtain p b2 where p: "resolvePeer T chatID b1 = (p, b2)" by (cases "resolvePeer T chatID b1")
    obtain rs where rs: "bg_rpcs b2 = bg_rpcs b @ rs" "texts rs = []"
      using wait_resolve_texts [OF w [unfolded None] p] by blast
    have tp: "target_peer T chatID b = p" by (simp add: target_peer_def w None p)
    show ?thesis
    proof (cases p)
      case (Inl x)
      then show ?thesis using assms(2) w None p rs tp by (auto simp: SendText_def)
    next
      case (Inr q)
      have "input_chat_id q = chatID" using wait_resolve_acts [OF assms(1) w [unfolded None] p] Inr by simp
      then show ?thesis using assms(2) w None p Inr rs tp
        by (intro exI [of _ rs]) (auto simp: SendText_def call_defs split: sum.splits)
    qed
  qed
qed

text \<open>What the device is told after Telegram was called.\<close>

definition send_response :: "UpdatesClass result \<Rightarrow> response" where
  "send_response upd =
     (case upd of
        Inl e \<Rightarrow> writeError 502 (error_text (ErrWrap ''send'' e))
      | Inr u \<Rightarrow> writeJSON 200 (ReplyMsgID (extractMessageID u)))"

text \<open>
  What must come of a posted text: the checks in the order of the handler, each of them with its
  answer and nothing done; then one text to the peer of the chat, and Telegram's answer.
\<close>

definition text_outcome :: "http_env \<Rightarrow> ClientConfig \<Rightarrow> string \<Rightarrow> string \<Rightarrow> Server \<Rightarrow> response \<Rightarrow> Server \<Rightarrow> bool" where
  "text_outcome env cl p t s resp s' \<longleftrightarrow>
     (if Self (sv_br s) = None then resp = writeError 503 ''not authorized yet'' \<and> s' = s
      else case pathChatID p of
        Inl e \<Rightarrow> resp = writeError 400 (error_text e) \<and> s' = s
      | Inr chatID \<Rightarrow>
          if \<not> clientCanAccess (Some cl) chatID then resp = writeError 403 ''chat not allowed'' \<and> s' = s
          else if strings_TrimSpace t = '''' then resp = writeError 400 ''text required'' \<and> s' = s
          else case target_peer (he_telegram env) chatID (sv_br s) of
            Inl e \<Rightarrow> resp = writeError 502 (error_text e)
              \<and> (\<exists>rs. texts rs = [] \<and> bg_rpcs (sv_br s') = bg_rpcs (sv_br s) @ rs)
          | Inr q \<Rightarrow> input_chat_id q = chatID \<and>
              (\<exists>rs. texts rs = [] \<and> bg_rpcs (sv_br s') = bg_rpcs (sv_br s) @ rs @ [RpcText q t]
                 \<and> resp = send_response (tele_Text (he_telegram env) (bg_rpcs (sv_br s) @ rs) q t)))"

lemma handleSendMessage_outcome:
  assumes ok: "bridge_ok (sv_br s)" and h: "handleSendMessage p env r (Some cl) s = (resp, s')"
    and t: "decode_string ''text'' (rq_Body r) = Inr t"
  shows "text_outcome env cl p t s resp s'"
proof (cases "\<exists>i. chat_checks p (Some cl) s = Inr i \<and> strings_TrimSpace t \<noteq> ''''")
  case False
  then show ?thesis using h t
    by (auto simp: text_outcome_def handleSendMessage_def chat_checks_def split: if_splits sum.splits)
next
  case True
  then obtain i where i: "chat_checks p (Some cl) s = Inr i" and blank: "strings_TrimSpace t \<noteq> ''''" by blast
  obtain u where chk: "Self (sv_br s) = Some u" "pathChatID p = Inr i" "clientCanAccess (Some cl) i"
    using i by (auto simp: chat_checks_def split: if_splits sum.splits)
  obtain x b where x: "SendText (he_telegram env) i t (sv_br s) = (x, b)" by (cases "SendText (he_telegram env) i t (sv_br s)")
  have r: "resp = (case x of Inl e \<Rightarrow> writeError 502 (error_text e) | Inr n \<Rightarrow> writeJSON 200 (ReplyMsgID n))" "sv_br s' = b"
    using h t i blank x by (auto simp: handleSendMessage_def split: sum.splits)
  obtain rs where rs: "texts rs = []" and out: "case target_peer (he_telegram env) i (sv_br s) of
      Inl e \<Rightarrow> x = Inl e \<and> bg_rpcs b = bg_rpcs (sv_br s) @ rs
    | Inr q \<Rightarrow> input_chat_id q = i \<and> bg_rpcs b = bg_rpcs (sv_br s) @ rs @ [RpcText q t]
        \<and> x = (case tele_Text (he_telegram env) (bg_rpcs (sv_br s) @ rs) q t of
                Inl e \<Rightarrow> Inl (ErrWrap ''send'' e) | Inr u \<Rightarrow> Inr (extractMessageID u))"
    using SendText_exact [OF bridge_ok_peers [OF ok] x] by blast
  show ?thesis
  proof (cases "target_peer (he_telegram env) i (sv_br s)")
    case (Inl e)
    with rs out chk blank show ?thesis by (auto simp: text_outcome_def r)
  next
    case (Inr q)
    have "resp = send_response (tele_Text (he_telegram env) (bg_rpcs (sv_br s) @ rs) q t)"
      using out r(1) by (simp add: Inr send_response_def split: sum.splits)
    with rs out chk blank Inr show ?thesis by (auto simp: text_outcome_def r(2) intro!: exI [of _ rs])
  qed
qed

section \<open>The request log\<close>

text \<open>
  The \<open>statusWriter\<close> that \<open>requestLog\<close> passes on: the last status its handler wrote, and the status
  line that was sent, which is the first one written.
\<close>

record statusWriter =
  sw_code :: nat
  sw_sent :: "nat option"

definition new_statusWriter :: statusWriter where
  "new_statusWriter = \<lparr>sw_code = 200, sw_sent = None\<rparr>"

definition WriteHeader :: "nat \<Rightarrow> statusWriter \<Rightarrow> statusWriter" where
  "WriteHeader code w =
     \<lparr>sw_code = code, sw_sent = (case sw_sent w of None \<Rightarrow> Some code | Some c \<Rightarrow> Some c)\<rparr>"

record log_line =
  ll_method :: string
  ll_path :: string
  ll_status :: nat
  ll_dur_ms :: int

text \<open>
  \<open>requestLog\<close>: the handler runs on the wrapped writer, and one line is logged when it has returned;
  a panic passes through it, so that nothing is logged. Every response writes its status once.
\<close>

definition requestLog :: "int \<Rightarrow> http_env \<Rightarrow> request \<Rightarrow> Server \<Rightarrow> log_line list \<times> statusWriter \<times> response \<times> Server" where
  "requestLog end_time env r s =
     (case serve env r s of
        (resp, s') \<Rightarrow>
          (if rs_Reply resp = ReplyPanic then ([], new_statusWriter, resp, s')
           else (let sw = WriteHeader (rs_Code resp) new_statusWriter in
             ([\<lparr>ll_method = rq_Method r, ll_path = concat (map (Cons (CHR ''/'')) (rq_Path r)), ll_status = sw_code sw,
                ll_dur_ms = (end_time - he_now env) div 1000000\<rparr>], sw, resp, s'))))"

lemma requestLog_line:
  assumes "bridge_ok (sv_br s)" and "requestLog t env r s = (ls, sw, resp, s')"
  shows "serve env r s = (resp, s')" "sw_sent sw = Some (rs_Code resp)"
    "\<exists>l. ls = [l] \<and> ll_status l = rs_Code resp \<and> ll_method l = rq_Method r"
proof -
  obtain resp1 s1 where h: "serve env r s = (resp1, s1)" by (cases "serve env r s")
  have "rs_Reply resp1 \<noteq> ReplyPanic" by (rule serve_step(3) [OF assms(1) h])
  with assms(2) h show "serve env r s = (resp, s')" "sw_sent sw = Some (rs_Code resp)"
    "\<exists>l. ls = [l] \<and> ll_status l = rs_Code resp \<and> ll_method l = rq_Method r"
    by (auto simp: requestLog_def Let_def WriteHeader_def new_statusWriter_def)
qed

text \<open>The line does not show where the request came from.\<close>

lemma requestLog_no_source:
  assumes "requestLog t env r s = (ls, sw, resp, s')" and "requestLog t env (r\<lparr>rq_RemoteAddr := a\<rparr>) s1 = (ls1, sw1, resp1, s2)"
    and "rs_Code resp1 = rs_Code resp" and "rs_Reply resp1 = ReplyPanic \<longleftrightarrow> rs_Reply resp = ReplyPanic"
  shows "ls1 = ls"
  using assms by (auto simp: requestLog_def Let_def WriteHeader_def split: prod.splits if_splits)

section \<open>Properties\<close>

text \<open>
  C16: Every answer of a route has the type its status announces: apart from files and upgrades it is
  JSON that a reader accepts (as the handler writes it; the answer to HEAD leaves it out), an object with the text of the error for exactly the statuses the
  endpoint answers errors with, and a value of the endpoint's result type with status 200; and
  \<open>Retry-After\<close> comes with status 429 only.
\<close>

theorem http_response_typed:
  assumes "bridge_ok (sv_br s)" and "find_route r = Some ep" and "serve env r s = (resp, s')"
  shows "rs_RetryAfter resp = (if rs_Code resp = 429 then ''60'' else '''')
    \<and> (raw_response ep resp
       \<or> (\<exists>T j. response_type ep (rs_Code resp) = Some T \<and> content_type resp = ''application/json''
            \<and> json_decode (response_body resp) = Some j \<and> has_type T j))"
proof (cases "raw_response ep resp")
  case True
  with serve_typed [OF assms] show ?thesis by (simp add: typed_reply_def)
next
  case False
  with serve_typed [OF assms] obtain j T where j: "reply_json (rs_Reply resp) = Some j" "json_ok 10000 j"
    "response_type ep (rs_Code resp) = Some T" "has_type T (json_clean j)"
    and ra: "rs_RetryAfter resp = (if rs_Code resp = 429 then ''60'' else '''')"
    by (auto simp: typed_reply_def)
  have "json_decode (response_body resp) = Some (json_clean j)"
    using json_decode_encode [OF j(2), of "[newline]"] json_body(1) [OF j(1)] by simp
  with j(3,4) ra json_body(2) [OF j(1)] show ?thesis by blast
qed

theorem http_response_typed_witness:
  "\<exists>resp s' j. serve sample_env (sample_request [''chats''] ''ta'') sample_server = (resp, s') \<and> rs_Code resp = 200
     \<and> json_decode (response_body resp) = Some j \<and> has_type (TArr chat_T) j"
proof -
  obtain cs s' where h: "serve sample_env (sample_request [''chats''] ''ta'') sample_server = (writeJSON 200 (ReplyChats cs), s')"
    using sample_listing by (elim exE conjE)
  have ep: "find_route (sample_request [''chats''] ''ta'') = Some ListChatsRoute"
    by (simp add: find_route_def get_route_def sample_request_def)
  have "bridge_ok (sv_br sample_server)" by (simp add: sample_server_fields sample_bridge_good)
  from http_response_typed [OF this ep h] obtain j where
    "json_decode (response_body (writeJSON 200 (ReplyChats cs))) = Some j \<and> has_type (TArr chat_T) j"
    by (auto simp: response_type_def)
  with h show ?thesis
    by (intro exI [of _ "writeJSON 200 (ReplyChats cs)"] exI [of _ s'] exI [of _ j]) simp
qed

text \<open>
  C20: What comes of a posted text: for a body \<open>{"text": ...}\<close> written by an encoder, with anything
  after it, the handler without a client of this token answers 401; before the login, for a path that
  is no chat ID, for a chat the client may not access and for a text that is only space it answers 503,
  400, 403 and 400 and does nothing; otherwise it answers 502 and sends no text if the bridge is not
  ready in time or the chat is not found, and else sends exactly one text, the posted one, to the peer
  of this chat, and answers with status 200 and the new message's ID or 502 and Telegram's error.
  The posted text is \<open>t\<close> itself if this is valid UTF-8; in another the encoder has replaced the invalid
  bytes by U+FFFD (\<open>to_valid\<close>).
\<close>

theorem http_send_text:
  assumes "bridge_ok (sv_br s)" and "find_route r = Some (SendMessageRoute p)" and "serve env r s = (resp, s')"
    and "rq_Body r = json_encode (JObj [(''text'', JStr t)]) @ rest" and "stops rest"
  shows "(case client_of (sv_cfg s) r of
      None \<Rightarrow> rs_Code resp = 401 \<and> s' = s
    | Some cl \<Rightarrow>
        if Self (sv_br s) = None then resp = writeError 503 ''not authorized yet'' \<and> s' = s
        else case pathChatID p of
          Inl e \<Rightarrow> resp = writeError 400 (error_text e) \<and> s' = s
        | Inr chatID \<Rightarrow>
            if \<not> clientCanAccess (Some cl) chatID then resp = writeError 403 ''chat not allowed'' \<and> s' = s
            else if strings_TrimSpace (to_valid t) = '''' then resp = writeError 400 ''text required'' \<and> s' = s
            else case target_peer (he_telegram env) chatID (sv_br s) of
              Inl e \<Rightarrow> resp = writeError 502 (error_text e)
                \<and> (\<exists>rs. texts rs = [] \<and> bg_rpcs (sv_br s') = bg_rpcs (sv_br s) @ rs)
            | Inr q \<Rightarrow> input_chat_id q = chatID \<and>
                (\<exists>rs. texts rs = [] \<and> bg_rpcs (sv_br s') = bg_rpcs (sv_br s) @ rs @ [RpcText q (to_valid t)]
                   \<and> resp = send_response (tele_Text (he_telegram env) (bg_rpcs (sv_br s) @ rs) q (to_valid t))))
    \<and> (valid_utf8 t \<longrightarrow> to_valid t = t)"
proof (cases "client_of (sv_cfg s) r")
  case None
  with serve_refused [of r s env] assms(2,3) show ?thesis by (auto simp: to_valid_id)
next
  case (Some cl)
  have h: "handleSendMessage p env r (Some cl) s = (resp, s')"
    using serve_routed [OF assms(2) Some] assms(3) by (simp add: route_handler_def)
  have "valid_utf8 ''text''" by (rule valid_utf8_ascii) (simp add: between_def)
  then have "decode_string ''text'' (rq_Body r) = Inr (to_valid t)"
    using decode_string_encoded [OF _ assms(5), of "''text''" t] assms(4) by simp
  from handleSendMessage_outcome [OF assms(1) h this] show ?thesis
    unfolding text_outcome_def Some option.case by (rule conjI) (simp add: to_valid_id)
qed

definition sample_post :: request where
  "sample_post = (sample_request [''chats'', print_i64 7, ''messages''] ''ta'')\<lparr>rq_Method := ''POST'',
     rq_Body := json_encode (JObj [(''text'', JStr ''hi'')]) @ [newline]\<rparr>"

theorem http_send_text_witness:
  "\<exists>resp s' q. serve sample_env sample_post sample_server = (resp, s') \<and> rs_Reply resp = ReplyMsgID 14
     \<and> texts (bg_rpcs (sv_br s')) = [(q, ''hi'')] \<and> input_chat_id q = 7"
proof -
  let ?p = "print_i64 7" and ?s = sample_server
  have route: "find_route sample_post = Some (SendMessageRoute ?p)"
    by (simp add: find_route_def post_route_def sample_post_def sample_request_def)
  have cl: "client_of (sv_cfg ?s) sample_post = Some \<lparr>cl_Name = ''a'', cl_Token = ''ta'', cl_AllowedChats = [7]\<rparr>"
    by (simp add: client_of_def sample_post_def bearerToken_def sample_request_def strings_HasPrefix_def
        sample_server_fields TokenToClient_def sample_cfg_def Let_def)
  obtain b where b: "SendText sample_telegram 7 ''hi'' sample_bridge = (Inr 14, b)" using sample_send by blast
  have body: "rq_Body sample_post = json_encode (JObj [(''text'', JStr ''hi'')]) @ [newline]" by (simp add: sample_post_def)
  have valid: "valid_utf8 ''hi''" "valid_utf8 ''text''" by (rule valid_utf8_ascii, simp add: between_def)+
  have i: "pathChatID ?p = Inr 7" by (simp add: pathChatID_def parse_int_print_i64)
  have self: "Self sample_bridge = Some sample_user" by (simp add: Self_def sample_bridge_def)
  have allowed: "clientCanAccess (Some \<lparr>cl_Name = ''a'', cl_Token = ''ta'', cl_AllowedChats = [7]\<rparr>) 7"
    by (simp add: clientCanAccess_def)
  have trim: "strings_TrimSpace ''hi'' = ''hi''" by code_simp
  have "chat_checks ?p (Some \<lparr>cl_Name = ''a'', cl_Token = ''ta'', cl_AllowedChats = [7]\<rparr>) ?s = Inr 7"
    by (simp add: chat_checks_def sample_server_fields i self allowed)
  moreover have "decode_string ''text'' (rq_Body sample_post) = Inr ''hi''"
    unfolding body using decode_string_encoded [OF valid(2), of "[newline]" "''hi''"] by (simp add: to_valid_id valid(1))
  moreover note trim
  ultimately have "handleSendMessage ?p sample_env sample_post (Some \<lparr>cl_Name = ''a'', cl_Token = ''ta'', cl_AllowedChats = [7]\<rparr>) ?s
      = (writeJSON 200 (ReplyMsgID 14), ?s\<lparr>sv_br := b\<rparr>)"
    using b by (simp add: handleSendMessage_def sample_env_def sample_server_fields)
  then have h: "serve sample_env sample_post ?s = (writeJSON 200 (ReplyMsgID 14), ?s\<lparr>sv_br := b\<rparr>)"
    using serve_routed [OF route cl] by (simp add: route_handler_def)
  have ok: "bridge_ok (sv_br ?s)" by (simp add: sample_server_fields sample_bridge_good)
  have "bg_rpcs (sv_br ?s) = []" by (simp add: sample_server_fields sample_bridge_def)
  have "stops [newline]" by simp
  note out = http_send_text [OF ok route h body this, THEN conjunct1]
  have "\<exists>q rs. input_chat_id q = 7 \<and> texts rs = [] \<and> bg_rpcs b = rs @ [RpcText q ''hi'']"
  proof (cases "target_peer sample_telegram 7 sample_bridge")
    case (Inl e)
    with out show ?thesis
      by (simp add: cl [unfolded sample_server_fields] to_valid_id valid(1) sample_server_fields sample_env_def i self allowed trim)
        (simp add: writeJSON_def writeError_def)
  next
    case (Inr q)
    with out \<open>bg_rpcs (sv_br ?s) = []\<close> show ?thesis
      by (simp add: cl [unfolded sample_server_fields] to_valid_id valid(1) sample_server_fields sample_env_def i self allowed trim) blast
  qed
  then obtain q where "texts (bg_rpcs b) = [(q, ''hi'')]" "input_chat_id q = 7" by (auto simp: texts_def)
  with h show ?thesis
    by (intro exI [of _ "writeJSON 200 (ReplyMsgID 14)"] exI [of _ "?s\<lparr>sv_br := b\<rparr>"] exI [of _ q]) simp
qed

text \<open>
  C24: What a device reads is what the bridge answered: the frame of every event, and the bodies of a
  chat list and of a message list, decode to the same values in the same order, with nothing changed
  but bytes of a text that are not UTF-8, which become U+FFFD.
\<close>

theorem wire_roundtrip:
  shows "Option.bind (json_decode (event_frame e)) read_Event = Some (valid_Event e)
    \<and> (\<exists>js. json_decode (response_body (writeJSON 200 (ReplyChats cs))) = Some (JArr js)
          \<and> map read_Chat js = map (Some \<circ> valid_Chat) cs)
    \<and> (\<exists>js. json_decode (response_body (writeJSON 200 (ReplyMessages ms))) = Some (JArr js)
          \<and> map read_Message js = map (Some \<circ> valid_Message) ms)"
proof -
  have "response_body (writeJSON 200 (ReplyChats cs)) = json_encode (JArr (map json_Chat cs)) @ [newline]"
    "response_body (writeJSON 200 (ReplyMessages ms)) = json_encode (JArr (map json_Message ms)) @ [newline]"
    by (rule json_body(1); simp)+
  then show ?thesis
    using wire_event.text_roundtrip [of "[]" e] wire_chat.list_roundtrip [of "[newline]" cs]
      wire_message.list_roundtrip [of "[newline]" ms]
    by (simp add: event_frame_def del: json_encode.simps)
qed

text \<open>Valid text is left as it is.\<close>

lemma valid_Event_id:
  assumes "valid_utf8 (ev_Type e)" and "valid_utf8 (ev_From e)" and "valid_utf8 (ev_Text e)" and "ev_Media e = None"
  shows "valid_Event e = e"
  using assms by (simp add: valid_Event_def to_valid_id)
end
