(* ===== verification/Daemon_Login.thy ===== *)
theory Daemon_Login
  imports Daemon Wire
begin

text \<open>
  The login of the running daemon can be finished over HTTP: from any state in which it has not
  failed there are requests to the auth routes, by a device with a configured token, and answers of
  Telegram that end in an authorized bridge that knows its own user.
\<close>

section \<open>The limiter admits a new address\<close>

lemma allow_fresh:
  assumes "map_of (rl_buckets r) ip = None" and "rl_burst r = 5"
  shows "fst (allow c now ip r)"
proof -
  obtain b r1 where f: "find_bucket (fst c) now ip r = (b, r1)" by (cases "find_bucket (fst c) now ip r")
  with assms have "bk_tokens b = 5" "bk_last b = now" "rl_burst r1 = 5" by (auto simp: find_bucket_def Let_def)
  then have "refill (snd c) r1 now b = 5" by (simp add: refill_def Let_def six_seconds f64_5 ieee.rnd_zero)
  with f show ?thesis by (simp add: allow_def Let_def)
qed

lemma allow_burst: "allow c now ip r = (b, r') \<Longrightarrow> rl_burst r' = rl_burst r"
  by (auto simp: allow_def find_bucket_def Let_def split: prod.splits option.splits if_splits)

lemma fresh_address: "\<exists>ip. CHR '':'' \<notin> set ip \<and> map_of bs ip = None"
proof -
  let ?n = "Suc (sum_list (map (length \<circ> fst) bs))"
  let ?ip = "replicate ?n (CHR ''x'')"
  have "length k < ?n" if "k \<in> fst ` set bs" for k
  proof -
    from that have "length k \<in> set (map (length \<circ> fst) bs)" by force
    then have "length k \<le> sum_list (map (length \<circ> fst) bs)" by (rule member_le_sum_list) simp
    then show ?thesis by simp
  qed
  then have "?ip \<notin> fst ` set bs" by (metis length_replicate less_irrefl)
  then have "map_of bs ?ip = None" by (simp add: map_of_eq_None_iff del: replicate_Suc)
  moreover have "CHR '':'' \<notin> set ?ip" by simp
  ultimately show ?thesis by blast
qed

section \<open>What stays of the server\<close>

lemma inner_limiter: "bridge_ok (sv_br s) \<Longrightarrow> inner_handler ep env r (Some cl) s = (resp, s') \<Longrightarrow> sv_authRL s' = sv_authRL s"
  using inner_handler_ok [of s ep env r cl resp s'] by (simp add: handler_ok_def)

lemma serve_burst:
  assumes ok: "bridge_ok (sv_br s)" and h: "serve env r s = (resp, s')"
  shows "rl_burst (sv_authRL s') = rl_burst (sv_authRL s)"
proof (cases "find_route r = None \<or> client_of (sv_cfg s) r = None")
  case True
  from serve_refused [OF this, of env] h show ?thesis by auto
next
  case False
  then obtain ep cl where ep: "find_route r = Some ep" and cl: "client_of (sv_cfg s) r = Some cl" by auto
  have "route_handler ep env r (Some cl) s = (resp, s')" using h serve_routed [OF ep cl] by simp
  then show ?thesis
  proof (cases rule: route_handler_cases)
    case free
    with inner_limiter [OF ok free(2)] show ?thesis by simp
  next
    case (limited_out rl)
    with allow_burst [OF limited_out(2)] show ?thesis by simp
  next
    case (admitted rl)
    with inner_limiter [OF _ admitted(3)] ok allow_burst [OF admitted(2)] show ?thesis by simp
  qed
qed

lemma daemon_server_facts:
  "daemon_reach E s \<Longrightarrow> rl_burst (sv_authRL (dm_server s)) = 5 \<and> config_ok (sv_cfg (dm_server s))"
proof (induction rule: daemon_reach.induct)
  case (start io sv fp certs kf)
  from start(1) show ?case
  proof (rule startup_Inr)
    fix cfg cert br
    assume "Load (st_file io) (st_unmarshal io) = Inr cfg" and sv: "sv = New_server cfg br"
    then have "config_ok cfg" by (auto simp: Load_def validate_config_ok split: sum.splits)
    with sv show ?thesis by (simp add: daemon_start_def authRL_fields)
  qed
next
  case (step s t)
  note ok = daemon_invD(1) [OF daemon_reach_inv [OF step(1)]]
  from step(2) show ?case
  proof (cases rule: daemon_step.cases)
    case (request env r resp sv i)
    with step.IH serve_burst [OF ok request(2)] serve_step(2) [OF ok request(2)] show ?thesis by simp
  qed (use step.IH in \<open>simp_all add: with_bridge_def\<close>)
qed

lemma ws_finite: "ws_reach w \<Longrightarrow> finite (dom (wn_conns w))"
proof (induction rule: ws_reach.induct)
  case (step s t)
  have set: "finite (dom (wn_conns (set_conn i c u)))" if "wn_conns u = wn_conns s" for i c u
  proof -
    have "dom (wn_conns (set_conn i c u)) = insert i (dom (wn_conns s))" using that by auto
    with step.IH show ?thesis by simp
  qed
  from step(2) show ?case
  proof cases
    case (publish e b')
    have "dom (\<lambda>i. map_option (note_publish e (bs_broker (wn_bs s))) (wn_conns s i)) = dom (wn_conns s)" by auto
    with publish step.IH show ?thesis by simp
  qed (simp_all only:, (rule set, simp)+)
qed (simp add: ws_start_def)

section \<open>A submission by a request\<close>

definition submit_request :: "string \<Rightarrow> string \<Rightarrow> string \<Rightarrow> string \<Rightarrow> request" where
  "submit_request token ip field v =
     \<lparr>rq_Method = ''POST'', rq_Path = [''v1'', ''auth'', field], rq_Authorization = '''',
      rq_Query = (\<lambda>k. if k = ''token'' then token else ''''), rq_RemoteAddr = ip,
      rq_Body = json_encode (JObj [(field, JStr v)])\<rparr>"

lemma submit_request_client:
  assumes "config_ok cfg"
  shows "\<exists>token cl. \<forall>ip field v. client_of cfg (submit_request token ip field v) = Some cl"
proof -
  obtain c cs where c: "cfg_Clients cfg = c # cs" using assms by (cases "cfg_Clients cfg") (auto simp: config_ok_def)
  then have "cl_Token c \<noteq> ''''" "TokenToClient cfg (cl_Token c) = Some c"
    using assms by (auto simp: config_ok_def TokenToClient_def)
  then show ?thesis
    by (intro exI [of _ "cl_Token c"] exI [of _ c])
      (simp add: client_of_def bearerToken_def submit_request_def strings_HasPrefix_def Let_def)
qed

lemma utf8_fields: "valid_utf8 ''phone''" "valid_utf8 ''code''" "valid_utf8 ''password''"
  by (rule valid_utf8_ascii, simp add: between_def)+

text \<open>An environment in which nothing but the login can happen.\<close>

definition quiet_env :: http_env where
  "quiet_env = sample_env"

lemma quiet_wait: "\<exists>e. tele_wait (he_telegram quiet_env) h = Inl e"
  by (simp add: quiet_env_def sample_env_def sample_telegram_def)

lemma submit_served:
  assumes ok: "bridge_ok (sv_br s)" and burst: "rl_burst (sv_authRL s) = 5" and cfg: "config_ok (sv_cfg s)"
    and ep: "inner_handler ep = auth_submit_handler field submit" "limited ep"
      "\<And>token ip. find_route (submit_request token ip field ''1'') = Some ep"
    and sub: "submit ''1'' (bg_auth (sv_br s)) = Inr (err, a)" and utf8: "valid_utf8 field"
  obtains r resp rl where "serve quiet_env r s = (resp, s\<lparr>sv_authRL := rl, sv_br := (sv_br s)\<lparr>bg_auth := a\<rparr>\<rparr>)"
    "find_route r = Some ep" "decode_string field (rq_Body r) = Inr ''1''"
    "rs_Reply resp = (case err of None \<Rightarrow> ReplyStatus ''accepted'' | Some e \<Rightarrow> ReplyError (error_text e))"
proof -
  obtain token cl where cl: "\<And>ip field v. client_of (sv_cfg s) (submit_request token ip field v) = Some cl"
    using submit_request_client [OF cfg] by blast
  obtain ip where ip: "CHR '':'' \<notin> set ip" "map_of (rl_buckets (sv_authRL s)) ip = None" using fresh_address by blast
  let ?r = "submit_request token ip field ''1''"
  have "clientIP ?r = ip" using ip(1) by (simp add: clientIP_def split_host_def split_last_colon_def submit_request_def)
  with allow_fresh [OF ip(2) burst] obtain rl where
    rl: "allow (he_choice quiet_env) (he_now quiet_env) (clientIP ?r) (sv_authRL s) = (True, rl)"
    by (metis prod.collapse)
  have "valid_utf8 ''1''" by (rule valid_utf8_ascii) (simp add: between_def)
  then have body: "decode_string field (rq_Body ?r) = Inr ''1''"
    using decode_string_encoded [OF utf8, of "[]" "''1''"] by (simp add: submit_request_def to_valid_id)
  let ?resp = "case err of None \<Rightarrow> writeJSON 200 (ReplyStatus ''accepted'') | Some e \<Rightarrow> writeError 409 (error_text e)"
  have "serve quiet_env ?r s = (?resp, s\<lparr>sv_authRL := rl, sv_br := (sv_br s)\<lparr>bg_auth := a\<rparr>\<rparr>)"
    unfolding serve_routed [OF ep(3) cl] using ep(1,2) rl body sub
    by (auto simp: route_handler_def withRateLimit_def auth_submit_handler_def Let_def split: option.split)
  then show ?thesis by (rule that [OF _ ep(3) body]) (simp split: option.split)
qed

lemma free_index: "daemon_reach E s \<Longrightarrow> \<exists>i. wn_conns (dm_streams s) i = None"
proof -
  assume "daemon_reach E s"
  then have "finite (dom (wn_conns (dm_streams s)))" by (intro ws_finite daemon_invD(3) [OF daemon_reach_inv])
  then obtain i where "i \<notin> dom (wn_conns (dm_streams s))" using ex_new_if_finite infinite_UNIV_nat by blast
  then show ?thesis by (auto simp: domIff)
qed

text \<open>The step of the daemon in which a request submits the value.\<close>

lemma request_submits:
  assumes reach: "daemon_reach E s"
    and ep: "inner_handler ep = auth_submit_handler field submit" "limited ep"
      "\<And>token ip. find_route (submit_request token ip field ''1'') = Some ep"
    and sub: "submit ''1'' (bg_auth (dm_br s)) = Inr (err, a)" and utf8: "valid_utf8 field"
  obtains t r resp where "daemon_step E s t" "dm_login t = after_request r resp (dm_server t) (dm_login s)"
    "bg_auth (dm_br t) = a" "bg_clientReady (dm_br t) = bg_clientReady (dm_br s)"
    "find_route r = Some ep" "decode_string field (rq_Body r) = Inr ''1''"
    "rs_Reply resp = (case err of None \<Rightarrow> ReplyStatus ''accepted'' | Some e \<Rightarrow> ReplyError (error_text e))"
proof -
  have ok: "bridge_ok (sv_br (dm_server s))" by (rule daemon_invD(1) [OF daemon_reach_inv [OF reach]])
  note f = daemon_server_facts [OF reach]
  obtain r resp rl where h: "serve quiet_env r (dm_server s)
      = (resp, (dm_server s)\<lparr>sv_authRL := rl, sv_br := (dm_br s)\<lparr>bg_auth := a\<rparr>\<rparr>)" (is "_ = (resp, ?sv)")
    and r: "find_route r = Some ep" "decode_string field (rq_Body r) = Inr ''1''"
      "rs_Reply resp = (case err of None \<Rightarrow> ReplyStatus ''accepted'' | Some e \<Rightarrow> ReplyError (error_text e))"
    by (rule submit_served [OF ok conjunct1 [OF f] conjunct2 [OF f] ep sub utf8])
  obtain i where i: "wn_conns (dm_streams s) i = None" using free_index [OF reach] ..
  have "as_pc (dm_login s) = RunAuthorized \<or> (\<forall>h. \<exists>e. tele_wait (he_telegram quiet_env) h = Inl e)"
    using quiet_wait by blast
  note st = daemon_step.request [where E = E, OF h this i]
  show ?thesis by (rule that [OF st, of r resp]) (simp_all add: r)
qed

lemma http_submit:
  assumes reach: "daemon_reach E s" and step: "auth_step E (dm_login s) ev = Some l" and ev: "from_handler ev" "plain_ev ev"
  shows "\<exists>t. daemon_step E s t \<and> dm_login t = l \<and> bg_clientReady (dm_br t) = bg_clientReady (dm_br s)"
proof -
  have auth: "as_auth (dm_login s) = bg_auth (dm_br s)" by (rule daemon_invD(4) [OF daemon_reach_inv [OF reach]])
  from ev consider "ev = EvSubmitPhone ''1''" | "ev = EvSubmitCode ''1''" | "ev = EvSubmitPassword ''1''" by (cases ev) auto
  then show ?thesis
  proof cases
    case 1
    with step obtain ok a where sub: "SubmitPhone ''1'' (bg_auth (dm_br s)) = Inr (ok, a)"
      and l: "l = (dm_login s)\<lparr>as_auth := a, as_phones := as_phones (dm_login s) @ (if ok then [''1''] else [])\<rparr>"
      by (auto simp: auth split: sum.splits)
    let ?err = "if ok then None else Some (ErrNew ''no phone prompt pending'')"
    have b: "Bridge_SubmitPhone ''1'' (bg_auth (dm_br s)) = Inr (?err, a)"
      by (simp add: Bridge_SubmitPhone_def submit_result_def sub)
    obtain t r resp where t: "daemon_step E s t" "dm_login t = after_request r resp (dm_server t) (dm_login s)"
      "bg_auth (dm_br t) = a" "bg_clientReady (dm_br t) = bg_clientReady (dm_br s)"
      "find_route r = Some AuthPhoneRoute" "decode_string ''phone'' (rq_Body r) = Inr ''1''"
      "rs_Reply resp = (case ?err of None \<Rightarrow> ReplyStatus ''accepted'' | Some e \<Rightarrow> ReplyError (error_text e))"
      by (rule request_submits [where ep = AuthPhoneRoute and field = "''phone''" and submit = Bridge_SubmitPhone, OF reach _ _ _ b])
        (simp_all add: handleAuthPhone_def find_route_def post_route_def submit_request_def utf8_fields)
    then have "dm_login t = l" by (simp add: l after_request_def accepted_def)
    with t(1,4) show ?thesis by blast
  next
    case 2
    with step obtain ok a where sub: "SubmitCode ''1'' (bg_auth (dm_br s)) = Inr (ok, a)"
      and l: "l = (dm_login s)\<lparr>as_auth := a, as_codes := as_codes (dm_login s) @ (if ok then [''1''] else [])\<rparr>"
      by (auto simp: auth split: sum.splits)
    let ?err = "if ok then None else Some (ErrNew ''no code prompt pending'')"
    have b: "Bridge_SubmitCode ''1'' (bg_auth (dm_br s)) = Inr (?err, a)"
      by (simp add: Bridge_SubmitCode_def submit_result_def sub)
    obtain t r resp where t: "daemon_step E s t" "dm_login t = after_request r resp (dm_server t) (dm_login s)"
      "bg_auth (dm_br t) = a" "bg_clientReady (dm_br t) = bg_clientReady (dm_br s)"
      "find_route r = Some AuthCodeRoute" "decode_string ''code'' (rq_Body r) = Inr ''1''"
      "rs_Reply resp = (case ?err of None \<Rightarrow> ReplyStatus ''accepted'' | Some e \<Rightarrow> ReplyError (error_text e))"
      by (rule request_submits [where ep = AuthCodeRoute and field = "''code''" and submit = Bridge_SubmitCode, OF reach _ _ _ b])
        (simp_all add: handleAuthCode_def find_route_def post_route_def submit_request_def utf8_fields)
    then have "dm_login t = l" by (simp add: l after_request_def accepted_def)
    with t(1,4) show ?thesis by blast
  next
    case 3
    with step obtain ok a where sub: "SubmitPassword ''1'' (bg_auth (dm_br s)) = Inr (ok, a)"
      and l: "l = (dm_login s)\<lparr>as_auth := a, as_passwds := as_passwds (dm_login s) @ (if ok then [''1''] else [])\<rparr>"
      by (auto simp: auth split: sum.splits)
    let ?err = "if ok then None else Some (ErrNew ''no password prompt pending'')"
    have b: "Bridge_SubmitPassword ''1'' (bg_auth (dm_br s)) = Inr (?err, a)"
      by (simp add: Bridge_SubmitPassword_def submit_result_def sub)
    obtain t r resp where t: "daemon_step E s t" "dm_login t = after_request r resp (dm_server t) (dm_login s)"
      "bg_auth (dm_br t) = a" "bg_clientReady (dm_br t) = bg_clientReady (dm_br s)"
      "find_route r = Some AuthPasswordRoute" "decode_string ''password'' (rq_Body r) = Inr ''1''"
      "rs_Reply resp = (case ?err of None \<Rightarrow> ReplyStatus ''accepted'' | Some e \<Rightarrow> ReplyError (error_text e))"
      by (rule request_submits [where ep = AuthPasswordRoute and field = "''password''" and submit = Bridge_SubmitPassword, OF reach _ _ _ b])
        (simp_all add: handleAuthPassword_def find_route_def post_route_def submit_request_def utf8_fields)
    then have "dm_login t = l" by (simp add: l after_request_def accepted_def)
    with t(1,4) show ?thesis by blast
  qed
qed

section \<open>Runs of the login in the daemon\<close>

lemma daemon_follows:
  "auth_run E (dm_login s) evs = Some l \<Longrightarrow> list_all plain_ev evs \<Longrightarrow> daemon_reach E s \<Longrightarrow> bg_clientReady (dm_br s) \<Longrightarrow>
     \<exists>t. (daemon_step E)\<^sup>*\<^sup>* s t \<and> daemon_reach E t \<and> dm_login t = l"
proof (induction evs arbitrary: s)
  case Nil
  then show ?case by auto
next
  case (Cons ev evs)
  from Cons.prems(1) obtain l1 where l1: "auth_step E (dm_login s) ev = Some l1" "auth_run E l1 evs = Some l"
    by (auto split: option.splits)
  have "\<exists>t. daemon_step E s t \<and> dm_login t = l1 \<and> bg_clientReady (dm_br t)"
  proof (cases "from_handler ev")
    case True
    with http_submit [OF Cons.prems(3) l1(1)] Cons.prems(2,4) show ?thesis by auto
  next
    case False
    have "daemon_step E s ((with_bridge ((dm_br s)\<lparr>bg_auth := as_auth l1\<rparr>) s)\<lparr>dm_login := l1\<rparr>)"
      by (rule daemon_step.login [OF Cons.prems(4) l1(1) False])
    moreover have "bg_clientReady (dm_br ((with_bridge ((dm_br s)\<lparr>bg_auth := as_auth l1\<rparr>) s)\<lparr>dm_login := l1\<rparr>))"
      using Cons.prems(4) by (simp add: with_bridge_def)
    ultimately show ?thesis
      by (intro exI [of _ "(with_bridge ((dm_br s)\<lparr>bg_auth := as_auth l1\<rparr>) s)\<lparr>dm_login := l1\<rparr>"]) simp
  qed
  then obtain s1 where s1: "daemon_step E s s1" "dm_login s1 = l1" "bg_clientReady (dm_br s1)" by blast
  from daemon_reach.step [OF Cons.prems(3) s1(1)] Cons.IH [of s1] l1(2) s1(2,3) Cons.prems(2)
  obtain t where "(daemon_step E)\<^sup>*\<^sup>* s1 t" "daemon_reach E t" "dm_login t = l" by auto
  with converse_rtranclp_into_rtranclp [of "daemon_step E", OF s1(1) this(1)] show ?case by blast
qed

section \<open>Properties\<close>

text \<open>
  C18: The login of a daemon started on a cache directory in order can always be finished over HTTP: as long as it has not
  failed, whatever requests, updates and streams did before, some continuation, in which values are
  submitted by requests alone, ends in a daemon that shows \<open>authorized\<close> and knows its own user.
\<close>

theorem daemon_login_can_finish:
  assumes "daemon_reach E s" and "\<And>e. as_pc (dm_login s) \<noteq> Returned (Some e)" and "\<And>e. as_pc (dm_login s) \<noteq> RunFailed e"
  shows "\<exists>t. (daemon_step E)\<^sup>*\<^sup>* s t \<and> Self (dm_br t) \<noteq> None \<and> Status (bg_auth (dm_br t)) = (AuthAuthorized, None)"
proof -
  let ?s1 = "with_bridge ((dm_br s)\<lparr>bg_clientReady := True\<rparr>) s"
  have st1: "daemon_step E s ?s1" by (rule daemon_step.connect)
  have reach: "daemon_reach E ?s1" by (rule daemon_reach.step [OF assms(1) st1])
  from auth_can_finish [OF daemon_invD(2) [OF daemon_reach_inv [OF assms(1)]] assms(2,3)]
  obtain evs l where l: "auth_run E (dm_login ?s1) evs = Some l" "list_all plain_ev evs" "as_pc l = RunAuthorized" by auto
  from daemon_follows [OF l(1,2) reach] obtain t where
    t: "(daemon_step E)\<^sup>*\<^sup>* ?s1 t" "daemon_reach E t" "dm_login t = l" by auto
  let ?u = "with_bridge ((dm_br t)\<lparr>bg_self := Some sample_user\<rparr>) t"
  have st2: "daemon_step E t ?u" by (rule daemon_step.own_user) (simp add: t(3) l(3))
  note D = daemon_invD [OF daemon_reach_inv [OF t(2)]]
  have "shown_ok (as_pc l) (Status (as_auth l))" using auth_reach_inv [OF D(2)] by (simp add: shown_inv_def t(3))
  then have "Status (bg_auth (dm_br t)) = (AuthAuthorized, None)" using l(3) D(4) by (simp add: t(3))
  then have "Self (dm_br ?u) \<noteq> None \<and> Status (bg_auth (dm_br ?u)) = (AuthAuthorized, None)" by (simp add: Self_def)
  moreover have "(daemon_step E)\<^sup>*\<^sup>* s ?u"
    using t(1) st1 st2 by (meson converse_rtranclp_into_rtranclp rtranclp.rtrancl_into_rtrancl)
  ultimately show ?thesis by blast
qed

theorem daemon_login_can_finish_witness:
  "\<exists>s t. daemon_reach text_env s \<and> Self (dm_br s) = None \<and> (daemon_step text_env)\<^sup>*\<^sup>* s t \<and> Self (dm_br t) \<noteq> None"
proof -
  obtain b where b: "daemon_reach text_env (sample_daemon [] b auth_start ws_start)" "bg_auth b = newHTTPAuthenticator"
    using sample_reach by blast
  have login: "dm_login (sample_daemon [] b auth_start ws_start) = auth_start" by (simp add: sample_daemon_def)
  have "as_pc auth_start = RpcStatus" by (simp add: auth_start_def)
  with daemon_login_can_finish [OF b(1)] login obtain t where
    t: "(daemon_step text_env)\<^sup>*\<^sup>* (sample_daemon [] b auth_start ws_start) t" "Self (dm_br t) \<noteq> None" by auto
  have "Self (dm_br (sample_daemon [] b auth_start ws_start)) = None"
    using daemon_invD(7) [OF daemon_reach_inv [OF b(1)]] unfolding login \<open>as_pc auth_start = RpcStatus\<close> Self_def by blast
  with b(1) t show ?thesis by blast
qed

end
