(* ===== verification/Process.thy ===== *)
theory Process
  imports Startup "HOL-Library.Multiset"
begin

text \<open>
  The process after the start-up, the rest of \<open>main\<close> in \<open>cmd/tg-bridge/main.go\<close>: the goroutine that
  runs the bridge, the one that runs the listener, the signal, the \<open>select\<close> of the main goroutine,
  the shut-down of the server and the deferred calls, as steps in any order. What the bridge and the
  listener do while they run is in \<open>Daemon\<close>; here they run until they return.
\<close>

section \<open>The log level\<close>

text \<open>\<open>strings.ToUpper\<close> as far as a name of ASCII letters can come out of it: U+0131 gives I.\<close>

fun upper_name :: "string \<Rightarrow> string" where
  "upper_name [] = []"
| "upper_name (c # cs) =
     (if c = CHR 0xC4 \<and> take 1 cs = [CHR 0xB1] then CHR ''I'' # upper_name (drop 1 cs)
      else upper_char c # upper_name cs)"

text \<open>\<open>logLevel.UnmarshalText\<close>, whose error \<open>main\<close> drops: the level stays \<open>LevelInfo\<close>, which is 0.\<close>

definition level_of_name :: "string \<Rightarrow> goint option" where
  "level_of_name name =
     (let n = upper_name name in
      if n = ''DEBUG'' then Some (- 4)
      else if n = ''INFO'' then Some 0
      else if n = ''WARN'' then Some 4
      else if n = ''ERROR'' then Some 8 else None)"

definition logLevel :: "string \<Rightarrow> goint" where
  "logLevel s =
     (let name = takeWhile (\<lambda>c. c \<noteq> CHR ''+'' \<and> c \<noteq> CHR ''-'') s; sign = drop (length name) s in
      case parse_int sign of
        (offset, err) \<Rightarrow>
          (if sign \<noteq> [] \<and> err \<noteq> None then 0
           else case level_of_name name of
             None \<Rightarrow> 0
           | Some l \<Rightarrow> if sign = [] then l else l + offset))"

lemma logLevel_plain:
  "CHR ''+'' \<notin> set s \<Longrightarrow> CHR ''-'' \<notin> set s \<Longrightarrow> logLevel s = (case level_of_name s of None \<Rightarrow> 0 | Some l \<Rightarrow> l)"
proof -
  assume "CHR ''+'' \<notin> set s" and "CHR ''-'' \<notin> set s"
  then have s: "takeWhile (\<lambda>c. c \<noteq> CHR ''+'' \<and> c \<noteq> CHR ''-'') s = s" by (auto simp: takeWhile_eq_all_conv)
  show ?thesis unfolding logLevel_def s by (simp add: Let_def cong: if_cong option.case_cong split: prod.split)
qed

section \<open>Goroutines\<close>

text \<open>
  A goroutine that runs the bridge or the listener: running, at its send to \<open>errCh\<close>, or over, with
  what the call returned.
\<close>

datatype worker = Running | Sending goerr | Finished "goerr option"

text \<open>The main goroutine; the number is the exit status.\<close>

datatype main_pc = MainSelect | MainShutdown | MainWait | MainCancel | MainClose | MainReturn | MainExited nat

datatype stop_reason = OnSignal | OnFatal goerr

text \<open>
  The context of \<open>signal.NotifyContext\<close> is over after a signal or the deferred \<open>cancel\<close>. The signal,
  the closing of the listener and the log lines after the start-up are ghost fields.
\<close>

record proc =
  pr_ctxDone :: bool
  pr_errCh :: "goerr chan"
  pr_bridge :: worker
  pr_server :: worker
  pr_main :: main_pc
  pr_dbOpen :: bool
  pr_signalled :: bool
  pr_closing :: bool
  pr_log :: "stop_reason list"

definition ErrServerClosed :: goerr where
  "ErrServerClosed = ErrExt ''http: Server closed''"

text \<open>What the two goroutines do with the result of \<open>br.Run\<close> and of \<open>srv.ListenAndServe\<close>.\<close>

definition bridge_returned :: "goerr option \<Rightarrow> worker" where
  "bridge_returned r =
     (case r of
        None \<Rightarrow> Finished r
      | Some e \<Rightarrow> if \<not> errors_Is e ErrCanceled then Sending e else Finished r)"

definition server_returned :: "goerr option \<Rightarrow> worker" where
  "server_returned r =
     (case r of
        None \<Rightarrow> Finished r
      | Some e \<Rightarrow> if \<not> errors_Is e ErrServerClosed then Sending e else Finished r)"

text \<open>\<open>Bridge.Close\<close>: the database is always there after \<open>New\<close>.\<close>

definition Bridge_Close :: "proc \<Rightarrow> proc" where
  "Bridge_Close s = (if pr_dbOpen s then s\<lparr>pr_dbOpen := False\<rparr> else s)"

definition proc_start :: proc where
  "proc_start = \<lparr>pr_ctxDone = False, pr_errCh = make_chan 2, pr_bridge = Running, pr_server = Running,
     pr_main = MainSelect, pr_dbOpen = True, pr_signalled = False, pr_closing = False, pr_log = []\<rparr>"

text \<open>
  The steps of the process itself. A send blocks while the channel is full; \<open>select\<close> takes any case
  that is ready. \<open>Shutdown\<close> closes the listener at once and returns when the requests are answered or
  its five seconds are over; its result is dropped. Then the deferred calls run, the last one first:
  \<open>shCancel\<close>, which has no effect here, \<open>cancel\<close> and \<open>br.Close\<close>. When \<open>main\<close> returns the process ends
  with status 0, whatever the goroutines do.
\<close>

inductive own_step :: "proc \<Rightarrow> proc \<Rightarrow> bool" where
  bridge_send:
    "pr_bridge s = Sending e \<Longrightarrow> (\<forall>n. pr_main s \<noteq> MainExited n) \<Longrightarrow> chan_try_send (pr_errCh s) e = Inr (True, c) \<Longrightarrow>
     own_step s (s\<lparr>pr_errCh := c, pr_bridge := Finished (Some e)\<rparr>)"
| server_send:
    "pr_server s = Sending e \<Longrightarrow> (\<forall>n. pr_main s \<noteq> MainExited n) \<Longrightarrow> chan_try_send (pr_errCh s) e = Inr (True, c) \<Longrightarrow>
     own_step s (s\<lparr>pr_errCh := c, pr_server := Finished (Some e)\<rparr>)"
| select_done:
    "pr_main s = MainSelect \<Longrightarrow> pr_ctxDone s \<Longrightarrow>
     own_step s (s\<lparr>pr_main := MainShutdown, pr_log := pr_log s @ [OnSignal]\<rparr>)"
| select_err:
    "pr_main s = MainSelect \<Longrightarrow> chan_recv (pr_errCh s) = Some (Some e, c) \<Longrightarrow>
     own_step s (s\<lparr>pr_main := MainShutdown, pr_errCh := c, pr_log := pr_log s @ [OnFatal e]\<rparr>)"
| shutdown:
    "pr_main s = MainShutdown \<Longrightarrow> own_step s (s\<lparr>pr_main := MainWait, pr_closing := True\<rparr>)"
| shut:
    "pr_main s = MainWait \<Longrightarrow> own_step s (s\<lparr>pr_main := MainCancel\<rparr>)"
| cancel:
    "pr_main s = MainCancel \<Longrightarrow> own_step s (s\<lparr>pr_main := MainClose, pr_ctxDone := True\<rparr>)"
| close:
    "pr_main s = MainClose \<Longrightarrow> own_step s ((Bridge_Close s)\<lparr>pr_main := MainReturn\<rparr>)"
| return:
    "pr_main s = MainReturn \<Longrightarrow> own_step s (s\<lparr>pr_main := MainExited 0\<rparr>)"

text \<open>
  And those it waits for: a signal, and the return of the bridge and of the listener with any result.
\<close>

inductive env_step :: "proc \<Rightarrow> proc \<Rightarrow> bool" where
  signal:
    "\<not> pr_signalled s \<Longrightarrow> (\<forall>n. pr_main s \<noteq> MainExited n) \<Longrightarrow> env_step s (s\<lparr>pr_signalled := True, pr_ctxDone := True\<rparr>)"
| bridge_return:
    "pr_bridge s = Running \<Longrightarrow> (\<forall>n. pr_main s \<noteq> MainExited n) \<Longrightarrow> env_step s (s\<lparr>pr_bridge := bridge_returned r\<rparr>)"
| server_return:
    "pr_server s = Running \<Longrightarrow> (\<forall>n. pr_main s \<noteq> MainExited n) \<Longrightarrow> env_step s (s\<lparr>pr_server := server_returned r\<rparr>)"

definition proc_step :: "proc \<Rightarrow> proc \<Rightarrow> bool" where
  "proc_step s t \<longleftrightarrow> own_step s t \<or> env_step s t"

inductive proc_reach :: "proc \<Rightarrow> bool" where
  start: "proc_reach proc_start"
| step: "proc_reach s \<Longrightarrow> proc_step s t \<Longrightarrow> proc_reach t"

inductive_cases own_stepE: "own_step s t"
inductive_cases env_stepE: "env_step s t"

text \<open>The \<open>http.Server\<close> that \<open>New\<close> builds for \<open>ListenAndServe\<close>; times are in nanoseconds.\<close>

record http_Server =
  hs_Addr :: string
  hs_Certificates :: "tls_cert list"
  hs_MinVersion :: nat
  hs_ReadHeaderTimeout :: int

definition New_http :: "Config \<Rightarrow> tls_cert \<Rightarrow> http_Server" where
  "New_http cfg cert =
     \<lparr>hs_Addr = cfg_Listen cfg, hs_Certificates = [cert], hs_MinVersion = 0x0303, hs_ReadHeaderTimeout = 10 * 1000000000\<rparr>"

text \<open>
  The program as a whole: an error of \<open>Load\<close>, \<open>EnsureSelfSigned\<close> or \<open>New\<close> ends it with status 1 and
  runs no deferred call; else it goes on as \<open>proc_start\<close>, with the level of the log, the server of the
  requests and the one of the listener. The certificate files and the key file are as it leaves them.
\<close>

definition program ::
  "start_io \<Rightarrow> (nat + goint \<times> Server \<times> http_Server \<times> proc) \<times> cert_disk \<times> key_file" where
  "program io =
     (case Load (st_file io) (st_unmarshal io) of
        Inl e \<Rightarrow> (Inl 1, st_certs io, ni_key (st_new io))
      | Inr cfg \<Rightarrow>
          (let lvl = logLevel (cfg_LogLevel cfg) in
           case EnsureSelfSigned (tls_CertPath (cfg_TLS cfg)) (tls_KeyPath (cfg_TLS cfg)) (tls_Hosts (cfg_TLS cfg))
                  (st_tls io) (st_certs io) of
             (Inl e, certs) \<Rightarrow> (Inl 1, certs, ni_key (st_new io))
           | (Inr (cert, fp), certs) \<Rightarrow>
               (case New cfg (st_new io) of
                  (Inl e, kf, db_open) \<Rightarrow> (Inl 1, certs, kf)
                | (Inr br, kf, db_open) \<Rightarrow>
                    (Inr (lvl, New_server cfg br, New_http cfg cert, proc_start), certs, kf))))"

lemma program_cases:
  assumes "program io = (r, certs, kf)"
  obtains (no_config) e where "Load (st_file io) (st_unmarshal io) = Inl e" "r = Inl 1"
      "certs = st_certs io" "kf = ni_key (st_new io)"
  | (no_pair) cfg e where "Load (st_file io) (st_unmarshal io) = Inr cfg" "r = Inl 1"
      "EnsureSelfSigned (tls_CertPath (cfg_TLS cfg)) (tls_KeyPath (cfg_TLS cfg)) (tls_Hosts (cfg_TLS cfg))
         (st_tls io) (st_certs io) = (Inl e, certs)" "kf = ni_key (st_new io)"
  | (no_bridge) cfg cert fp e db_open where "Load (st_file io) (st_unmarshal io) = Inr cfg" "r = Inl 1"
      "EnsureSelfSigned (tls_CertPath (cfg_TLS cfg)) (tls_KeyPath (cfg_TLS cfg)) (tls_Hosts (cfg_TLS cfg))
         (st_tls io) (st_certs io) = (Inr (cert, fp), certs)" "New cfg (st_new io) = (Inl e, kf, db_open)"
  | (running) cfg cert fp br db_open where "Load (st_file io) (st_unmarshal io) = Inr cfg"
      "r = Inr (logLevel (cfg_LogLevel cfg), New_server cfg br, New_http cfg cert, proc_start)"
      "EnsureSelfSigned (tls_CertPath (cfg_TLS cfg)) (tls_KeyPath (cfg_TLS cfg)) (tls_Hosts (cfg_TLS cfg))
         (st_tls io) (st_certs io) = (Inr (cert, fp), certs)" "New cfg (st_new io) = (Inr br, kf, db_open)"
proof (cases "Load (st_file io) (st_unmarshal io)")
  case (Inl e)
  with assms no_config show ?thesis by (simp add: program_def)
next
  case load: (Inr cfg)
  obtain x d where e: "EnsureSelfSigned (tls_CertPath (cfg_TLS cfg)) (tls_KeyPath (cfg_TLS cfg)) (tls_Hosts (cfg_TLS cfg))
         (st_tls io) (st_certs io) = (x, d)" by (metis prod.exhaust)
  show ?thesis
  proof (cases x)
    case (Inl err)
    with assms load e no_pair show ?thesis by (simp add: program_def Let_def)
  next
    case (Inr y)
    obtain cert fp where y: "y = (cert, fp)" by (cases y)
    obtain z k op where n: "New cfg (st_new io) = (z, k, op)" by (metis prod_cases3)
    show ?thesis
    proof (cases z)
      case (Inl a)
      with assms load e Inr y n have "r = Inl 1" "certs = d" "kf = k" by (simp_all add: program_def Let_def)
      with load e Inr y n \<open>z = Inl a\<close> show ?thesis by (intro no_bridge) simp_all
    next
      case z: (Inr br)
      with assms load e Inr y n have "certs = d" "kf = k"
        "r = Inr (logLevel (cfg_LogLevel cfg), New_server cfg br, New_http cfg cert, proc_start)"
        by (simp_all add: program_def Let_def)
      with load e Inr y n z show ?thesis by (intro running) simp_all
    qed
  qed
qed

text \<open>It goes on exactly after a successful \<open>startup\<close>, with the server of this one.\<close>

lemma program_startup:
  assumes "program io = (r, certs, kf)"
  shows "\<exists>r'. startup io = (r', certs, kf) \<and>
     (case r' of Inl e \<Rightarrow> r = Inl 1
      | Inr (sv, fp) \<Rightarrow> \<exists>cert. r = Inr (logLevel (cfg_LogLevel (sv_cfg sv)), sv, New_http (sv_cfg sv) cert, proc_start)
          \<and> fp = hex_encode (sha256 (hd cert)))"
  using assms
proof (cases rule: program_cases)
  case (running cfg cert fp br db_open)
  then have "startup io = (Inr (New_server cfg br, fp), certs, kf)" by (simp add: startup_def)
  moreover have "fp = hex_encode (sha256 (hd cert))" by (rule Ensure_loaded(5) [OF running(3)])
  ultimately show ?thesis using running(2) by auto
qed (simp_all add: startup_def)

text \<open>The key file is written only where there was none, and is then the key of the bridge.\<close>

lemma New_key:
  assumes "New cfg io = (r, kf, db_open)"
  shows "kf \<noteq> ni_key io \<Longrightarrow> ni_key io = KeyAbsent" "r = Inr b \<Longrightarrow> kf = KeyFile (bg_mediaKey b)"
    "r = Inr b \<Longrightarrow> ni_key io = KeyFile k \<Longrightarrow> bg_mediaKey b = k"
proof -
  have keep: "(f' = f \<or> f = KeyAbsent) \<and> (\<forall>k k'. x = Inr k \<longrightarrow> f = KeyFile k' \<longrightarrow> k' = k)"
    if "loadOrCreateMediaKey p rnd w f = (x, f')" for p rnd w f f' x
    using that by (auto simp: loadOrCreateMediaKey_def split: key_file.splits if_splits)
  show "kf \<noteq> ni_key io \<Longrightarrow> ni_key io = KeyAbsent" "r = Inr b \<Longrightarrow> ni_key io = KeyFile k \<Longrightarrow> bg_mediaKey b = k"
    using assms unfolding New_def
    by (auto split: option.splits sum.splits prod.splits dest!: keep)
  show "r = Inr b \<Longrightarrow> kf = KeyFile (bg_mediaKey b)" using New_spec [OF assms] by simp
qed

abbreviation ensured :: "Config \<Rightarrow> start_io \<Rightarrow> (tls_cert \<times> string) result \<times> cert_disk" where
  "ensured cfg io \<equiv> EnsureSelfSigned (tls_CertPath (cfg_TLS cfg)) (tls_KeyPath (cfg_TLS cfg)) (tls_Hosts (cfg_TLS cfg))
     (st_tls io) (st_certs io)"

abbreviation loaded_pair :: "Config \<Rightarrow> start_io \<Rightarrow> cert_disk \<Rightarrow> tls_cert result" where
  "loaded_pair cfg io certs \<equiv> LoadX509KeyPair (st_tls io) (tls_CertPath (cfg_TLS cfg)) (tls_KeyPath (cfg_TLS cfg)) certs"

lemma program_runs_iff:
  assumes "program io = (r, certs, kf)"
  shows "(\<exists>x. r = Inr x) \<longleftrightarrow> (\<exists>cfg c d b k op. Load (st_file io) (st_unmarshal io) = Inr cfg
      \<and> ensured cfg io = (Inr c, d) \<and> New cfg (st_new io) = (Inr b, k, op))"
  by (rule program_cases [OF assms]) auto

lemma program_certs:
  assumes "program io = (r, certs, kf)" and "certs \<noteq> st_certs io"
  shows "\<exists>cfg. Load (st_file io) (st_unmarshal io) = Inr cfg
    \<and> (\<forall>p. p \<noteq> tls_CertPath (cfg_TLS cfg) \<longrightarrow> p \<noteq> tls_KeyPath (cfg_TLS cfg) \<longrightarrow> certs p = st_certs io p)
    \<and> \<not> (stat_ok (st_certs io) (tls_CertPath (cfg_TLS cfg)) \<and> stat_ok (st_certs io) (tls_KeyPath (cfg_TLS cfg)))"
  using assms(1)
proof (cases rule: program_cases)
  case (no_pair cfg e)
  with Ensure_frame [OF no_pair(3)] assms(2) show ?thesis by blast
next
  case (no_bridge cfg cert fp e db_open)
  with Ensure_frame [OF no_bridge(3)] assms(2) show ?thesis by blast
next
  case (running cfg cert fp br db_open)
  with Ensure_frame [OF running(3)] assms(2) show ?thesis by blast
qed (use assms(2) in blast)

lemma program_key:
  assumes "program io = (r, certs, kf)" and "kf \<noteq> ni_key (st_new io)"
  shows "ni_key (st_new io) = KeyAbsent"
    and "\<exists>cfg cert. Load (st_file io) (st_unmarshal io) = Inr cfg \<and> cert \<noteq> [] \<and> loaded_pair cfg io certs = Inr cert"
proof -
  have "ni_key (st_new io) = KeyAbsent \<and> (\<exists>cfg cert. Load (st_file io) (st_unmarshal io) = Inr cfg \<and> cert \<noteq> []
      \<and> loaded_pair cfg io certs = Inr cert)"
    using assms(1)
  proof (cases rule: program_cases)
    case (no_bridge cfg cert fp e db_open)
    with New_key(1) [OF no_bridge(4)] Ensure_loaded(3,4) [OF no_bridge(3)] assms(2) show ?thesis by blast
  next
    case (running cfg cert fp br db_open)
    with New_key(1) [OF running(4)] Ensure_loaded(3,4) [OF running(3)] assms(2) show ?thesis by blast
  qed (use assms(2) in blast)+
  then show "ni_key (st_new io) = KeyAbsent"
    and "\<exists>cfg cert. Load (st_file io) (st_unmarshal io) = Inr cfg \<and> cert \<noteq> [] \<and> loaded_pair cfg io certs = Inr cert"
    by blast+
qed

lemma program_exit: "program io = (r, certs, kf) \<Longrightarrow> r = Inl n \<Longrightarrow> n = 1"
  by (erule program_cases) simp_all

lemma program_running:
  assumes "program io = (r, certs, kf)" and "r = Inr (lvl, sv, hs, p)"
  obtains cfg cert fp br op where "Load (st_file io) (st_unmarshal io) = Inr cfg" "sv = New_server cfg br"
    "hs = New_http cfg cert" "p = proc_start" "loaded_pair cfg io certs = Inr cert" "ensured cfg io = (Inr (cert, fp), certs)"
    "New cfg (st_new io) = (Inr br, kf, op)"
  using assms(1)
proof (cases rule: program_cases)
  case (running cfg cert fp br db_open)
  with Ensure_loaded(3) [OF running(3)] assms(2) show ?thesis by (intro that) simp_all
qed (use assms(2) in simp_all)

lemma program_runs:
  assumes "program io = (r, certs, kf)" and "r = Inr (lvl, sv, hs, p)"
  shows "p = proc_start" "Load (st_file io) (st_unmarshal io) = Inr (sv_cfg sv)" "kf = KeyFile (bg_mediaKey (sv_br sv))"
    "\<exists>cert. hs = New_http (sv_cfg sv) cert \<and> loaded_pair (sv_cfg sv) io certs = Inr cert"
proof -
  obtain cfg cert fp br op where o: "Load (st_file io) (st_unmarshal io) = Inr cfg" "sv = New_server cfg br"
    "hs = New_http cfg cert" "p = proc_start" "loaded_pair cfg io certs = Inr cert" "New cfg (st_new io) = (Inr br, kf, op)"
    using assms by (rule program_running)
  then show "p = proc_start" "Load (st_file io) (st_unmarshal io) = Inr (sv_cfg sv)"
    "\<exists>cert. hs = New_http (sv_cfg sv) cert \<and> loaded_pair (sv_cfg sv) io certs = Inr cert" by simp_all
  show "kf = KeyFile (bg_mediaKey (sv_br sv))" using New_key(2) [OF o(6) refl] o(2) by simp
qed

text \<open>A later start on the files that were left.\<close>

lemma program_again:
  assumes one: "program io = (r, certs, kf)" "r = Inr (lvl, sv, hs, p)"
    and two: "program io' = (Inr (lvl', sv', hs', p'), certs', kf')"
    and left: "st_certs io' = certs" "ni_key (st_new io') = kf"
    and same: "ti_X509KeyPair (st_tls io') = ti_X509KeyPair (st_tls io)"
      "tls_CertPath (cfg_TLS (sv_cfg sv')) = tls_CertPath (cfg_TLS (sv_cfg sv))"
      "tls_KeyPath (cfg_TLS (sv_cfg sv')) = tls_KeyPath (cfg_TLS (sv_cfg sv))"
  shows "hs_Certificates hs' = hs_Certificates hs" "bg_mediaKey (sv_br sv') = bg_mediaKey (sv_br sv)"
    "certs' = certs" "kf' = kf"
proof -
  obtain cfg cert fp br op where o: "sv = New_server cfg br" "hs = New_http cfg cert"
    "loaded_pair cfg io certs = Inr cert" "New cfg (st_new io) = (Inr br, kf, op)" using one by (rule program_running)
  obtain cfg' cert' fp' br' op' where t: "sv' = New_server cfg' br'" "hs' = New_http cfg' cert'"
    "loaded_pair cfg' io' certs' = Inr cert'" "ensured cfg' io' = (Inr (cert', fp'), certs')"
    "New cfg' (st_new io') = (Inr br', kf', op')" using two refl by (rule program_running)
  have paths: "tls_CertPath (cfg_TLS cfg') = tls_CertPath (cfg_TLS cfg)" "tls_KeyPath (cfg_TLS cfg') = tls_KeyPath (cfg_TLS cfg)"
    using same(2,3) o(1) t(1) by simp_all
  show certs: "certs' = certs" using LoadX509KeyPair_Inr [OF o(3)] Ensure_loaded(6) [OF t(4)] by (simp add: left(1) paths)
  have "cert' = cert" using o(3) t(3) same(1) by (simp add: certs LoadX509KeyPair_def paths split: sum.splits)
  then show "hs_Certificates hs' = hs_Certificates hs" by (simp add: o(2) t(2) New_http_def)
  have kf: "kf = KeyFile (bg_mediaKey br)" by (rule New_key(2) [OF o(4) refl])
  with New_key(3) [OF t(5) refl] left(2) have key: "bg_mediaKey br' = bg_mediaKey br" by simp
  then show "bg_mediaKey (sv_br sv') = bg_mediaKey (sv_br sv)" by (simp add: o(1) t(1))
  show "kf' = kf" using New_key(2) [OF t(5) refl] by (simp add: kf key)
qed

section \<open>Every run ends\<close>

text \<open>How many steps are left at most.\<close>

fun worker_budget :: "worker \<Rightarrow> nat" where
  "worker_budget Running = 2"
| "worker_budget (Sending e) = 1"
| "worker_budget (Finished r) = 0"

fun main_budget :: "main_pc \<Rightarrow> nat" where
  "main_budget MainSelect = 6"
| "main_budget MainShutdown = 5"
| "main_budget MainWait = 4"
| "main_budget MainCancel = 3"
| "main_budget MainClose = 2"
| "main_budget MainReturn = 1"
| "main_budget (MainExited n) = 0"

definition budget :: "proc \<Rightarrow> nat" where
  "budget s = worker_budget (pr_bridge s) + worker_budget (pr_server s) + main_budget (pr_main s)
     + (if pr_signalled s then 0 else 1)"

lemma returned_budget [simp]: "worker_budget (bridge_returned r) \<le> 1" "worker_budget (server_returned r) \<le> 1"
  by (simp_all add: bridge_returned_def server_returned_def split: option.split)

lemma Bridge_Close_fields [simp]:
  "pr_dbOpen (Bridge_Close s) = False" "pr_bridge (Bridge_Close s) = pr_bridge s" "pr_server (Bridge_Close s) = pr_server s"
  "pr_main (Bridge_Close s) = pr_main s" "pr_errCh (Bridge_Close s) = pr_errCh s" "pr_ctxDone (Bridge_Close s) = pr_ctxDone s"
  "pr_signalled (Bridge_Close s) = pr_signalled s" "pr_closing (Bridge_Close s) = pr_closing s" "pr_log (Bridge_Close s) = pr_log s"
  by (simp_all add: Bridge_Close_def)

lemma own_step_budget: "own_step s t \<Longrightarrow> budget t < budget s"
  by (erule own_step.cases) (simp_all add: budget_def)

lemma env_step_budget: "env_step s t \<Longrightarrow> budget t < budget s"
  using returned_budget by (elim env_step.cases) (force simp: budget_def less_Suc_eq_le)+

lemma proc_step_budget: "proc_step s t \<Longrightarrow> budget t < budget s"
  by (auto simp: proc_step_def own_step_budget env_step_budget)

lemma proc_steps_budget: "(proc_step ^^ n) s t \<Longrightarrow> n + budget t \<le> budget s"
proof (induction n arbitrary: t)
  case (Suc n)
  then obtain u where "(proc_step ^^ n) s u" "proc_step u t" by auto
  with Suc.IH proc_step_budget show ?case by fastforce
qed simp

section \<open>The invariant\<close>

text \<open>What a finished goroutine put into the channel.\<close>

fun sent_of :: "(goerr \<Rightarrow> bool) \<Rightarrow> worker \<Rightarrow> goerr list" where
  "sent_of quiet (Finished (Some e)) = (if quiet e then [] else [e])"
| "sent_of quiet _ = []"

definition canceled :: "goerr \<Rightarrow> bool" where
  "canceled e \<longleftrightarrow> errors_Is e ErrCanceled"

definition server_closed :: "goerr \<Rightarrow> bool" where
  "server_closed e \<longleftrightarrow> errors_Is e ErrServerClosed"

definition fatal_errors :: "proc \<Rightarrow> goerr list" where
  "fatal_errors s = sent_of canceled (pr_bridge s) @ sent_of server_closed (pr_server s)"

text \<open>The errors the main goroutine took out of the channel.\<close>

definition taken :: "proc \<Rightarrow> goerr list" where
  "taken s = concat (map (\<lambda>x. case x of OnFatal e \<Rightarrow> [e] | OnSignal \<Rightarrow> []) (pr_log s))"

definition proc_inv :: "proc \<Rightarrow> bool" where
  "proc_inv s \<longleftrightarrow>
     ch_cap (pr_errCh s) = 2 \<and> \<not> ch_closed (pr_errCh s)
   \<and> mset (taken s @ ch_buf (pr_errCh s)) = mset (fatal_errors s)
   \<and> (\<forall>e. pr_bridge s = Sending e \<longrightarrow> \<not> canceled e) \<and> (\<forall>e. pr_server s = Sending e \<longrightarrow> \<not> server_closed e)
   \<and> (pr_main s = MainSelect \<longrightarrow> pr_log s = []) \<and> (pr_main s \<noteq> MainSelect \<longrightarrow> length (pr_log s) = 1)
   \<and> (OnSignal \<in> set (pr_log s) \<longrightarrow> pr_signalled s)
   \<and> (pr_closing s \<longleftrightarrow> main_budget (pr_main s) \<le> 4)
   \<and> (pr_ctxDone s \<longleftrightarrow> pr_signalled s \<or> main_budget (pr_main s) \<le> 2)
   \<and> (pr_dbOpen s \<longleftrightarrow> main_budget (pr_main s) > 1)
   \<and> (\<forall>n. pr_main s = MainExited n \<longrightarrow> n = 0)"

lemma proc_start_inv: "proc_inv proc_start"
  by (simp add: proc_inv_def proc_start_def taken_def fatal_errors_def) (simp add: make_chan_def)

lemma send_appends: "chan_try_send c e = Inr (True, c') \<Longrightarrow> c' = c\<lparr>ch_buf := ch_buf c @ [e]\<rparr>"
  by (auto simp: chan_try_send_def split: if_splits)

lemma recv_takes: "chan_recv c = Some (Some e, c') \<Longrightarrow> ch_buf c = e # ch_buf c' \<and> ch_cap c' = ch_cap c \<and> ch_closed c' = ch_closed c"
  by (auto simp: chan_recv_def split: list.splits if_splits)

lemma own_step_inv:
  assumes inv: "proc_inv s" and st: "own_step s t"
  shows "proc_inv t"
  using st
proof cases
  case (bridge_send e c)
  with inv send_appends [OF bridge_send(4)] show ?thesis
    by (auto simp: proc_inv_def taken_def fatal_errors_def)
next
  case (server_send e c)
  with inv send_appends [OF server_send(4)] show ?thesis
    by (auto simp: proc_inv_def taken_def fatal_errors_def)
next
  case select_done
  with inv show ?thesis by (auto simp: proc_inv_def taken_def fatal_errors_def)
next
  case (select_err e c)
  with inv recv_takes [OF select_err(3)] show ?thesis
    by (auto simp: proc_inv_def taken_def fatal_errors_def)
qed (use inv in \<open>auto simp: proc_inv_def taken_def fatal_errors_def\<close>)

lemma env_step_inv:
  assumes inv: "proc_inv s" and st: "env_step s t"
  shows "proc_inv t"
  using st
proof cases
  case signal
  with inv show ?thesis by (auto simp: proc_inv_def taken_def fatal_errors_def)
next
  case (bridge_return r)
  with inv show ?thesis
    by (auto simp: proc_inv_def taken_def fatal_errors_def bridge_returned_def canceled_def split: option.splits)
next
  case (server_return r)
  with inv show ?thesis
    by (auto simp: proc_inv_def taken_def fatal_errors_def server_returned_def server_closed_def split: option.splits)
qed

lemma proc_reach_inv: "proc_reach s \<Longrightarrow> proc_inv s"
proof (induction rule: proc_reach.induct)
  case (step s t)
  then show ?case unfolding proc_step_def using own_step_inv env_step_inv by blast
qed (rule proc_start_inv)

lemma taken_fatal: "proc_inv s \<Longrightarrow> set (taken s) \<subseteq> set (fatal_errors s)"
proof -
  assume "proc_inv s"
  then have "mset (taken s @ ch_buf (pr_errCh s)) = mset (fatal_errors s)" by (simp add: proc_inv_def)
  then have "set (taken s @ ch_buf (pr_errCh s)) = set (fatal_errors s)" by (rule mset_eq_setD)
  then show ?thesis by auto
qed

section \<open>Progress\<close>

fun is_sending :: "worker \<Rightarrow> bool" where
  "is_sending (Sending e) = True"
| "is_sending _ = False"

lemma is_sendingE: "is_sending w \<Longrightarrow> (\<And>e. w = Sending e \<Longrightarrow> P) \<Longrightarrow> P"
  by (cases w) auto

text \<open>What the process stops for: the context is over, or an error is on its way to the main goroutine.\<close>

definition stopping :: "proc \<Rightarrow> bool" where
  "stopping s \<longleftrightarrow> pr_ctxDone s \<or> pr_main s \<noteq> MainSelect \<or> ch_buf (pr_errCh s) \<noteq> []
     \<or> is_sending (pr_bridge s) \<or> is_sending (pr_server s)"

lemma sent_of_length: "length (sent_of quiet w) \<le> 1" "is_sending w \<Longrightarrow> sent_of quiet w = []"
  by (cases "(quiet, w)" rule: sent_of.cases; simp)+

lemma sent_of_cause: "e \<in> set (sent_of quiet w) \<Longrightarrow> w = Finished (Some e) \<and> \<not> quiet e"
  by (cases "(quiet, w)" rule: sent_of.cases) (auto split: if_splits)

text \<open>A channel of two values never blocks the two goroutines.\<close>

lemma errCh_room:
  assumes "proc_inv s" and "is_sending (pr_bridge s) \<or> is_sending (pr_server s)"
  shows "\<exists>c. chan_try_send (pr_errCh s) e = Inr (True, c)"
proof -
  have "mset (taken s @ ch_buf (pr_errCh s)) = mset (fatal_errors s)" using assms(1) by (simp add: proc_inv_def)
  then have "length (taken s @ ch_buf (pr_errCh s)) = length (fatal_errors s)" by (metis size_mset)
  moreover have "length (fatal_errors s) \<le> 1"
    using assms(2) sent_of_length(1) [of canceled "pr_bridge s"] sent_of_length(1) [of server_closed "pr_server s"]
      sent_of_length(2) [of "pr_bridge s" canceled] sent_of_length(2) [of "pr_server s" server_closed]
    by (auto simp: fatal_errors_def)
  ultimately have "length (ch_buf (pr_errCh s)) < ch_cap (pr_errCh s)" using assms(1) by (simp add: proc_inv_def)
  with assms(1) show ?thesis by (simp add: chan_try_send_def proc_inv_def)
qed

lemma own_step_possible:
  assumes inv: "proc_inv s" and stop: "stopping s" and run: "\<forall>n. pr_main s \<noteq> MainExited n"
  shows "\<exists>t. own_step s t"
proof -
  have send: "\<exists>t. own_step s t" if "is_sending (pr_bridge s) \<or> is_sending (pr_server s)"
    using that errCh_room [OF inv that] own_step.bridge_send [OF _ run] own_step.server_send [OF _ run]
    by (metis is_sendingE)
  show ?thesis
  proof (cases "pr_main s")
    case MainSelect
    consider "pr_ctxDone s" | "is_sending (pr_bridge s) \<or> is_sending (pr_server s)" | "ch_buf (pr_errCh s) \<noteq> []"
      using stop MainSelect by (auto simp: stopping_def)
    then show ?thesis
    proof cases
      case 1
      with MainSelect own_step.select_done show ?thesis by blast
    next
      case 2
      then show ?thesis by (rule send)
    next
      case 3
      then obtain e es where "ch_buf (pr_errCh s) = e # es" by (cases "ch_buf (pr_errCh s)") auto
      then have "chan_recv (pr_errCh s) = Some (Some e, (pr_errCh s)\<lparr>ch_buf := es\<rparr>)" by (simp add: chan_recv_def)
      with MainSelect own_step.select_err show ?thesis by blast
    qed
  qed (use run own_step.shutdown own_step.shut own_step.cancel own_step.close own_step.return in blast)+
qed

lemma stopping_step:
  assumes "stopping s" and "proc_step s t"
  shows "stopping t"
proof -
  have "stopping t" if "own_step s t"
    using that assms(1) by cases (auto simp: stopping_def dest: send_appends)
  moreover have "stopping t" if "env_step s t"
    using that assms(1) by cases (auto simp: stopping_def)
  ultimately show ?thesis using assms(2) by (auto simp: proc_step_def)
qed

lemma stopping_steps:
  assumes "proc_step\<^sup>*\<^sup>* s t" and "proc_reach s" and "stopping s"
  shows "proc_reach t \<and> stopping t"
  using assms by (induction rule: rtranclp_induct) (auto intro: stopping_step proc_reach.step)

lemma exit_zero: "proc_reach s \<Longrightarrow> pr_main s = MainExited n \<Longrightarrow> n = 0"
  using proc_reach_inv [of s] by (simp add: proc_inv_def)

lemma exits:
  "proc_reach s \<Longrightarrow> stopping s \<Longrightarrow> \<exists>t. own_step\<^sup>*\<^sup>* s t \<and> pr_main t = MainExited 0"
proof (induction "budget s" arbitrary: s rule: less_induct)
  case less
  show ?case
  proof (cases "\<exists>n. pr_main s = MainExited n")
    case True
    with exit_zero [OF less.prems(1)] show ?thesis by blast
  next
    case False
    then obtain u where u: "own_step s u" using own_step_possible [OF proc_reach_inv less.prems(2)] less.prems(1) by blast
    then have "proc_step s u" by (simp add: proc_step_def)
    then have "proc_reach u" "stopping u"
      using less.prems stopping_step proc_reach.step by blast+
    from less.hyps [OF own_step_budget [OF u] this] u show ?thesis by (meson converse_rtranclp_into_rtranclp)
  qed
qed

lemma budget_start: "proc_reach s \<Longrightarrow> budget s \<le> 11"
proof (induction rule: proc_reach.induct)
  case (step s t)
  with proc_step_budget [OF step(2)] show ?case by simp
qed (simp add: budget_def proc_start_def)

section \<open>Properties\<close>

text \<open>
  C17: The process ends: from its start, as from every state it reaches, it takes at most eleven
  steps of this kind; and once a signal has come or a fatal error is on its way it goes on by itself,
  whatever else happens meanwhile, until \<open>main\<close> returns.
\<close>

theorem process_terminates:
  assumes "proc_reach s"
  shows "(\<forall>n t. (proc_step ^^ n) s t \<longrightarrow> n \<le> 11)
    \<and> (stopping s \<longrightarrow> (\<exists>t. own_step\<^sup>*\<^sup>* s t \<and> pr_main t = MainExited 0)
        \<and> (\<forall>t. proc_step\<^sup>*\<^sup>* s t \<longrightarrow> (\<nexists>u. own_step t u) \<longrightarrow> pr_main t = MainExited 0))"
proof (intro conjI allI impI)
  show "n \<le> 11" if "(proc_step ^^ n) s t" for n t
    using proc_steps_budget [OF that] budget_start [OF assms] by linarith
  assume stop: "stopping s"
  show "\<exists>t. own_step\<^sup>*\<^sup>* s t \<and> pr_main t = MainExited 0" using assms stop by (rule exits)
  show "pr_main t = MainExited 0" if "proc_step\<^sup>*\<^sup>* s t" and "\<nexists>u. own_step t u" for t
    using that stopping_steps [OF that(1) assms stop] own_step_possible [OF proc_reach_inv] exit_zero by blast
qed

lemma sample_signal: "proc_reach (proc_start\<lparr>pr_signalled := True, pr_ctxDone := True\<rparr>)"
proof -
  have "env_step proc_start (proc_start\<lparr>pr_signalled := True, pr_ctxDone := True\<rparr>)"
    by (rule env_step.signal) (simp_all add: proc_start_def)
  then show ?thesis by (intro proc_reach.step [OF proc_reach.start]) (simp add: proc_step_def)
qed

theorem process_terminates_witness:
  "(\<nexists>t. (proc_step ^^ 12) (proc_start\<lparr>pr_signalled := True, pr_ctxDone := True\<rparr>) t)
   \<and> (\<exists>t. own_step\<^sup>*\<^sup>* (proc_start\<lparr>pr_signalled := True, pr_ctxDone := True\<rparr>) t \<and> pr_main t = MainExited 0)"
proof -
  have "stopping (proc_start\<lparr>pr_signalled := True, pr_ctxDone := True\<rparr>)" by (simp add: stopping_def)
  moreover have "\<not> (12::nat) \<le> 11" by simp
  ultimately show ?thesis using process_terminates [OF sample_signal] by blast
qed

text \<open>
  C23: The process stops only for a cause, and in order: \<open>main\<close> leaves its \<open>select\<close> once, for a signal
  that came or for an error other than a cancelled context that \<open>br.Run\<close> returned or one other than
  a closed server that the listener returned; the server is shut down before the context is
  cancelled and the database closed before the exit; and a goroutine with an error to report can
  always send it.
\<close>

theorem process_stops_for_cause:
  assumes "proc_reach s"
  shows "(pr_main s = MainSelect \<longleftrightarrow> pr_log s = []) \<and> length (pr_log s) \<le> 1
    \<and> (\<forall>x \<in> set (pr_log s). case x of
          OnSignal \<Rightarrow> pr_signalled s
        | OnFatal e \<Rightarrow> pr_bridge s = Finished (Some e) \<and> \<not> errors_Is e ErrCanceled
            \<or> pr_server s = Finished (Some e) \<and> \<not> errors_Is e ErrServerClosed)
    \<and> (pr_ctxDone s \<longrightarrow> pr_signalled s \<or> pr_closing s) \<and> (\<not> pr_dbOpen s \<longrightarrow> pr_closing s \<and> pr_ctxDone s)
    \<and> (\<forall>n. pr_main s = MainExited n \<longrightarrow> \<not> pr_dbOpen s)
    \<and> (\<forall>e. pr_bridge s = Sending e \<or> pr_server s = Sending e \<longrightarrow> (\<exists>c. chan_try_send (pr_errCh s) e = Inr (True, c)))"
proof -
  have inv: "proc_inv s" by (rule proc_reach_inv [OF assms])
  have fatal: "pr_bridge s = Finished (Some e) \<and> \<not> errors_Is e ErrCanceled
      \<or> pr_server s = Finished (Some e) \<and> \<not> errors_Is e ErrServerClosed" if "OnFatal e \<in> set (pr_log s)" for e
  proof -
    have "set (taken s) \<subseteq> set (fatal_errors s)" by (rule taken_fatal [OF inv])
    moreover have "e \<in> set (taken s)" using that by (force simp: taken_def)
    ultimately have "e \<in> set (fatal_errors s)" by blast
    then show ?thesis
      using sent_of_cause [of e canceled "pr_bridge s"] sent_of_cause [of e server_closed "pr_server s"]
      by (auto simp: fatal_errors_def canceled_def server_closed_def)
  qed
  have cause: "\<forall>x \<in> set (pr_log s). case x of
          OnSignal \<Rightarrow> pr_signalled s
        | OnFatal e \<Rightarrow> pr_bridge s = Finished (Some e) \<and> \<not> errors_Is e ErrCanceled
            \<or> pr_server s = Finished (Some e) \<and> \<not> errors_Is e ErrServerClosed"
    using fatal inv by (auto simp: proc_inv_def split: stop_reason.split)
  have room: "\<exists>c. chan_try_send (pr_errCh s) e = Inr (True, c)" if "pr_bridge s = Sending e \<or> pr_server s = Sending e" for e
    by (rule errCh_room [OF inv]) (use that in auto)
  have "(pr_main s = MainSelect \<longleftrightarrow> pr_log s = []) \<and> length (pr_log s) \<le> 1"
    using inv by (cases "pr_main s = MainSelect") (auto simp: proc_inv_def)
  moreover have "(pr_ctxDone s \<longrightarrow> pr_signalled s \<or> pr_closing s) \<and> (\<not> pr_dbOpen s \<longrightarrow> pr_closing s \<and> pr_ctxDone s)
    \<and> (\<forall>n. pr_main s = MainExited n \<longrightarrow> \<not> pr_dbOpen s)"
    using inv by (auto simp: proc_inv_def)
  ultimately show ?thesis using cause room by blast
qed

text \<open>A listener that cannot bind its address.\<close>

definition bind_error :: goerr where
  "bind_error = ErrExt ''listen tcp :8443: bind: address already in use''"

lemma sample_fatal:
  "\<exists>t. proc_reach t \<and> pr_main t = MainReturn \<and> pr_log t = [OnFatal bind_error] \<and> pr_bridge t = Running
     \<and> pr_server t = Finished (Some bind_error) \<and> \<not> pr_dbOpen t"
proof -
  let ?s1 = "proc_start\<lparr>pr_server := Sending bind_error\<rparr>"
  let ?c = "(make_chan 2)\<lparr>ch_buf := [bind_error]\<rparr>"
  let ?s2 = "?s1\<lparr>pr_errCh := ?c, pr_server := Finished (Some bind_error)\<rparr>"
  let ?s3 = "?s2\<lparr>pr_main := MainShutdown, pr_errCh := make_chan 2, pr_log := [OnFatal bind_error]\<rparr>"
  let ?s4 = "?s3\<lparr>pr_main := MainWait, pr_closing := True\<rparr>"
  let ?s5 = "?s4\<lparr>pr_main := MainCancel\<rparr>"
  let ?s6 = "?s5\<lparr>pr_main := MainClose, pr_ctxDone := True\<rparr>"
  let ?s7 = "(Bridge_Close ?s6)\<lparr>pr_main := MainReturn\<rparr>"
  have own: "proc_reach u" if "proc_reach s" "own_step s u" for s u
    using that by (auto intro: proc_reach.step simp: proc_step_def)
  have "server_returned (Some bind_error) = Sending bind_error"
    by (simp add: server_returned_def bind_error_def ErrServerClosed_def)
  then have "env_step proc_start ?s1"
    using env_step.server_return [of proc_start "Some bind_error"] by (simp add: proc_start_def)
  then have 1: "proc_reach ?s1" by (intro proc_reach.step [OF proc_reach.start]) (simp add: proc_step_def)
  have 2: "proc_reach ?s2"
    by (rule own [OF 1 own_step.server_send]) (simp_all add: proc_start_def, simp add: chan_try_send_def make_chan_def)
  have "own_step ?s2 (?s2\<lparr>pr_main := MainShutdown, pr_errCh := make_chan 2, pr_log := pr_log ?s2 @ [OnFatal bind_error]\<rparr>)"
    by (rule own_step.select_err) (simp_all add: proc_start_def, simp add: chan_recv_def make_chan_def)
  then have 3: "proc_reach ?s3" by (intro own [OF 2]) (simp add: proc_start_def)
  have 4: "proc_reach ?s4" by (rule own [OF 3 own_step.shutdown]) simp
  have 5: "proc_reach ?s5" by (rule own [OF 4 own_step.shut]) simp
  have 6: "proc_reach ?s6" by (rule own [OF 5 own_step.cancel]) simp
  have "proc_reach ?s7" by (rule own [OF 6 own_step.close]) simp
  moreover have "pr_main ?s7 = MainReturn \<and> pr_log ?s7 = [OnFatal bind_error] \<and> pr_bridge ?s7 = Running
     \<and> pr_server ?s7 = Finished (Some bind_error) \<and> \<not> pr_dbOpen ?s7"
    by (simp add: Bridge_Close_def proc_start_def)
  ultimately show ?thesis by blast
qed

theorem process_stops_for_cause_witness:
  "\<exists>t. proc_reach t \<and> pr_log t = [OnFatal bind_error] \<and> pr_closing t \<and> \<not> pr_dbOpen t"
proof -
  obtain t where t: "proc_reach t" "pr_log t = [OnFatal bind_error]" "\<not> pr_dbOpen t" using sample_fatal by blast
  from process_stops_for_cause [OF t(1)] t show ?thesis by blast
qed

text \<open>
  The main goroutine does not wait for the bridge: the database is closed under a bridge that runs.
\<close>

lemma db_closed_under_bridge: "\<exists>s. proc_reach s \<and> \<not> pr_dbOpen s \<and> pr_bridge s = Running \<and> (\<forall>n. pr_main s \<noteq> MainExited n)"
  using sample_fatal by (metis main_pc.distinct(41))

text \<open>
  The exit status does not show a fatal error: a process that got as far as its goroutines exits with
  status 0 also when its listener failed.
\<close>

lemma exit_after_fatal: "\<exists>s. proc_reach s \<and> pr_main s = MainExited 0 \<and> pr_log s = [OnFatal bind_error]"
proof -
  obtain t where t: "proc_reach t" "pr_main t = MainReturn" "pr_log t = [OnFatal bind_error]" using sample_fatal by blast
  let ?u = "t\<lparr>pr_main := MainExited 0\<rparr>"
  have "proc_reach ?u" by (rule proc_reach.step [OF t(1)]) (simp add: proc_step_def own_step.return [OF t(2)])
  with t(3) show ?thesis by (intro exI [of _ ?u]) simp
qed

text \<open>
  C40: The start-up takes its stages in order and keeps the daemon's two secrets. The process runs
  exactly when the configuration loads, the certificate pair loads or is made, and \<open>New\<close> succeeds;
  else it exits with status 1. Certificate files change only under a configuration that loads, only
  its two and only if one of them was not found; the key file is made only where there was none and only
  after the pair on disk loaded. A process that runs serves the certificate of its files, under the key
  of the key file; and every process that is later started on the files it left, with the same two
  paths, serves the same certificate, uses the same key and changes neither.
\<close>

theorem program_start:
  assumes "program io = (r, certs, kf)"
  shows "((\<exists>x. r = Inr x) \<longleftrightarrow>
       (\<exists>cfg c d b k op. Load (st_file io) (st_unmarshal io) = Inr cfg
          \<and> EnsureSelfSigned (tls_CertPath (cfg_TLS cfg)) (tls_KeyPath (cfg_TLS cfg)) (tls_Hosts (cfg_TLS cfg))
               (st_tls io) (st_certs io) = (Inr c, d) \<and> New cfg (st_new io) = (Inr b, k, op)))
    \<and> (\<forall>n. r = Inl n \<longrightarrow> n = 1)
    \<and> (certs \<noteq> st_certs io \<longrightarrow>
         (\<exists>cfg. Load (st_file io) (st_unmarshal io) = Inr cfg
            \<and> (\<forall>p. p \<noteq> tls_CertPath (cfg_TLS cfg) \<longrightarrow> p \<noteq> tls_KeyPath (cfg_TLS cfg) \<longrightarrow> certs p = st_certs io p)
            \<and> \<not> (stat_ok (st_certs io) (tls_CertPath (cfg_TLS cfg)) \<and> stat_ok (st_certs io) (tls_KeyPath (cfg_TLS cfg)))))
    \<and> (kf \<noteq> ni_key (st_new io) \<longrightarrow> ni_key (st_new io) = KeyAbsent
         \<and> (\<exists>cfg cert. Load (st_file io) (st_unmarshal io) = Inr cfg \<and> cert \<noteq> []
            \<and> LoadX509KeyPair (st_tls io) (tls_CertPath (cfg_TLS cfg)) (tls_KeyPath (cfg_TLS cfg)) certs = Inr cert))
    \<and> (\<forall>lvl sv hs p. r = Inr (lvl, sv, hs, p) \<longrightarrow>
         p = proc_start \<and> Load (st_file io) (st_unmarshal io) = Inr (sv_cfg sv) \<and> kf = KeyFile (bg_mediaKey (sv_br sv))
         \<and> (\<exists>cert. hs = New_http (sv_cfg sv) cert \<and> LoadX509KeyPair (st_tls io) (tls_CertPath (cfg_TLS (sv_cfg sv)))
              (tls_KeyPath (cfg_TLS (sv_cfg sv))) certs = Inr cert)
         \<and> (\<forall>io' lvl' sv' hs' p' certs' kf'. program io' = (Inr (lvl', sv', hs', p'), certs', kf') \<longrightarrow>
              st_certs io' = certs \<longrightarrow> ni_key (st_new io') = kf \<longrightarrow>
              ti_X509KeyPair (st_tls io') = ti_X509KeyPair (st_tls io) \<longrightarrow>
              tls_CertPath (cfg_TLS (sv_cfg sv')) = tls_CertPath (cfg_TLS (sv_cfg sv)) \<longrightarrow>
              tls_KeyPath (cfg_TLS (sv_cfg sv')) = tls_KeyPath (cfg_TLS (sv_cfg sv)) \<longrightarrow>
              hs_Certificates hs' = hs_Certificates hs \<and> bg_mediaKey (sv_br sv') = bg_mediaKey (sv_br sv)
              \<and> certs' = certs \<and> kf' = kf))"
proof (intro conjI allI impI, goal_cases)
  case 1
  show ?case by (rule program_runs_iff [OF assms])
next
  case (2 n)
  then show ?case by (rule program_exit [OF assms])
next
  case 3
  then show ?case by (rule program_certs [OF assms])
next
  case 4
  then show ?case by (rule program_key(1) [OF assms])
next
  case 5
  then show ?case by (rule program_key(2) [OF assms])
qed (erule program_runs [OF assms] | rule program_again [OF assms]; assumption)+

text \<open>The sample start-up, and one on the files it left.\<close>

definition sample_files :: cert_disk where
  "sample_files = [''c'' \<mapsto> Readable [1, 2], ''k'' \<mapsto> Readable [3]]"

definition sample_restart :: "key_file \<Rightarrow> start_io" where
  "sample_restart kf = sample_start\<lparr>st_tls := sample_tls_io\<lparr>ti_GenerateKey := Inl ErrCanceled\<rparr>,
     st_certs := sample_files, st_new := sample_new_io\<lparr>ni_key := kf, ni_rand := Inl ErrCanceled\<rparr>\<rparr>"

lemma sample_load: "Load (st_file sample_start) (st_unmarshal sample_start) = Inr sample_cfg"
proof -
  have "config_ok sample_cfg" by (simp add: config_ok_def sample_cfg_def)
  then show ?thesis by (simp add: Load_def sample_start_def validate_id)
qed

lemma sample_paths: "tls_CertPath (cfg_TLS sample_cfg) = ''c''" "tls_KeyPath (cfg_TLS sample_cfg) = ''k''"
  by (simp_all add: sample_cfg_def)

lemma sample_program:
  "\<exists>lvl sv hs p kf. program sample_start = (Inr (lvl, sv, hs, p), sample_files, kf) \<and> sv_cfg sv = sample_cfg"
proof -
  obtain b kf where new: "New sample_cfg sample_new_io = (Inr b, kf, True)" using New_sample by blast
  have "st_tls sample_start = sample_tls_io" "st_certs sample_start = Map.empty" "st_new sample_start = sample_new_io"
    by (simp_all add: sample_start_def)
  moreover have "EnsureSelfSigned ''c'' ''k'' hosts sample_tls_io Map.empty
      = (Inr ([[1, 2]], hex_encode (sha256 [1, 2])), sample_files)" for hosts
    by (simp add: EnsureSelfSigned_def generate_pair_def writePEM_def LoadX509KeyPair_def with_fingerprint_def
        fingerprint_def stat_ok_def os_ReadFile_def sample_tls_io_def sample_files_def)
  ultimately show ?thesis by (simp add: program_def sample_load sample_paths new Let_def)
qed

lemma sample_second_program:
  "length k = 32 \<Longrightarrow> \<exists>lvl sv hs p certs kf. program (sample_restart (KeyFile k)) = (Inr (lvl, sv, hs, p), certs, kf)
     \<and> sv_cfg sv = sample_cfg"
proof -
  assume k: "length k = 32"
  obtain mc d where "new_evict (empty_cache ''m'' 100) (ni_disk sample_new_io) = (mc, d)" by fastforce
  then have new: "\<exists>b kf. New sample_cfg (sample_new_io\<lparr>ni_key := KeyFile k, ni_rand := Inl ErrCanceled\<rparr>) = (Inr b, kf, True)"
    using k by (auto simp: New_def sample_new_io_def sample_cfg_def loadOrCreateMediaKey_def mediaKeySize_def
        newMediaCache_def empty_cache_def split: prod.splits)
  have "Load (st_file (sample_restart (KeyFile k))) (st_unmarshal (sample_restart (KeyFile k))) = Inr sample_cfg"
    using sample_load by (simp add: sample_restart_def)
  moreover have "EnsureSelfSigned ''c'' ''k'' hosts (sample_tls_io\<lparr>ti_GenerateKey := Inl ErrCanceled\<rparr>) sample_files
      = (Inr ([[1, 2]], hex_encode (sha256 [1, 2])), sample_files)" for hosts
    by (simp add: EnsureSelfSigned_def LoadX509KeyPair_def with_fingerprint_def
        fingerprint_def stat_ok_def os_ReadFile_def sample_tls_io_def sample_files_def)
  ultimately show ?thesis using new by (auto simp: program_def sample_paths Let_def) (auto simp: sample_restart_def)
qed

theorem program_start_witness:
  "\<exists>x x' kf. program sample_start = (Inr x, sample_files, kf) \<and> kf \<noteq> KeyAbsent
     \<and> program (sample_restart kf) = (Inr x', sample_files, kf)"
proof -
  obtain lvl sv hs p kf where one: "program sample_start = (Inr (lvl, sv, hs, p), sample_files, kf)" "sv_cfg sv = sample_cfg"
    using sample_program by blast
  note start = program_start [OF one(1)]
  have kf: "kf = KeyFile (bg_mediaKey (sv_br sv))" using start by blast
  obtain cfg cert fp br op where b: "sv = New_server cfg br" "New cfg (st_new sample_start) = (Inr br, kf, op)"
    using one(1) refl by (rule program_running)
  then have "length (bg_mediaKey (sv_br sv)) = 32" using New_spec [OF b(2)] by simp
  then obtain lvl' sv' hs' p' certs' kf' where
    two: "program (sample_restart kf) = (Inr (lvl', sv', hs', p'), certs', kf')" "sv_cfg sv' = sample_cfg"
    using sample_second_program unfolding kf by blast
  have same: "st_certs (sample_restart kf) = sample_files" "ni_key (st_new (sample_restart kf)) = kf"
    "ti_X509KeyPair (st_tls (sample_restart kf)) = ti_X509KeyPair (st_tls sample_start)"
    by (simp_all add: sample_restart_def sample_start_def)
  note runs = start [THEN conjunct2, THEN conjunct2, THEN conjunct2, THEN conjunct2, rule_format, OF refl]
  note again = runs [THEN conjunct2, THEN conjunct2, THEN conjunct2, THEN conjunct2, rule_format]
  have "certs' = sample_files \<and> kf' = kf"
    using again [OF two(1) same] one(2) two(2) by simp
  with one(1) two(1) show ?thesis by (simp add: kf)
qed

end
