(* ===== verification/Spec2Isabelle.thy ===== *)
theory Spec2Isabelle
  imports Cache_Concurrency Daemon_Login Process
begin

text \<open>
  A verification development for tg-bridge, a Go daemon that holds one Telegram account and lets
  small devices read and write chats over HTTPS and a WebSocket. Every Go file of the daemon is
  modelled but for the parts named at the end.

  \<^bold>\<open>How the program works.\<close> \<open>main\<close> loads the configuration, ensures a TLS pair, makes the \<open>Bridge\<close>
  and serves HTTP. The bridge logs in to Telegram with values that the auth routes submit, keeps a
  cache of the peers it has seen, answers the chat routes by calls to Telegram, publishes incoming
  messages to the event streams, and downloads photos into an LRU cache on disk. Media are named by
  identifiers that carry an HMAC under a key of the bridge, so that a client can only fetch what the
  bridge has offered. Every route needs a bearer token; a token's client may have an allow-list of
  chats; the auth routes are rate limited per address.

  \<^bold>\<open>Theories and sources.\<close> The names of the definitions are those of the source.
    \<^item> \<open>Prelude\<close>, \<open>Go_Strings\<close>: Go's errors, buffered channels (with the interface locale
      \<open>bounded_queue\<close>), the functions of \<open>strings\<close>, \<open>strconv\<close> and \<open>filepath\<close> the code uses.
    \<^item> \<open>Utf8\<close>, \<open>Json\<close>: Go's UTF-8 and \<open>encoding/json\<close> as the code relies on them: encoding with HTML
      escapes, and the value that is read from a body, with nesting limit, escapes and surrogates.
    \<^item> \<open>Config\<close>: \<open>internal/config/config.go\<close>, the records, \<open>validate\<close>, \<open>Load\<close>, \<open>TokenToClient\<close>.
    \<^item> \<open>Crypto\<close>, \<open>Crypto_Tests\<close>, \<open>Base64\<close>, \<open>Media_Id\<close>: SHA-256, HMAC and unpadded base64 written
      out, and the identifiers of \<open>internal/bridge/media.go\<close> (\<open>encodeMediaID\<close>, \<open>decodeMediaID\<close>
      and the binary layout).
    \<^item> \<open>Media_Key\<close>: \<open>mediakey.go\<close>. \<open>Media_Summary\<close>: \<open>summarizeMedia\<close> and the choice of a photo
      size in \<open>media.go\<close>. \<open>Media_Fetch\<close>: \<open>FetchMedia\<close>.
    \<^item> \<open>Media_Cache\<close>: \<open>mediacache.go\<close> run by one goroutine; the state is the index, the list of
      recent use with its element identities, the running total and the files. \<open>Cache_Concurrency\<close>:
      \<open>Get\<close> and the two halves of \<open>Put\<close> interleaved.
    \<^item> \<open>Broker\<close>: the event broker of \<open>updates.go\<close> with channels in a store, \<open>Subscribe\<close> in its two
      halves. \<open>Updates\<close>: the update handlers and \<open>chatAllowed\<close> of \<open>bridge.go\<close>.
    \<^item> \<open>Auth_Flow\<close>: \<open>auth.go\<close>, the authenticator and \<open>runAuth\<close>, \<open>signInWithCodeRetry\<close>,
      \<open>passwordLoop\<close> as a step machine with the HTTP submissions in between.
    \<^item> \<open>Tg_Types\<close>, \<open>Peers\<close>, \<open>Bridge_State\<close>, \<open>Chats\<close>: the Telegram types the code matches on; the
      helpers, the peer cache and the operations of \<open>chats.go\<close> and \<open>send.go\<close>; \<open>New\<close>, \<open>Self\<close>
      and \<open>waitReady\<close> of \<open>bridge.go\<close>. The bridge's record has the fields of the struct, the
      files of the cache directory, and as a ghost field the calls made to Telegram.
    \<^item> \<open>Rate_Limit\<close>: \<open>internal/httpapi/ratelimit.go\<close>. \<open>Http_Api\<close>: \<open>server.go\<close>,
      \<open>middleware.go\<close>, \<open>chats.go\<close> and \<open>auth.go\<close> of \<open>httpapi\<close>, a function from a request and the
      server to a response and the new server; a body is its bytes. \<open>Wire\<close>: the JSON of the structs by
      their tags, the bodies of the responses (\<open>writeJSON\<close>), the frames of \<open>writeEvent\<close>, and
      \<open>requestLog\<close> with its \<open>statusWriter\<close>. \<open>Ws_Events\<close>: \<open>ws.go\<close>, any number of connections
      over the broker as a step relation.
    \<^item> \<open>Tls_Util\<close>: \<open>internal/tlsutil/tlsutil.go\<close>. \<open>Startup\<close>: the start-up in
      \<open>cmd/tg-bridge/main.go\<close> and the function that \<open>Run\<close> gives the Telegram client. \<open>Process\<close>: the
      rest of \<open>main\<close>: the level of the log, the two goroutines with \<open>errCh\<close>, the signal, the
      \<open>select\<close>, the shut-down and the deferred calls as a step relation.
    \<^item> \<open>Daemon\<close>: all of it as one system from the start-up on. A request is a step of \<open>serve\<close> and,
      when it submits a value or opens a stream, a step of the login or a new connection; an update is
      a step of the dispatcher with its publication; the login and the streams take their other steps.
      \<open>Daemon_Login\<close>: its login driven by requests.

  \<^bold>\<open>What the lemmas show.\<close>
    \<^item> Access: \<open>http_requires_token\<close>, \<open>http_allow_list\<close>; every handler satisfies \<open>handler_ok\<close>,
      which rests on \<open>acts_on\<close>, what an operation of the bridge may call and change
      (\<open>operations_stay_in_chat\<close>). Attempts: \<open>rl_run_bound\<close> bounds the limiter,
      \<open>http_auth_attempts_bounded\<close> carries it to the responses of the server.
      The four places that apply an allow-list agree (\<open>allow_list_agrees\<close>, below).
    \<^item> Media: identifiers round trip and are authentic; a fetch downloads the signed location only;
      the cache implements LRU with its bound. The total and the bound hold interleaved and after a
      start on any directory; that index, list and files describe the same entries also needs a
      directory in which no two files share a stem, in \<open>cache_interleaved_invariant\<close> and, over a restart,
      in \<open>newMediaCache_good\<close>.
    \<^item> Events: no panic on a channel in any interleaving, order of delivery, exactly what updates publish
      (\<open>dispatch_publishes_allowed\<close>), and what a connection is sent (\<open>ws_stream_exact\<close>), with no subscription left behind
      (\<open>ws_no_leak\<close>). The connections refine the broker's system: each of their steps is one of its
      steps or leaves it alone (\<open>ws_step_broker\<close>).
    \<^item> Login: authorized only by Telegram, inputs used once and in order, what errors end it, and
      that requests can finish it from every state of the daemon in which it has not failed
      (\<open>daemon_login_can_finish\<close>).
    \<^item> Wire: a response has the JSON type its endpoint and status announce (\<open>http_response_typed\<close>); chats,
      messages and events are read back as they were (\<open>wire_roundtrip\<close>, over the reader's inverse
      \<open>json_decode_encode\<close>); what comes of a posted text, case by case (\<open>http_send_text\<close>).
    \<^item> Process: it ends, by itself once a signal came or a fatal error is reported
      (\<open>process_terminates\<close>), only for such a cause and in order (\<open>process_stops_for_cause\<close>). The start-up
      takes its stages in order, and a later start serves the same certificate under the same media
      key (\<open>program_start\<close>). The exit status does not show a fatal error (\<open>exit_after_fatal\<close>).
    \<^item> Whole: \<open>startup_serves\<close>, below, from the start-up through any requests; and over the daemon's
      steps in any order, with the invariant \<open>daemon_inv\<close>, after a start on a cache directory in order
      (\<open>clean_cache_dir\<close>: a true listing in which no two files share a stem): no call to Telegram before the login was
      accepted (\<open>daemon_acts_after_login\<close>), what a stream is sent (\<open>daemon_streams_isolated\<close>), no
      panic (\<open>daemon_no_panic\<close>).

  \<^bold>\<open>Interfaces.\<close> \<open>bounded_queue\<close> (channels), \<open>tagged_message\<close> (identifiers), \<open>media_store\<close> (the cache
  as a store for \<open>FetchMedia\<close>), \<open>peer_store\<close> (the peer cache), \<open>float_rounding\<close> (float64),
  \<open>fixed_field\<close> (fields of fixed width in a layout), \<open>wire_struct\<close> (a struct's JSON) are locales interpreted on the model's own
  definitions.

  \<^bold>\<open>Parameters.\<close> Telegram is the record \<open>telegram\<close>: any functions from the calls so far and a
  request to an answer; nothing is assumed of them. Files, random bytes, the clock, the YAML parser,
  X.509, the outcome of a download and of each call of the operating system are arguments. The range
  order of a map is an argument where it matters.

  \<^bold>\<open>Integers and bounds.\<close> \<open>int64\<close> and \<open>int\<close> are 64-bit words. Subscriptions are numbered by a
  64-bit counter, so the broker's properties hold for fewer than \<open>2 ^ 64\<close> calls of \<open>Subscribe\<close>. The
  event buffers hold 64 events, as in \<open>New\<close>. The limiter's float64 numbers are rationals rounded to
  53 bits after every operation, or once for the product and the sum of the refill where Go fuses
  them (arm64); its bound has the rounding error \<open>2 ^ -46\<close> per request, and holds while at most
  10001 addresses are seen, for then no bucket is dropped. The loops of the cache end because each
  eviction shortens the list. The JSON reader has fuel for twice the length of its input, which is
  enough: more changes nothing (\<open>json_decode_fuel\<close>), and what was encoded is always read back.

  \<^bold>\<open>Not modelled.\<close> The command line flag; the text of the log but for the request line and the reason
  of a shut-down; how \<open>Run\<close> builds the Telegram client and the updates manager, which the library
  owns; TLS, the parsing of a request by \<open>net/http\<close>, the redirects of its mux, conditional and range requests to \<open>ServeFile\<close>, and how
  the WebSocket handshake is decided: it succeeds, or is refused with a status other than 401 and 429. \<open>Wire\<close> leaves out the headers beside the content type and \<open>Retry-After\<close>. In \<open>Daemon\<close> a
  request is one step: the interleaving of two requests is modelled where they share a lock (the
  cache in \<open>Cache_Concurrency\<close>, the broker and the login), and a request that waits in \<open>waitReady\<close> is
  taken as a step at the time it goes on. \<open>Process\<close> takes the bridge and the listener as running
  until they return; that \<open>Shutdown\<close> ends within its five seconds is the library's promise.
\<close>

section \<open>From the start-up to any request\<close>

text \<open>
  C13: A start-up that succeeds ends in a server with a valid configuration in which no client has
  an empty token, a fresh limiter, a media key that is in the key file and a 64-digit fingerprint.
  If the cache directory was in order (\<open>clean_cache_dir\<close>: its listing is true to the files and no two
  of them share a stem), the bridge's parts satisfy their invariants, and from there any sequence of
  requests keeps every part of the state in order and makes no handler panic.
\<close>

theorem startup_serves:
  assumes "startup io = (Inr (s, fp), certs, kf)"
  shows "s = New_server (sv_cfg s) (sv_br s) \<and> bg_cfg (sv_br s) = sv_cfg s
    \<and> config_ok (sv_cfg s) \<and> TokenToClient (sv_cfg s) '''' = None \<and> kf = KeyFile (bg_mediaKey (sv_br s))
    \<and> length (bg_mediaKey (sv_br s)) = 32 \<and> length fp = 64
    \<and> (clean_cache_dir (st_new io) \<longrightarrow> bridge_ok (sv_br s)
        \<and> (\<forall>qs resps s'. serve_all qs s = (resps, s') \<longrightarrow>
             bridge_ok (sv_br s') \<and> sv_cfg s' = sv_cfg s \<and> (\<forall>resp \<in> set resps. rs_Reply resp \<noteq> ReplyPanic)))"
  using assms(1)
proof (rule startup_Inr)
  fix cfg cert br
  assume cfg: "Load (st_file io) (st_unmarshal io) = Inr cfg"
    and tls: "EnsureSelfSigned (tls_CertPath (cfg_TLS cfg)) (tls_KeyPath (cfg_TLS cfg)) (tls_Hosts (cfg_TLS cfg))
       (st_tls io) (st_certs io) = (Inr (cert, fp), certs)"
    and br: "New cfg (st_new io) = (Inr br, kf, True)" and s: "s = New_server cfg br"
  have ok: "config_ok cfg" using cfg by (auto simp: Load_def validate_config_ok split: sum.splits)
  have "length fp = 64" using Ensure_loaded(5) [OF tls] by simp
  moreover have bridge: "bridge_ok (sv_br s)" if "clean_cache_dir (st_new io)" using New_bridge_ok [OF br that] by (simp add: s)
  moreover note serve_all_limiter [OF bridge]
  ultimately show ?thesis
    using New_cfg [OF br] New_spec [OF br] ok TokenToClient_empty [OF ok] by (simp add: s)
qed

theorem startup_serves_witness:
  "\<exists>s fp certs kf. startup sample_start = (Inr (s, fp), certs, kf) \<and> clean_cache_dir (st_new sample_start)
     \<and> bridge_ok (sv_br s) \<and> length fp = 64 \<and> TokenToClient (sv_cfg s) '''' = None"
proof -
  obtain b fp certs kf where start: "startup sample_start = (Inr (New_server sample_cfg b, fp), certs, kf)"
    using sample_startup by blast
  from startup_serves [OF start] start sample_start_clean show ?thesis by simp
qed

section \<open>One policy in four places\<close>

text \<open>
  C39: The four places that apply an allow-list agree: the filter of the event stream and that of the
  chat list let through exactly the chats that \<open>clientCanAccess\<close> grants the handlers on one chat, and
  \<open>chatAllowed\<close>, which decides what is published, is the same decision for the first client.
\<close>

theorem allow_list_agrees:
  "(eventAllowed cl ev \<longleftrightarrow> clientCanAccess cl (ev_ChatID ev))
    \<and> (chatAllowed b i \<longleftrightarrow> clientCanAccess (case cfg_Clients (bg_cfg b) of [] \<Rightarrow> None | c # cs \<Rightarrow> Some c) i)
    \<and> handleListChats env r cl s =
        (if Self (sv_br s) = None then (writeError 503 ''not authorized yet'', s)
         else case ListChats (he_telegram env) (atoi_value (rq_Query r ''limit'')) (sv_br s) of
           (Inl e, b1) \<Rightarrow> (writeError 500 (error_text e), s\<lparr>sv_br := b1\<rparr>)
         | (Inr chats, b1) \<Rightarrow>
             (writeJSON 200 (ReplyChats (filter (\<lambda>c. clientCanAccess cl (chat_ID c)) chats)), s\<lparr>sv_br := b1\<rparr>))"
proof -
  have filter: "(case cl of Some c \<Rightarrow> if cl_AllowedChats c \<noteq> [] then filter (\<lambda>x. chat_ID x \<in> set (cl_AllowedChats c)) chats else chats
      | None \<Rightarrow> chats) = filter (\<lambda>c. clientCanAccess cl (chat_ID c)) chats" for chats
    by (simp add: clientCanAccess_def split: option.split)
  have "eventAllowed cl ev \<longleftrightarrow> clientCanAccess cl (ev_ChatID ev)"
    by (simp add: eventAllowed_def clientCanAccess_def split: option.split)
  moreover have "chatAllowed b i \<longleftrightarrow> clientCanAccess (case cfg_Clients (bg_cfg b) of [] \<Rightarrow> None | c # cs \<Rightarrow> Some c) i"
    by (simp add: chatAllowed_def clientCanAccess_def Let_def split: list.split)
  moreover have "handleListChats env r cl s =
        (if Self (sv_br s) = None then (writeError 503 ''not authorized yet'', s)
         else case ListChats (he_telegram env) (atoi_value (rq_Query r ''limit'')) (sv_br s) of
           (Inl e, b1) \<Rightarrow> (writeError 500 (error_text e), s\<lparr>sv_br := b1\<rparr>)
         | (Inr chats, b1) \<Rightarrow>
             (writeJSON 200 (ReplyChats (filter (\<lambda>c. clientCanAccess cl (chat_ID c)) chats)), s\<lparr>sv_br := b1\<rparr>))"
    unfolding handleListChats_def filter by (rule refl)
  ultimately show ?thesis by blast
qed

end
